(* ===== verification/Tasker_Prelude.thy ===== *)
theory Tasker_Prelude
  imports Main "HOL-Library.Word" "HOL-Library.Multiset" "HOL-Library.Monad_Syntax"
begin

text \<open>
  The vocabulary every component of the scheduler shares.

  \<^item> Machine integers are words of their Rust width. The release profile of the workspace
    does not turn overflow checks on, so plain \<open>+\<close>, \<open>-\<close> and \<open>*\<close> are the wrapping word
    operations; \<open>saturating_*\<close> and \<open>checked_add\<close> are the operations of the standard library.
    A \<open>usize\<close> (a vector length or an index) is a \<open>nat\<close>.
  \<^item> A panic (failed \<open>expect\<close>, \<open>assert!\<close>, \<open>unreachable!\<close>, an index out of range) is
    \<open>None\<close> of the option type, and code that may panic is written in the option monad: the
    value \<open>None\<close> of such an operation means that the thread is gone, never that a lookup
    found nothing. A lookup that returns \<open>Option\<close> in Rust keeps its own option type.
  \<^item> A \<open>Result\<close> is a sum: \<open>Inl e\<close> is the error, \<open>Inr x\<close> the success.
  \<^item> A \<open>Vec\<close> is a list.
\<close>

unbundle bit_operations_syntax

section \<open>Machine integers\<close>

type_synonym u8 = "8 word"
type_synonym u32 = "32 word"
type_synonym u64 = "64 word"
type_synonym u128 = "128 word"

named_theorems word_nat \<open>readings of word operations on natural numbers\<close>

definition saturating_add :: "'a::len word \<Rightarrow> 'a word \<Rightarrow> 'a word" where
  "saturating_add a b = (if unat a + unat b < 2 ^ LENGTH('a) then a + b else - 1)"

definition saturating_sub :: "'a::len word \<Rightarrow> 'a word \<Rightarrow> 'a word" where
  "saturating_sub a b = (if a < b then 0 else a - b)"

definition saturating_mul :: "'a::len word \<Rightarrow> 'a word \<Rightarrow> 'a word" where
  "saturating_mul a b = (if unat a * unat b < 2 ^ LENGTH('a) then a * b else - 1)"

definition checked_add :: "'a::len word \<Rightarrow> 'a word \<Rightarrow> 'a word option" where
  "checked_add a b = (if unat a + unat b < 2 ^ LENGTH('a) then Some (a + b) else None)"

text \<open>\<open>u32::try_from(n).expect(..)\<close>: a panic when the count does not fit.\<close>

definition expect_u32 :: "nat \<Rightarrow> u32 option" where
  "expect_u32 n = (if n < 2 ^ 32 then Some (word_of_nat n) else None)"

lemma unat_lt [word_nat, simp, intro]: "unat (w :: 'a::len word) < 2 ^ LENGTH('a)"
  by (rule unsigned_less)

lemma unat_minus_one_word_eq: "unat (- 1 :: 'a::len word) = 2 ^ LENGTH('a) - 1"
  by (simp add: unsigned_minus_1_eq_mask mask_eq_exp_minus_1)

lemma unat_add_exact [word_nat]:
  "unat a + unat b < 2 ^ LENGTH('a) \<Longrightarrow> unat (a + b) = unat a + unat (b :: 'a::len word)"
  by (simp add: unat_word_ariths)

lemma unat_mult_exact [word_nat]:
  "unat a * unat b < 2 ^ LENGTH('a) \<Longrightarrow> unat (a * b) = unat a * unat (b :: 'a::len word)"
  by (simp add: unat_word_ariths)

lemma unat_saturating_add [word_nat]:
  "unat (saturating_add a b) = min (unat a + unat b) (2 ^ LENGTH('a) - 1)"
  for a b :: "'a::len word"
  by (auto simp: saturating_add_def unat_add_exact unat_minus_one_word_eq)

lemma saturating_add_commute: "saturating_add a b = saturating_add b a"
  unfolding saturating_add_def
  by (simp only: add.commute [of a b] add.commute [of "unat a" "unat b"])

lemma unat_saturating_sub [word_nat]:
  "unat (saturating_sub a b) = unat a - unat b"
  for a b :: "'a::len word"
  by (auto simp: saturating_sub_def word_less_nat_alt unat_sub word_le_nat_alt)

lemma unat_saturating_mul [word_nat]:
  "unat (saturating_mul a b) = min (unat a * unat b) (2 ^ LENGTH('a) - 1)"
  for a b :: "'a::len word"
  by (auto simp: saturating_mul_def unat_mult_exact unat_minus_one_word_eq)

lemma checked_add_Some_iff [word_nat]:
  "checked_add a b = Some c \<longleftrightarrow> unat c = unat a + unat b"
  for a b c :: "'a::len word"
proof (cases "unat a + unat b < 2 ^ LENGTH('a)")
  case True
  then have "c = a + b \<longleftrightarrow> unat c = unat a + unat b"
    by (simp add: word_eq_iff_unsigned [where ?'a = nat] unat_add_exact)
  with True show ?thesis by (auto simp: checked_add_def)
next
  case False
  with unat_lt [of c] have "unat c \<noteq> unat a + unat b" by linarith
  with False show ?thesis by (simp add: checked_add_def)
qed

lemma checked_add_None_iff [word_nat]:
  "checked_add a b = None \<longleftrightarrow> 2 ^ LENGTH('a) \<le> unat a + unat b"
  for a b :: "'a::len word"
  by (auto simp: checked_add_def)

lemma expect_u32_Some: "n < 2 ^ 32 \<Longrightarrow> expect_u32 n = Some (word_of_nat n)"
  by (simp add: expect_u32_def)

lemma expect_u32_unat: "expect_u32 n = Some w \<Longrightarrow> unat w = n \<and> n < 2 ^ 32"
  by (auto simp: expect_u32_def unat_of_nat split: if_splits)

lemma unat_word_of_nat_u32 [simp]: "n < 2 ^ 32 \<Longrightarrow> unat (word_of_nat n :: u32) = n"
  by (simp add: unat_of_nat)

text \<open>Code equations on words and integers, so that closed terms evaluate.\<close>

lemma add_no_wrap_iff: "unat a + unat b < 2 ^ LENGTH('a) \<longleftrightarrow> a \<le> a + b"
  for a b :: "'a::len word"
proof (cases "unat a + unat b < 2 ^ LENGTH('a)")
  case True
  then show ?thesis by (simp add: word_le_nat_alt unat_add_exact)
next
  case False
  have "unat a + unat b - 2 ^ LENGTH('a) < 2 ^ LENGTH('a)"
    using unat_lt [of a] unat_lt [of b] by linarith
  with False have "unat (a + b) = unat a + unat b - 2 ^ LENGTH('a)"
    by (simp only: unat_word_ariths le_mod_geq mod_less not_less)
  also have "\<dots> < unat a" using False unat_lt [of b] by linarith
  finally have "\<not> a \<le> a + b" by (simp only: word_le_nat_alt not_le)
  with False show ?thesis by blast
qed

lemma saturating_add_code [code]: "saturating_add a b = (let s = a + b in if a \<le> s then s else - 1)"
  by (simp add: saturating_add_def add_no_wrap_iff Let_def)

lemma checked_add_code [code]: "checked_add a b = (let s = a + b in if a \<le> s then Some s else None)"
  by (simp add: checked_add_def add_no_wrap_iff Let_def)

lemma saturating_mul_code [code]:
  "saturating_mul a b = (if uint a * uint b < 2 ^ LENGTH('a) then a * b else - 1)"
  for a b :: "'a::len word"
proof -
  have "unat a * unat b < 2 ^ LENGTH('a) \<longleftrightarrow> int (unat a * unat b) < int (2 ^ LENGTH('a))"
    by (simp only: of_nat_less_iff)
  also have "\<dots> \<longleftrightarrow> uint a * uint b < 2 ^ LENGTH('a)" by simp
  finally show ?thesis by (simp add: saturating_mul_def)
qed

lemma expect_u32_code [code]:
  "expect_u32 n = (if int n < 4294967296 then Some (word_of_int (int n)) else None)"
proof -
  have "n < 2 ^ 32 \<longleftrightarrow> int n < 4294967296" by simp
  then show ?thesis by (simp add: expect_u32_def)
qed

section \<open>Vectors\<close>

text \<open>\<open>xs.get(i)\<close>: \<open>None\<close> when out of range.\<close>

definition vec_get :: "'a list \<Rightarrow> nat \<Rightarrow> 'a option" where
  "vec_get xs i = (if i < length xs then Some (xs ! i) else None)"

text \<open>\<open>xs[i]\<close> and \<open>xs[i] = v\<close>: a panic when out of range.\<close>

definition vec_index :: "'a list \<Rightarrow> nat \<Rightarrow> 'a option" where
  "vec_index xs i = (if i < length xs then Some (xs ! i) else None)"

definition vec_set :: "'a list \<Rightarrow> nat \<Rightarrow> 'a \<Rightarrow> 'a list option" where
  "vec_set xs i v = (if i < length xs then Some (xs[i := v]) else None)"

definition vec_swap :: "'a list \<Rightarrow> nat \<Rightarrow> nat \<Rightarrow> 'a list option" where
  "vec_swap xs i j =
     (if i < length xs \<and> j < length xs then Some (xs[i := xs ! j, j := xs ! i]) else None)"

definition vec_resize :: "'a list \<Rightarrow> nat \<Rightarrow> 'a \<Rightarrow> 'a list" where
  "vec_resize xs n v = take n xs @ replicate (n - length xs) v"

text \<open>\<open>iter().position(p)\<close>.\<close>

fun position :: "('a \<Rightarrow> bool) \<Rightarrow> 'a list \<Rightarrow> nat option" where
  "position p [] = None"
| "position p (x # xs) = (if p x then Some 0 else map_option Suc (position p xs))"

text \<open>\<open>swap_remove(i)\<close>: the removed element and the vector with the last element in its place.\<close>

definition swap_remove :: "'a list \<Rightarrow> nat \<Rightarrow> ('a \<times> 'a list) option" where
  "swap_remove xs i =
     (if i < length xs then Some (xs ! i, butlast (xs[i := last xs])) else None)"

lemma vec_get_Some_iff [simp]: "vec_get xs i = Some x \<longleftrightarrow> i < length xs \<and> xs ! i = x"
  by (auto simp: vec_get_def)

lemma vec_get_None_iff [simp]: "vec_get xs i = None \<longleftrightarrow> length xs \<le> i"
  by (auto simp: vec_get_def)

lemma vec_index_Some [simp]: "i < length xs \<Longrightarrow> vec_index xs i = Some (xs ! i)"
  by (simp add: vec_index_def)

lemma vec_index_Some_iff: "vec_index xs i = Some x \<longleftrightarrow> i < length xs \<and> xs ! i = x"
  by (auto simp: vec_index_def)

lemma vec_set_Some [simp]: "i < length xs \<Longrightarrow> vec_set xs i v = Some (xs[i := v])"
  by (simp add: vec_set_def)

lemma vec_set_Some_iff: "vec_set xs i v = Some ys \<longleftrightarrow> i < length xs \<and> ys = xs[i := v]"
  by (auto simp: vec_set_def)

lemma vec_swap_Some [simp]:
  "i < length xs \<Longrightarrow> j < length xs \<Longrightarrow> vec_swap xs i j = Some (xs[i := xs ! j, j := xs ! i])"
  by (simp add: vec_swap_def)

lemma length_vec_resize [simp]: "length (vec_resize xs n v) = n"
  by (simp add: vec_resize_def)

lemma nth_vec_resize:
  "i < n \<Longrightarrow> vec_resize xs n v ! i = (if i < length xs then xs ! i else v)"
  by (auto simp: vec_resize_def nth_append)

lemma position_Some_iff:
  "position p xs = Some i \<longleftrightarrow> i < length xs \<and> p (xs ! i) \<and> (\<forall>j<i. \<not> p (xs ! j))"
proof (induction xs arbitrary: i)
  case Nil
  then show ?case by simp
next
  case (Cons x xs)
  show ?case
  proof (cases i)
    case 0
    then show ?thesis by auto
  next
    case (Suc k)
    then show ?thesis using Cons.IH [of k] by (auto simp: less_Suc_eq_0_disj)
  qed
qed

lemma position_None_iff: "position p xs = None \<longleftrightarrow> (\<forall>x\<in>set xs. \<not> p x)"
  by (induction xs) auto

lemma mset_swap_remove:
  assumes "swap_remove xs i = Some (x, ys)"
  shows "mset xs = add_mset x (mset ys)" and "i < length xs" and "x = xs ! i"
proof -
  from assms show i: "i < length xs" and x: "x = xs ! i"
    by (auto simp: swap_remove_def split: if_splits)
  from assms have ys: "ys = butlast (xs[i := last xs])"
    by (auto simp: swap_remove_def split: if_splits)
  from i obtain zs z where xs: "xs = zs @ [z]" by (cases xs rule: rev_cases) auto
  show "mset xs = add_mset x (mset ys)"
  proof (cases "i = length zs")
    case True
    then show ?thesis using ys x xs by simp
  next
    case False
    with i xs have "i < length zs" by simp
    then show ?thesis using ys x xs
      by (simp add: list_update_append nth_append mset_update)
  qed
qed

section \<open>The option monad of possible panics\<close>

lemma bind_Some_iff [simp]:
  "Option.bind m f = Some y \<longleftrightarrow> (\<exists>x. m = Some x \<and> f x = Some y)"
  by (rule Option.bind_eq_Some_conv)

end
