(* ===== verification/Resource_Vector.thy ===== *)
theory Resource_Vector
  imports Tasker_Prelude
begin

text \<open>
  Virtual time and the resource vector (\<open>domain/time.rs\<close>, \<open>domain/resource.rs\<close>).
  The newtypes \<open>VirtualTime\<close> and \<open>VirtualDuration\<close> are their nanosecond counts; the
  constructors and accessors of the newtypes are therefore identities.
\<close>

section \<open>Virtual time\<close>

type_synonym virtual_time = u64
type_synonym virtual_duration = u64

definition time_saturating_add :: "virtual_time \<Rightarrow> virtual_duration \<Rightarrow> virtual_time" where
  "time_saturating_add t delta = saturating_add t delta"

definition saturating_sub_time :: "virtual_time \<Rightarrow> virtual_time \<Rightarrow> virtual_duration" where
  "saturating_sub_time t earlier = saturating_sub t earlier"

definition from_secs :: "u64 \<Rightarrow> virtual_duration" where
  "from_secs secs = saturating_mul secs 1000000000"

section \<open>The resource vector\<close>

record resources =
  cpu_millis :: u32
  mem_bytes :: u64
  gpus :: u8

definition ZERO :: resources where
  "ZERO = \<lparr>cpu_millis = 0, mem_bytes = 0, gpus = 0\<rparr>"

definition fits_within :: "resources \<Rightarrow> resources \<Rightarrow> bool" where
  "fits_within r capacity \<longleftrightarrow>
     cpu_millis r \<le> cpu_millis capacity \<and> mem_bytes r \<le> mem_bytes capacity
     \<and> gpus r \<le> gpus capacity"

definition res_checked_add :: "resources \<Rightarrow> resources \<Rightarrow> resources option" where
  "res_checked_add a b =
     (case checked_add (cpu_millis a) (cpu_millis b) of
        None \<Rightarrow> None
      | Some c \<Rightarrow>
          (case checked_add (mem_bytes a) (mem_bytes b) of
             None \<Rightarrow> None
           | Some m \<Rightarrow>
               (case checked_add (gpus a) (gpus b) of
                  None \<Rightarrow> None
                | Some g \<Rightarrow> Some \<lparr>cpu_millis = c, mem_bytes = m, gpus = g\<rparr>)))"

definition res_saturating_add :: "resources \<Rightarrow> resources \<Rightarrow> resources" where
  "res_saturating_add a b =
     \<lparr>cpu_millis = saturating_add (cpu_millis a) (cpu_millis b),
      mem_bytes = saturating_add (mem_bytes a) (mem_bytes b),
      gpus = saturating_add (gpus a) (gpus b)\<rparr>"

definition res_saturating_sub :: "resources \<Rightarrow> resources \<Rightarrow> resources" where
  "res_saturating_sub a b =
     \<lparr>cpu_millis = saturating_sub (cpu_millis a) (cpu_millis b),
      mem_bytes = saturating_sub (mem_bytes a) (mem_bytes b),
      gpus = saturating_sub (gpus a) (gpus b)\<rparr>"

section \<open>Time is monotone and never wraps\<close>

lemma time_saturating_add_ge: "t \<le> time_saturating_add t d"
  using unat_lt [of t] by (simp add: time_saturating_add_def word_le_nat_alt unat_saturating_add)

lemma time_saturating_add_mono: "d \<le> d' \<Longrightarrow> time_saturating_add t d \<le> time_saturating_add t d'"
  by (auto simp: time_saturating_add_def word_le_nat_alt unat_saturating_add)

lemma saturating_sub_time_zero_iff: "saturating_sub_time t e = 0 \<longleftrightarrow> t \<le> e"
  by (simp add: saturating_sub_time_def word_eq_iff_unsigned [where ?'a = nat] unat_saturating_sub
      word_le_nat_alt)

section \<open>The componentwise order\<close>

text \<open>The three dimensions read as natural numbers: every law below is one about these.\<close>

definition dims :: "resources \<Rightarrow> nat \<times> nat \<times> nat" where
  "dims r = (unat (cpu_millis r), unat (mem_bytes r), unat (gpus r))"

lemma resources_eq_iff: "a = b \<longleftrightarrow> dims a = dims b"
  for a b :: resources
  by (auto simp: dims_def intro!: resources.equality unsigned_word_eqI [where ?'a = nat])

lemma fits_within_iff [word_nat]:
  "fits_within a b \<longleftrightarrow> unat (cpu_millis a) \<le> unat (cpu_millis b)
     \<and> unat (mem_bytes a) \<le> unat (mem_bytes b) \<and> unat (gpus a) \<le> unat (gpus b)"
  by (simp add: fits_within_def word_le_nat_alt)

lemma fits_within_refl [simp]: "fits_within a a"
  by (simp add: fits_within_def)

lemma fits_within_trans [trans]: "fits_within a b \<Longrightarrow> fits_within b c \<Longrightarrow> fits_within a c"
  by (auto simp: fits_within_def)

lemma fits_within_antisym: "fits_within a b \<Longrightarrow> fits_within b a \<Longrightarrow> a = b"
  by (auto simp: fits_within_def intro!: resources.equality)

lemma ZERO_fits [simp]: "fits_within ZERO a"
  by (simp add: fits_within_def ZERO_def)

lemma fits_ZERO_iff [simp]: "fits_within a ZERO \<longleftrightarrow> a = ZERO"
  by (auto simp: fits_within_def ZERO_def intro!: resources.equality)

lemma dims_saturating_sub [simp]:
  "unat (cpu_millis (res_saturating_sub a b)) = unat (cpu_millis a) - unat (cpu_millis b)"
  "unat (mem_bytes (res_saturating_sub a b)) = unat (mem_bytes a) - unat (mem_bytes b)"
  "unat (gpus (res_saturating_sub a b)) = unat (gpus a) - unat (gpus b)"
  by (simp_all add: res_saturating_sub_def unat_saturating_sub)

lemma dims_saturating_add [simp]:
  "unat (cpu_millis (res_saturating_add a b))
     = min (unat (cpu_millis a) + unat (cpu_millis b)) (2 ^ 32 - 1)"
  "unat (mem_bytes (res_saturating_add a b))
     = min (unat (mem_bytes a) + unat (mem_bytes b)) (2 ^ 64 - 1)"
  "unat (gpus (res_saturating_add a b)) = min (unat (gpus a) + unat (gpus b)) (2 ^ 8 - 1)"
  by (simp_all add: res_saturating_add_def unat_saturating_add)

lemma res_checked_add_Some_iff [word_nat]:
  "res_checked_add a b = Some c \<longleftrightarrow>
     unat (cpu_millis c) = unat (cpu_millis a) + unat (cpu_millis b)
     \<and> unat (mem_bytes c) = unat (mem_bytes a) + unat (mem_bytes b)
     \<and> unat (gpus c) = unat (gpus a) + unat (gpus b)"
proof -
  have "res_checked_add a b = Some c \<longleftrightarrow>
      checked_add (cpu_millis a) (cpu_millis b) = Some (cpu_millis c)
      \<and> checked_add (mem_bytes a) (mem_bytes b) = Some (mem_bytes c)
      \<and> checked_add (gpus a) (gpus b) = Some (gpus c)"
    by (cases c) (auto simp: res_checked_add_def split: option.splits)
  then show ?thesis by (simp add: checked_add_Some_iff)
qed

lemma fits_within_saturating_add: "fits_within a (res_saturating_add a b)"
proof -
  have "unat (w :: 'a::len word) \<le> 2 ^ LENGTH('a) - 1" for w
    using unat_lt [of w] by linarith
  from this [of "cpu_millis a"] this [of "mem_bytes a"] this [of "gpus a"]
  show ?thesis by (simp add: fits_within_iff)
qed

lemma fits_within_saturating_add_mono:
  "fits_within a b \<Longrightarrow> fits_within (res_saturating_add a c) (res_saturating_add b c)"
  by (auto simp: fits_within_iff)

lemma saturating_sub_fits: "fits_within (res_saturating_sub a b) a"
  by (simp add: fits_within_iff)

lemma res_saturating_add_commute: "res_saturating_add a b = res_saturating_add b a"
  by (simp add: res_saturating_add_def saturating_add_commute)

text \<open>
  Allocation arithmetic: a request that fits into what is left of a slot can be added to
  what is allocated without overflow and without exceeding the capacity, provided the slot
  was within its capacity to begin with.
\<close>

lemma free_fits_imp_add:
  assumes "fits_within alloc cap" and "fits_within r (res_saturating_sub cap alloc)"
  shows "\<exists>n. res_checked_add alloc r = Some n \<and> fits_within n cap"
proof -
  have "unat (cpu_millis alloc) + unat (cpu_millis r) < 2 ^ 32"
    and "unat (mem_bytes alloc) + unat (mem_bytes r) < 2 ^ 64"
    and "unat (gpus alloc) + unat (gpus r) < 2 ^ 8"
    using assms unat_lt [of "cpu_millis cap"] unat_lt [of "mem_bytes cap"] unat_lt [of "gpus cap"]
    by (auto simp: fits_within_iff)
  then have n: "res_checked_add alloc r =
      Some \<lparr>cpu_millis = cpu_millis alloc + cpu_millis r,
            mem_bytes = mem_bytes alloc + mem_bytes r, gpus = gpus alloc + gpus r\<rparr>"
    (is "_ = Some ?n")
    by (simp add: res_checked_add_def checked_add_def)
  then have "fits_within ?n cap"
    using assms by (simp add: fits_within_iff res_checked_add_Some_iff) linarith
  with n show ?thesis by blast
qed

lemma add_fits_imp_free:
  assumes "res_checked_add alloc r = Some n" and "fits_within n cap"
  shows "fits_within r (res_saturating_sub cap alloc)"
  using assms by (auto simp: fits_within_iff res_checked_add_Some_iff)

lemma checked_add_then_sub:
  assumes "res_checked_add alloc r = Some n"
  shows "res_saturating_sub n r = alloc"
proof -
  have "dims (res_saturating_sub n r) = dims alloc"
    using assms by (simp add: dims_def res_checked_add_Some_iff)
  then show ?thesis by (simp only: resources_eq_iff)
qed

section \<open>One dimension at a time\<close>

text \<open>
  Replaying releases adds many vectors up. Read dimension by dimension, a fit is a comparison of
  natural numbers, and saturation does not show: what is compared is never above the maximum.
\<close>

datatype dim = Cpu | Mem | Gpu

fun dim_of :: "dim \<Rightarrow> resources \<Rightarrow> nat" where
  "dim_of Cpu r = unat (cpu_millis r)"
| "dim_of Mem r = unat (mem_bytes r)"
| "dim_of Gpu r = unat (gpus r)"

fun dim_max :: "dim \<Rightarrow> nat" where
  "dim_max Cpu = 2 ^ 32 - 1"
| "dim_max Mem = 2 ^ 64 - 1"
| "dim_max Gpu = 2 ^ 8 - 1"

lemma dim_of_le_max: "dim_of d r \<le> dim_max d"
  using unat_lt [of "cpu_millis r"] unat_lt [of "mem_bytes r"] unat_lt [of "gpus r"]
  by (cases d) simp_all

lemma fits_within_dims: "fits_within a b \<longleftrightarrow> (\<forall>d. dim_of d a \<le> dim_of d b)"
proof
  assume "\<forall>d. dim_of d a \<le> dim_of d b"
  then have "dim_of Cpu a \<le> dim_of Cpu b" "dim_of Mem a \<le> dim_of Mem b" "dim_of Gpu a \<le> dim_of Gpu b"
    by blast+
  then show "fits_within a b" by (simp add: fits_within_iff)
next
  assume "fits_within a b"
  then show "\<forall>d. dim_of d a \<le> dim_of d b" by (intro allI, case_tac d) (simp_all add: fits_within_iff)
qed

lemma dim_of_saturating_add: "dim_of d (res_saturating_add a b) = min (dim_of d a + dim_of d b) (dim_max d)"
  by (cases d) simp_all

lemma dim_of_saturating_sub: "dim_of d (res_saturating_sub a b) = dim_of d a - dim_of d b"
  by (cases d) simp_all

lemma dim_of_checked_add: "res_checked_add a b = Some c \<Longrightarrow> dim_of d c = dim_of d a + dim_of d b"
  by (cases d) (simp_all add: res_checked_add_Some_iff)

lemma dim_of_foldl_add:
  "dim_of d (foldl res_saturating_add a rs) = min (dim_of d a + (\<Sum>r\<leftarrow>rs. dim_of d r)) (dim_max d)"
proof (induction rs arbitrary: a)
  case Nil
  then show ?case using dim_of_le_max [of d a] by simp
qed (simp add: dim_of_saturating_add min_def)

lemma fits_foldl_add_iff:
  "fits_within req (foldl res_saturating_add a rs)
     \<longleftrightarrow> (\<forall>d. dim_of d req \<le> dim_of d a + (\<Sum>r\<leftarrow>rs. dim_of d r))"
  using dim_of_le_max by (simp add: fits_within_dims dim_of_foldl_add)

end
