(* ===== verification/Slot_Inventory.thy ===== *)
theory Slot_Inventory
  imports Resource_Vector
begin

text \<open>
  The cluster capacity model (\<open>cluster/slot.rs\<close>): worker slots, allocation and release,
  first fit, and the operations the engine uses as workers come and go.
\<close>

section \<open>State\<close>

type_synonym slot_index = u32

datatype capacity_error = NoSuchSlot slot_index | WouldExceed slot_index

record worker_slot =
  capacity :: resources
  allocated :: resources

record slot_inventory =
  inv_slots :: "worker_slot list"
  max_capacity :: resources

definition worker_slot_new :: "resources \<Rightarrow> worker_slot" where
  "worker_slot_new cap = \<lparr>capacity = cap, allocated = ZERO\<rparr>"

definition slot_free :: "worker_slot \<Rightarrow> resources" where
  "slot_free s = res_saturating_sub (capacity s) (allocated s)"

section \<open>Operations\<close>

definition res_max :: "resources \<Rightarrow> resources \<Rightarrow> resources" where
  "res_max a c =
     \<lparr>cpu_millis = max (cpu_millis a) (cpu_millis c),
      mem_bytes = max (mem_bytes a) (mem_bytes c), gpus = max (gpus a) (gpus c)\<rparr>"

definition from_uniform :: "u32 \<Rightarrow> resources \<Rightarrow> slot_inventory" where
  "from_uniform n cap =
     \<lparr>inv_slots = replicate (unat n) (worker_slot_new cap), max_capacity = cap\<rparr>"

definition from_capacities :: "resources list \<Rightarrow> slot_inventory" where
  "from_capacities capacities =
     \<lparr>inv_slots = map worker_slot_new capacities,
      max_capacity = foldl res_max ZERO capacities\<rparr>"

definition inv_len :: "slot_inventory \<Rightarrow> slot_index option" where
  "inv_len iv = expect_u32 (length (inv_slots iv))"

definition inv_is_empty :: "slot_inventory \<Rightarrow> bool" where
  "inv_is_empty iv \<longleftrightarrow> inv_slots iv = []"

definition inv_slot :: "slot_inventory \<Rightarrow> slot_index \<Rightarrow> worker_slot option" where
  "inv_slot iv slot = vec_get (inv_slots iv) (unat slot)"

definition inv_free :: "slot_inventory \<Rightarrow> slot_index \<Rightarrow> resources option" where
  "inv_free iv slot = map_option slot_free (vec_get (inv_slots iv) (unat slot))"

definition first_fit :: "slot_inventory \<Rightarrow> resources \<Rightarrow> slot_index option option" where
  "first_fit iv req =
     (case position (\<lambda>s. fits_within req (slot_free s)) (inv_slots iv) of
        None \<Rightarrow> Some None
      | Some i \<Rightarrow> map_option Some (expect_u32 i))"

definition try_allocate ::
  "slot_inventory \<Rightarrow> slot_index \<Rightarrow> resources \<Rightarrow> capacity_error + slot_inventory" where
  "try_allocate iv slot req =
     (case vec_get (inv_slots iv) (unat slot) of
        None \<Rightarrow> Inl (NoSuchSlot slot)
      | Some entry \<Rightarrow>
          (case res_checked_add (allocated entry) req of
             None \<Rightarrow> Inl (WouldExceed slot)
           | Some nxt \<Rightarrow>
               (if \<not> fits_within nxt (capacity entry) then Inl (WouldExceed slot)
                else Inr (iv\<lparr>inv_slots :=
                       (inv_slots iv)[unat slot := entry\<lparr>allocated := nxt\<rparr>]\<rparr>))))"

definition release ::
  "slot_inventory \<Rightarrow> slot_index \<Rightarrow> resources \<Rightarrow> capacity_error + slot_inventory" where
  "release iv slot req =
     (case vec_get (inv_slots iv) (unat slot) of
        None \<Rightarrow> Inl (NoSuchSlot slot)
      | Some entry \<Rightarrow>
          Inr (iv\<lparr>inv_slots := (inv_slots iv)[unat slot :=
                 entry\<lparr>allocated := res_saturating_sub (allocated entry) req\<rparr>]\<rparr>))"

definition can_ever_fit :: "slot_inventory \<Rightarrow> resources \<Rightarrow> bool" where
  "can_ever_fit iv req =
     (if \<not> fits_within req (max_capacity iv) then False
      else list_ex (\<lambda>s. fits_within req (capacity s)) (inv_slots iv))"

definition total_free :: "slot_inventory \<Rightarrow> resources" where
  "total_free iv = foldl (\<lambda>acc s. res_saturating_add acc (slot_free s)) ZERO (inv_slots iv)"

definition add_slot :: "slot_inventory \<Rightarrow> resources \<Rightarrow> (slot_inventory \<times> slot_index) option" where
  "add_slot iv cap =
     (let (ss, index) =
        (case position (\<lambda>s. capacity s = ZERO) (inv_slots iv) of
           Some i \<Rightarrow> ((inv_slots iv)[i := worker_slot_new cap], i)
         | None \<Rightarrow> (let ss = inv_slots iv @ [worker_slot_new cap] in (ss, length ss - 1)))
      in do { slot \<leftarrow> expect_u32 index;
              Some (iv\<lparr>inv_slots := ss, max_capacity := res_max (max_capacity iv) cap\<rparr>, slot) })"

definition push_slot :: "slot_inventory \<Rightarrow> resources \<Rightarrow> (slot_inventory \<times> slot_index) option" where
  "push_slot iv cap =
     (let ss = inv_slots iv @ [worker_slot_new cap]
      in do { slot \<leftarrow> expect_u32 (length ss - 1);
              Some (iv\<lparr>inv_slots := ss, max_capacity := res_max (max_capacity iv) cap\<rparr>, slot) })"

definition set_capacity ::
  "slot_inventory \<Rightarrow> slot_index \<Rightarrow> resources \<Rightarrow> capacity_error + slot_inventory" where
  "set_capacity iv slot cap =
     (case vec_get (inv_slots iv) (unat slot) of
        None \<Rightarrow> Inl (NoSuchSlot slot)
      | Some entry \<Rightarrow>
          Inr (iv\<lparr>inv_slots := (inv_slots iv)[unat slot := entry\<lparr>capacity := cap\<rparr>]\<rparr>))"

definition clear_allocation ::
  "slot_inventory \<Rightarrow> slot_index \<Rightarrow> capacity_error + slot_inventory" where
  "clear_allocation iv slot =
     (case vec_get (inv_slots iv) (unat slot) of
        None \<Rightarrow> Inl (NoSuchSlot slot)
      | Some entry \<Rightarrow>
          Inr (iv\<lparr>inv_slots := (inv_slots iv)[unat slot := entry\<lparr>allocated := ZERO\<rparr>]\<rparr>))"

definition inv_reset :: "slot_inventory \<Rightarrow> slot_inventory" where
  "inv_reset iv = iv\<lparr>inv_slots := map (\<lambda>s. s\<lparr>allocated := ZERO\<rparr>) (inv_slots iv)\<rparr>"

section \<open>Slots within their capacity\<close>

text \<open>
  A slot is within its capacity when what it holds fits. A slot whose worker drains keeps what
  it runs while its capacity is zero, so it is not; \<open>alloc_sound\<close> is the condition under which
  the scheduler may still trust first fit for a request.
\<close>

definition slot_within :: "worker_slot \<Rightarrow> bool" where
  "slot_within s \<longleftrightarrow> fits_within (allocated s) (capacity s)"

definition inventory_wf :: "slot_inventory \<Rightarrow> bool" where
  "inventory_wf iv \<longleftrightarrow> length (inv_slots iv) \<le> 2 ^ 32 \<and> (\<forall>s\<in>set (inv_slots iv). slot_within s)"

definition alloc_sound :: "slot_inventory \<Rightarrow> resources \<Rightarrow> bool" where
  "alloc_sound iv r \<longleftrightarrow> length (inv_slots iv) \<le> 2 ^ 32
     \<and> (\<forall>s\<in>set (inv_slots iv). slot_within s \<or> capacity s = ZERO \<and> r \<noteq> ZERO)"

lemma inventory_wf_sound: "inventory_wf iv \<Longrightarrow> alloc_sound iv r"
  by (auto simp: inventory_wf_def alloc_sound_def)

lemma slot_free_ZERO: "capacity s = ZERO \<Longrightarrow> slot_free s = ZERO"
  by (simp add: slot_free_def resources_eq_iff dims_def) (simp add: ZERO_def)

lemma set_list_update_imp: "x \<in> set (xs[i := v]) \<Longrightarrow> x = v \<or> x \<in> set xs"
  using set_update_subset_insert by fastforce

lemma first_fit_Some:
  assumes "first_fit iv r = Some (Some w)"
  shows "unat w < length (inv_slots iv) \<and> fits_within r (slot_free (inv_slots iv ! unat w))
     \<and> (\<forall>j < unat w. \<not> fits_within r (slot_free (inv_slots iv ! j)))"
  using assms
  by (auto simp: first_fit_def position_Some_iff split: option.splits dest: expect_u32_unat)

lemma first_fit_None:
  "first_fit iv r = Some None \<longleftrightarrow> (\<forall>s\<in>set (inv_slots iv). \<not> fits_within r (slot_free s))"
  by (auto simp: first_fit_def position_None_iff position_Some_iff split: option.splits
      dest: nth_mem)

lemma first_fit_total:
  assumes "length (inv_slots iv) \<le> 2 ^ 32"
  shows "\<exists>r'. first_fit iv r = Some r'"
  using assms by (auto simp: first_fit_def position_Some_iff expect_u32_def split: option.splits)

lemma try_allocate_Inr:
  assumes "try_allocate iv w r = Inr iv'"
  obtains n where "unat w < length (inv_slots iv)"
    "res_checked_add (allocated (inv_slots iv ! unat w)) r = Some n"
    "fits_within n (capacity (inv_slots iv ! unat w))"
    "iv' = iv\<lparr>inv_slots := (inv_slots iv)[unat w := (inv_slots iv ! unat w)\<lparr>allocated := n\<rparr>]\<rparr>"
  using assms by (auto simp: try_allocate_def split: option.splits if_splits)

lemma first_fit_allocates:
  assumes "alloc_sound iv r" and "first_fit iv r = Some (Some w)"
  shows "\<exists>iv'. try_allocate iv w r = Inr iv'"
proof -
  let ?s = "inv_slots iv ! unat w"
  from first_fit_Some [OF assms(2)] have w: "unat w < length (inv_slots iv)"
    and fit: "fits_within r (slot_free ?s)" by auto
  then have "slot_within ?s \<or> capacity ?s = ZERO \<and> r \<noteq> ZERO"
    using assms(1) by (auto simp: alloc_sound_def)
  with fit have "slot_within ?s" using slot_free_ZERO by fastforce
  with fit have "\<exists>n. res_checked_add (allocated ?s) r = Some n \<and> fits_within n (capacity ?s)"
    unfolding slot_within_def slot_free_def by (intro free_fits_imp_add)
  with w show ?thesis by (auto simp: try_allocate_def vec_get_def)
qed

lemma try_allocate_sound:
  assumes "alloc_sound iv q" and "try_allocate iv w r = Inr iv'"
  shows "alloc_sound iv' q"
  using assms(2)
proof (cases rule: try_allocate_Inr)
  case (1 n)
  with assms(1) show ?thesis
    by (auto simp: alloc_sound_def slot_within_def dest!: set_list_update_imp)
qed

lemma try_allocate_wf:
  assumes "inventory_wf iv" and "try_allocate iv w r = Inr iv'"
  shows "inventory_wf iv'"
  using assms(2)
proof (cases rule: try_allocate_Inr)
  case (1 n)
  with assms(1) show ?thesis
    by (auto simp: inventory_wf_def slot_within_def dest!: set_list_update_imp)
qed

lemma release_Inr:
  assumes "release iv w r = Inr iv'"
  shows "unat w < length (inv_slots iv)
    \<and> iv' = iv\<lparr>inv_slots := (inv_slots iv)[unat w := (inv_slots iv ! unat w)
              \<lparr>allocated := res_saturating_sub (allocated (inv_slots iv ! unat w)) r\<rparr>]\<rparr>"
  using assms by (auto simp: release_def split: option.splits)

lemma slot_within_release:
  "slot_within s \<Longrightarrow> slot_within (s\<lparr>allocated := res_saturating_sub (allocated s) r\<rparr>)"
  unfolding slot_within_def by (simp, rule fits_within_trans [OF saturating_sub_fits])

lemma release_sound:
  assumes "alloc_sound iv q" and "release iv w r = Inr iv'"
  shows "alloc_sound iv' q"
proof -
  from release_Inr [OF assms(2)] have w: "inv_slots iv ! unat w \<in> set (inv_slots iv)" by simp
  with release_Inr [OF assms(2)] assms(1) show ?thesis
    by (fastforce simp: alloc_sound_def dest!: set_list_update_imp intro: slot_within_release)
qed

lemma release_wf:
  assumes "inventory_wf iv" and "release iv w r = Inr iv'"
  shows "inventory_wf iv'"
proof -
  from release_Inr [OF assms(2)] have w: "inv_slots iv ! unat w \<in> set (inv_slots iv)" by simp
  with release_Inr [OF assms(2)] assms(1) show ?thesis
    by (auto simp: inventory_wf_def slot_within_release dest!: set_list_update_imp)
qed

lemma allocate_then_release:
  assumes "try_allocate iv w r = Inr iv'"
  shows "release iv' w r = Inr iv"
  using assms
proof (cases rule: try_allocate_Inr)
  case (1 n)
  then have "res_saturating_sub n r = allocated (inv_slots iv ! unat w)"
    by (simp add: checked_add_then_sub)
  with 1 show ?thesis by (simp add: release_def vec_get_def)
qed

lemma try_allocate_length:
  "try_allocate iv w r = Inr iv' \<Longrightarrow> length (inv_slots iv') = length (inv_slots iv)"
  by (auto elim: try_allocate_Inr)

lemma try_allocate_frame:
  assumes "try_allocate iv w r = Inr iv'" and "x \<noteq> w"
  shows "inv_free iv' x = inv_free iv x"
  using assms(1)
proof (cases rule: try_allocate_Inr)
  case (1 n)
  from assms(2) have "unat w \<noteq> unat x" by (metis unsigned_word_eqI)
  with 1 show ?thesis by (auto simp: inv_free_def vec_get_def)
qed

lemma try_allocate_fits:
  assumes "try_allocate iv w r = Inr iv'"
  shows "fits_within r (slot_free (inv_slots iv ! unat w))"
  using assms
proof (cases rule: try_allocate_Inr)
  case (1 n)
  then show ?thesis by (simp add: slot_free_def add_fits_imp_free)
qed

section \<open>The contract of an allocator\<close>

text \<open>
  What packing and backfill rely on: a slot that first fit reports can be charged, a refused
  request fits nowhere, charging and releasing keep the allocator sound, and a tentative
  charge is undone exactly by a release.
\<close>

locale allocator =
  fixes fit :: "'i \<Rightarrow> resources \<Rightarrow> slot_index option option"
    and alloc :: "'i \<Rightarrow> slot_index \<Rightarrow> resources \<Rightarrow> capacity_error + 'i"
    and rel :: "'i \<Rightarrow> slot_index \<Rightarrow> resources \<Rightarrow> capacity_error + 'i"
    and free :: "'i \<Rightarrow> slot_index \<Rightarrow> resources option"
    and sound :: "'i \<Rightarrow> resources \<Rightarrow> bool"
  assumes fit_total: "sound i r \<Longrightarrow> \<exists>x. fit i r = Some x"
    and fit_alloc: "sound i r \<Longrightarrow> fit i r = Some (Some w) \<Longrightarrow> \<exists>i'. alloc i w r = Inr i'"
    and fit_free: "fit i r = Some (Some w) \<Longrightarrow> \<exists>f. free i w = Some f \<and> fits_within r f"
    and fit_none: "fit i r = Some None \<Longrightarrow> free i w = Some f \<Longrightarrow> \<not> fits_within r f"
    and alloc_sound: "sound i q \<Longrightarrow> alloc i w r = Inr i' \<Longrightarrow> sound i' q"
    and alloc_frame: "alloc i w r = Inr i' \<Longrightarrow> x \<noteq> w \<Longrightarrow> free i' x = free i x"
    and alloc_rel: "alloc i w r = Inr i' \<Longrightarrow> rel i' w r = Inr i"
    and rel_sound: "sound i q \<Longrightarrow> rel i w r = Inr i' \<Longrightarrow> sound i' q"
begin

lemma fit_cases:
  assumes "sound i r"
  obtains (placed) w i' where "fit i r = Some (Some w)" "alloc i w r = Inr i'"
    "rel i' w r = Inr i"
  | (refused) "fit i r = Some None" "\<And>w f. free i w = Some f \<Longrightarrow> \<not> fits_within r f"
  using fit_total [OF assms] fit_alloc [OF assms] fit_none alloc_rel
  by (metis not_None_eq)

end

interpretation slots: allocator first_fit try_allocate release inv_free alloc_sound
proof unfold_locales
  fix i r w f i'
  show "alloc_sound i r \<Longrightarrow> \<exists>x. first_fit i r = Some x"
    by (rule first_fit_total) (simp add: alloc_sound_def)
  show "first_fit i r = Some (Some w) \<Longrightarrow> \<exists>f. inv_free i w = Some f \<and> fits_within r f"
    by (auto simp: inv_free_def vec_get_def dest: first_fit_Some)
  show "first_fit i r = Some None \<Longrightarrow> inv_free i w = Some f \<Longrightarrow> \<not> fits_within r f"
    by (auto simp: inv_free_def first_fit_None)
qed (fact first_fit_allocates try_allocate_sound try_allocate_frame allocate_then_release
    release_sound)+

section \<open>Histories of an inventory\<close>

text \<open>
  Every sequence of operations the daemon and the simulator perform: the daemon changes a
  capacity only to zero (a worker drains or leaves) or on a slot that holds nothing (a worker
  takes a vacant slot).
\<close>

inductive inventory_run :: "slot_inventory \<Rightarrow> bool" where
  run_uniform: "inventory_run (from_uniform n cap)"
| run_capacities: "length caps \<le> 2 ^ 32 \<Longrightarrow> inventory_run (from_capacities caps)"
| run_allocate: "inventory_run iv \<Longrightarrow> try_allocate iv w r = Inr iv' \<Longrightarrow> inventory_run iv'"
| run_release: "inventory_run iv \<Longrightarrow> release iv w r = Inr iv' \<Longrightarrow> inventory_run iv'"
| run_add: "inventory_run iv \<Longrightarrow> add_slot iv cap = Some (iv', w) \<Longrightarrow> inventory_run iv'"
| run_push: "inventory_run iv \<Longrightarrow> push_slot iv cap = Some (iv', w) \<Longrightarrow> inventory_run iv'"
| run_drain: "inventory_run iv \<Longrightarrow> set_capacity iv w ZERO = Inr iv' \<Longrightarrow> inventory_run iv'"
| run_rejoin: "inventory_run iv \<Longrightarrow> inv_slot iv w = Some s \<Longrightarrow> allocated s = ZERO
    \<Longrightarrow> set_capacity iv w cap = Inr iv' \<Longrightarrow> inventory_run iv'"
| run_clear: "inventory_run iv \<Longrightarrow> clear_allocation iv w = Inr iv' \<Longrightarrow> inventory_run iv'"
| run_reset: "inventory_run iv \<Longrightarrow> inventory_run (inv_reset iv)"

definition drained_or_within :: "slot_inventory \<Rightarrow> bool" where
  "drained_or_within iv \<longleftrightarrow> length (inv_slots iv) \<le> 2 ^ 32
     \<and> (\<forall>s\<in>set (inv_slots iv). slot_within s \<or> capacity s = ZERO)"

lemma drained_or_within_sound:
  "drained_or_within iv \<longleftrightarrow> (\<forall>r. r \<noteq> ZERO \<longrightarrow> alloc_sound iv r)"
proof -
  have "(\<lparr>cpu_millis = 1, mem_bytes = 0, gpus = 0\<rparr> :: resources) \<noteq> ZERO" by (simp add: ZERO_def)
  then show ?thesis by (auto simp: drained_or_within_def alloc_sound_def)
qed

lemma slot_within_new [simp]: "slot_within (worker_slot_new cap)"
  by (simp add: slot_within_def worker_slot_new_def ZERO_fits)

lemma slot_within_empty [simp]: "slot_within (s\<lparr>allocated := ZERO\<rparr>)"
  by (simp add: slot_within_def ZERO_fits)

lemma drained_update:
  assumes "drained_or_within iv" and "slot_within s \<or> capacity s = ZERO"
  shows "drained_or_within (iv\<lparr>inv_slots := (inv_slots iv)[i := s]\<rparr>)"
  using assms by (auto simp: drained_or_within_def dest!: set_list_update_imp)

lemma drained_append:
  assumes "drained_or_within iv" and "expect_u32 (length (inv_slots iv)) = Some w"
  shows "drained_or_within (iv\<lparr>inv_slots := inv_slots iv @ [worker_slot_new cap], max_capacity := m\<rparr>)"
  using assms by (auto simp: drained_or_within_def dest: expect_u32_unat)

lemma add_slot_drained:
  assumes "drained_or_within iv" and "add_slot iv cap = Some (iv', w)"
  shows "drained_or_within iv'"
proof (cases "position (\<lambda>s. capacity s = ZERO) (inv_slots iv)")
  case None
  with assms show ?thesis by (auto simp: add_slot_def intro: drained_append)
next
  case (Some i)
  from drained_update [OF assms(1), of "worker_slot_new cap" i] Some assms(2) show ?thesis
    by (auto simp: add_slot_def drained_or_within_def)
qed

lemma set_capacity_drained:
  assumes "drained_or_within iv" and "set_capacity iv w cap = Inr iv'"
    and "cap = ZERO \<or> inv_slot iv w = Some s \<and> allocated s = ZERO"
  shows "drained_or_within iv'"
  using assms ZERO_fits
  by (auto simp: set_capacity_def inv_slot_def slot_within_def split: option.splits
      intro!: drained_update)

lemma inventory_run_drained: "inventory_run iv \<Longrightarrow> drained_or_within iv"
proof (induction rule: inventory_run.induct)
  case (run_uniform n cap)
  show ?case
    using unat_lt [of n] by (auto simp: drained_or_within_def from_uniform_def)
next
  case (run_push iv cap iv' w)
  then show ?case by (auto simp: push_slot_def intro: drained_append)
next
  case (run_clear iv w iv')
  then show ?case
    by (auto simp: clear_allocation_def split: option.splits intro: drained_update)
next
  case (run_allocate iv w r iv')
  then show ?case by (auto simp: drained_or_within_sound intro: try_allocate_sound)
next
  case (run_release iv w r iv')
  then show ?case by (auto simp: drained_or_within_sound intro: release_sound)
next
  case (run_add iv cap iv' w)
  then show ?case by (blast intro: add_slot_drained)
next
  case (run_drain iv w iv')
  then show ?case by (blast intro: set_capacity_drained)
next
  case (run_rejoin iv w s cap iv')
  then show ?case by (blast intro: set_capacity_drained)
qed (auto simp: drained_or_within_def from_capacities_def inv_reset_def)

section \<open>The running maximum of the capacities\<close>

definition caps_bounded :: "slot_inventory \<Rightarrow> bool" where
  "caps_bounded iv \<longleftrightarrow> (\<forall>s\<in>set (inv_slots iv). fits_within (capacity s) (max_capacity iv))"

lemma fits_res_max [simp]: "fits_within a (res_max a c)" "fits_within c (res_max a c)"
  by (auto simp: fits_within_def res_max_def)

lemma fits_foldl_res_max:
  "fits_within a (foldl res_max a cs) \<and> (\<forall>c\<in>set cs. fits_within c (foldl res_max a cs))"
proof (induction cs arbitrary: a)
  case (Cons c cs)
  from Cons [of "res_max a c"] show ?case
    by (auto intro: fits_within_trans [OF fits_res_max(1)] fits_within_trans [OF fits_res_max(2)])
qed (simp add: fits_within_refl)

lemma from_capacities_bounded: "caps_bounded (from_capacities cs)"
  using fits_foldl_res_max [of ZERO cs]
  by (auto simp: caps_bounded_def from_capacities_def worker_slot_new_def)

lemma can_ever_fit_iff:
  assumes "caps_bounded iv"
  shows "can_ever_fit iv r \<longleftrightarrow> (\<exists>s\<in>set (inv_slots iv). fits_within r (capacity s))"
  using assms fits_within_trans
  by (auto simp: can_ever_fit_def caps_bounded_def list_ex_iff)

lemma caps_bounded_grow:
  assumes "caps_bounded iv" and "s \<in> set (inv_slots iv)"
  shows "fits_within (capacity s) (res_max (max_capacity iv) cap)"
  using assms fits_within_trans [OF _ fits_res_max(1)] by (auto simp: caps_bounded_def)

lemma add_slot_bounded:
  assumes "caps_bounded iv" and "add_slot iv cap = Some (iv', w)"
  shows "caps_bounded iv'"
  using assms caps_bounded_grow [OF assms(1)]
  by (auto simp: caps_bounded_def add_slot_def worker_slot_new_def Let_def split: option.splits
      dest!: set_list_update_imp)

lemma push_slot_bounded:
  assumes "caps_bounded iv" and "push_slot iv cap = Some (iv', w)"
  shows "caps_bounded iv'"
  using assms caps_bounded_grow [OF assms(1)]
  by (auto simp: caps_bounded_def push_slot_def worker_slot_new_def Let_def)

section \<open>Properties\<close>

definition sample_inventory :: slot_inventory where
  "sample_inventory = from_capacities
     [\<lparr>cpu_millis = 1000, mem_bytes = 64, gpus = 0\<rparr>, \<lparr>cpu_millis = 4000, mem_bytes = 256, gpus = 1\<rparr>]"

definition sample_request :: resources where
  "sample_request = \<lparr>cpu_millis = 2000, mem_bytes = 128, gpus = 1\<rparr>"



text \<open>
  A zero request breaks that promise on a draining slot: there is an inventory the daemon
  reaches on which first fit reports a slot for the zero request and the allocation on that
  slot is refused.
\<close>

theorem zero_request_on_draining_slot:
  "\<exists>iv w. inventory_run iv \<and> first_fit iv ZERO = Some (Some w)
     \<and> try_allocate iv w ZERO = Inl (WouldExceed w)"
proof -
  define iv where "iv = from_capacities [sample_request]"
  define iv1 where "iv1 = projr (try_allocate iv 0 sample_request)"
  define iv2 where "iv2 = projr (set_capacity iv1 0 ZERO)"
  have run: "inventory_run iv" unfolding iv_def by (rule run_capacities) simp
  have a: "try_allocate iv 0 sample_request = Inr iv1" unfolding iv1_def iv_def by code_simp
  have b: "set_capacity iv1 0 ZERO = Inr iv2" unfolding iv2_def iv1_def iv_def by code_simp
  have "inventory_run iv2" by (rule run_drain [OF run_allocate [OF run a] b])
  moreover have "first_fit iv2 ZERO = Some (Some 0)" unfolding iv2_def iv1_def iv_def by code_simp
  moreover have "try_allocate iv2 0 ZERO = Inl (WouldExceed 0)"
    unfolding iv2_def iv1_def iv_def by code_simp
  ultimately show ?thesis by blast
qed


end
