(* ===== verification/Arena.thy ===== *)
theory Arena
  imports Tasker_Prelude
begin

text \<open>
  The generational arena (\<open>domain/arena.rs\<close>): handles, slots with an intrusive free list,
  and the snapshot constructor. \<open>get_mut\<close> returns the borrowed value together with the
  write-back through the borrow. The snapshot view \<open>SlotState\<close> repeats the constructors of
  \<open>Slot\<close>; both are the type \<open>slot\<close> here, so \<open>slots()\<close> is the field itself.
\<close>

section \<open>Handles\<close>

type_synonym job_id = u64

definition INDEX_MASK :: u64 where
  "INDEX_MASK = push_bit 32 1 - 1"

definition job_id_new :: "u32 \<Rightarrow> u32 \<Rightarrow> job_id" where
  "job_id_new index generation = push_bit 32 (ucast generation) OR ucast index"

definition job_index :: "job_id \<Rightarrow> u32" where
  "job_index i = ucast (i AND INDEX_MASK)"

definition job_generation :: "job_id \<Rightarrow> u32" where
  "job_generation i = ucast (drop_bit 32 i)"

section \<open>State\<close>

datatype 'a slot =
  Occupied (generation: u32) (val: 'a)
| Vacant (generation: u32) (next_free: "u32 option")

datatype arena_restore_error =
  BadFreeLink u32
| FreeListIncomplete nat nat

record 'a arena =
  arena_slots :: "'a slot list"
  arena_free_head :: "u32 option"
  arena_len :: nat

definition arena_new :: "'a arena" where
  "arena_new = \<lparr>arena_slots = [], arena_free_head = None, arena_len = 0\<rparr>"

section \<open>Operations\<close>

definition arena_is_empty :: "'a arena \<Rightarrow> bool" where
  "arena_is_empty a \<longleftrightarrow> arena_len a = 0"

definition capacity_slots :: "'a arena \<Rightarrow> nat" where
  "capacity_slots a = length (arena_slots a)"

definition next_id :: "'a arena \<Rightarrow> job_id option" where
  "next_id a =
     (case arena_free_head a of
        Some index \<Rightarrow>
          do { slot \<leftarrow> vec_index (arena_slots a) (unat index);
               (case slot of
                  Vacant g _ \<Rightarrow> Some (job_id_new index g)
                | Occupied _ _ \<Rightarrow> None) }
      | None \<Rightarrow>
          do { index \<leftarrow> expect_u32 (length (arena_slots a));
               Some (job_id_new index 0) })"

definition arena_insert :: "'a arena \<Rightarrow> 'a \<Rightarrow> ('a arena \<times> job_id) option" where
  "arena_insert a0 v =
     (let a = a0\<lparr>arena_len := arena_len a0 + 1\<rparr> in
      case arena_free_head a of
        Some index \<Rightarrow>
          do { slot \<leftarrow> vec_index (arena_slots a) (unat index);
               (case slot of
                  Vacant g nf \<Rightarrow>
                    Some (a\<lparr>arena_free_head := nf,
                           arena_slots := (arena_slots a)[unat index := Occupied g v]\<rparr>,
                          job_id_new index g)
                | Occupied _ _ \<Rightarrow> None) }
      | None \<Rightarrow>
          do { index \<leftarrow> expect_u32 (length (arena_slots a));
               Some (a\<lparr>arena_slots := arena_slots a @ [Occupied 0 v]\<rparr>, job_id_new index 0) })"

definition arena_get :: "'a arena \<Rightarrow> job_id \<Rightarrow> 'a option" where
  "arena_get a i =
     (case vec_get (arena_slots a) (unat (job_index i)) of
        None \<Rightarrow> None
      | Some (Occupied g v) \<Rightarrow> (if g = job_generation i then Some v else None)
      | Some (Vacant _ _) \<Rightarrow> None)"

definition arena_get_mut :: "'a arena \<Rightarrow> job_id \<Rightarrow> ('a \<times> ('a \<Rightarrow> 'a arena)) option" where
  "arena_get_mut a i =
     (case vec_get (arena_slots a) (unat (job_index i)) of
        None \<Rightarrow> None
      | Some (Occupied g v) \<Rightarrow>
          (if g = job_generation i
           then Some (v, \<lambda>v'. a\<lparr>arena_slots :=
                               (arena_slots a)[unat (job_index i) := Occupied g v']\<rparr>)
           else None)
      | Some (Vacant _ _) \<Rightarrow> None)"

definition arena_contains :: "'a arena \<Rightarrow> job_id \<Rightarrow> bool" where
  "arena_contains a i \<longleftrightarrow> arena_get a i \<noteq> None"

definition arena_remove :: "'a arena \<Rightarrow> job_id \<Rightarrow> 'a arena \<times> 'a option" where
  "arena_remove a i =
     (let index = job_index i; free_head = arena_free_head a in
      case vec_get (arena_slots a) (unat index) of
        None \<Rightarrow> (a, None)
      | Some (Vacant _ _) \<Rightarrow> (a, None)
      | Some (Occupied g v) \<Rightarrow>
          (if g \<noteq> job_generation i then (a, None)
           else (a\<lparr>arena_slots := (arena_slots a)[unat index := Vacant (g + 1) free_head],
                   arena_free_head := Some index,
                   arena_len := arena_len a - 1\<rparr>, Some v)))"

fun iter_slots :: "nat \<Rightarrow> 'a slot list \<Rightarrow> (job_id \<times> 'a) list option" where
  "iter_slots n [] = Some []"
| "iter_slots n (Occupied g v # ss) =
     do { index \<leftarrow> expect_u32 n;
          rest \<leftarrow> iter_slots (Suc n) ss;
          Some ((job_id_new index g, v) # rest) }"
| "iter_slots n (Vacant _ _ # ss) = iter_slots (Suc n) ss"

definition arena_iter :: "'a arena \<Rightarrow> (job_id \<times> 'a) list option" where
  "arena_iter a = iter_slots 0 (arena_slots a)"

fun is_vacant :: "'a slot \<Rightarrow> bool" where
  "is_vacant (Vacant _ _) = True"
| "is_vacant (Occupied _ _) = False"

text \<open>The \<open>while let\<close> walk of \<open>from_parts\<close>: \<open>Inr n\<close> is the number of links followed.\<close>

function walk_free_list ::
  "'a slot list \<Rightarrow> nat \<Rightarrow> u32 option \<Rightarrow> nat \<Rightarrow> arena_restore_error + nat" where
  "walk_free_list ss vacant cursor reachable =
     (case cursor of
        None \<Rightarrow> Inr reachable
      | Some index \<Rightarrow>
          (case vec_get ss (unat index) of
             Some (Vacant _ nf) \<Rightarrow>
               (if reachable < vacant then walk_free_list ss vacant nf (reachable + 1)
                else Inl (BadFreeLink index))
           | _ \<Rightarrow> Inl (BadFreeLink index)))"
  by pat_completeness auto
termination
  by (relation "measure (\<lambda>(_, vacant, _, reachable). vacant - reachable)") auto

declare walk_free_list.simps [simp del]

definition arena_from_parts ::
  "'a slot list \<Rightarrow> u32 option \<Rightarrow> arena_restore_error + 'a arena" where
  "arena_from_parts ss free_head =
     (let vacant = length (filter is_vacant ss) in
      case walk_free_list ss vacant free_head 0 of
        Inl e \<Rightarrow> Inl e
      | Inr reachable \<Rightarrow>
          (if reachable \<noteq> vacant then Inl (FreeListIncomplete reachable vacant)
           else Inr \<lparr>arena_slots = ss, arena_free_head = free_head,
                      arena_len = length ss - vacant\<rparr>))"

text \<open>Writing a value through \<open>get_mut\<close>, when the handle is live.\<close>

definition arena_put :: "'a arena \<Rightarrow> job_id \<Rightarrow> 'a \<Rightarrow> 'a arena" where
  "arena_put a i v = (case arena_get_mut a i of None \<Rightarrow> a | Some (_, write) \<Rightarrow> write v)"

section \<open>Packing and unpacking a handle\<close>

lemma INDEX_MASK_eq: "INDEX_MASK = mask 32"
  by (simp add: INDEX_MASK_def mask_eq_exp_minus_1)

lemma job_index_new [simp]: "job_index (job_id_new i g) = i"
  unfolding job_index_def job_id_new_def INDEX_MASK_eq
  by (rule bit_word_eqI) (simp add: bit_simps)

lemma job_generation_new [simp]: "job_generation (job_id_new i g) = g"
  unfolding job_generation_def job_id_new_def
  by (rule bit_word_eqI) (auto simp: bit_simps dest: bit_imp_le_length)

lemma job_id_new_collapse [simp]: "job_id_new (job_index i) (job_generation i) = i"
  unfolding job_index_def job_generation_def job_id_new_def INDEX_MASK_eq
  by (rule bit_word_eqI) (auto simp: bit_simps)

lemma job_id_eq_iff: "i = j \<longleftrightarrow> job_index i = job_index j \<and> job_generation i = job_generation j"
  by (metis job_id_new_collapse)


section \<open>The well-formed arena\<close>

text \<open>
  \<open>free_path ss h is\<close>: following the links from \<open>h\<close> visits exactly the slots \<open>is\<close>, each
  vacant, and then ends. The arena is well formed when the free list visits every vacant slot
  and the live count is the number of occupied slots. Indices are 32-bit, so there are at
  most \<open>2 ^ 32\<close> slots.
\<close>

fun free_path :: "'a slot list \<Rightarrow> u32 option \<Rightarrow> nat list \<Rightarrow> bool" where
  "free_path ss h [] \<longleftrightarrow> h = None"
| "free_path ss h (i # is) \<longleftrightarrow>
     (\<exists>w g nf. h = Some w \<and> unat w = i \<and> i < length ss \<and> ss ! i = Vacant g nf
        \<and> free_path ss nf is)"

definition vacant_indices :: "'a slot list \<Rightarrow> nat set" where
  "vacant_indices ss = {i. i < length ss \<and> is_vacant (ss ! i)}"

definition arena_wf :: "'a arena \<Rightarrow> bool" where
  "arena_wf a \<longleftrightarrow>
     (\<exists>fs. free_path (arena_slots a) (arena_free_head a) fs
        \<and> set fs = vacant_indices (arena_slots a))
     \<and> arena_len a = length (filter (\<lambda>s. \<not> is_vacant s) (arena_slots a))
     \<and> length (arena_slots a) \<le> 2 ^ 32"

definition arena_room :: "'a arena \<Rightarrow> bool" where
  "arena_room a \<longleftrightarrow> arena_free_head a \<noteq> None \<or> length (arena_slots a) < 2 ^ 32"

lemma is_vacant_iff: "is_vacant s \<longleftrightarrow> (\<exists>g nf. s = Vacant g nf)"
  by (cases s) auto

lemma free_path_unique: "free_path ss h fs \<Longrightarrow> free_path ss h fs' \<Longrightarrow> fs = fs'"
proof (induction fs arbitrary: h fs')
  case Nil
  then show ?case by (cases fs') auto
next
  case (Cons i fs)
  then show ?case by (cases fs') auto
qed

lemma free_path_append:
  "free_path ss h (xs @ y # ys) \<Longrightarrow> \<exists>w. unat w = y \<and> free_path ss (Some w) (y # ys)"
proof (induction xs arbitrary: h)
  case Nil
  then show ?case by force
next
  case (Cons x xs)
  then show ?case by auto
qed

lemma free_path_distinct: "free_path ss h fs \<Longrightarrow> distinct fs"
proof (rule ccontr)
  assume path: "free_path ss h fs" and "\<not> distinct fs"
  then obtain xs ys zs y where fs: "fs = xs @ [y] @ ys @ [y] @ zs"
    using not_distinct_decomp by blast
  from path fs obtain w where "unat w = y" "free_path ss (Some w) (y # ys @ y # zs)"
    using free_path_append [of ss h xs y "ys @ y # zs"] by auto
  moreover from path fs obtain w' where "unat w' = y" "free_path ss (Some w') (y # zs)"
    using free_path_append [of ss h "xs @ y # ys" y zs] by auto
  ultimately have "y # ys @ y # zs = y # zs"
    using free_path_unique [of ss "Some w"] by (metis unsigned_word_eqI)
  then show False by (auto dest: arg_cong [where f = length])
qed

lemma free_path_vacant: "free_path ss h fs \<Longrightarrow> set fs \<subseteq> vacant_indices ss"
  by (induction fs arbitrary: h) (auto simp: vacant_indices_def)

lemma free_path_update:
  "k \<notin> set fs \<Longrightarrow> free_path (ss[k := s]) h fs \<longleftrightarrow> free_path ss h fs"
  by (induction fs arbitrary: h) auto

lemma free_path_snoc: "free_path ss h fs \<Longrightarrow> free_path (ss @ [s]) h fs"
  by (induction fs arbitrary: h) (auto simp: nth_append)

lemma card_vacant_indices: "card (vacant_indices ss) = length (filter is_vacant ss)"
  by (simp add: vacant_indices_def length_filter_conv_card)

lemma finite_vacant_indices [simp]: "finite (vacant_indices ss)"
  by (simp add: vacant_indices_def)

lemma vacant_indices_update:
  "k < length ss \<Longrightarrow>
     vacant_indices (ss[k := s])
       = (if is_vacant s then insert k (vacant_indices ss) else vacant_indices ss - {k})"
  by (auto simp: vacant_indices_def nth_list_update split: if_splits)

lemma vacant_indices_snoc_occupied: "vacant_indices (ss @ [Occupied g v]) = vacant_indices ss"
  by (auto simp: vacant_indices_def nth_append less_Suc_eq)

lemma length_occupied_update:
  assumes "k < length ss"
  shows "length (filter (\<lambda>s. \<not> is_vacant s) (ss[k := s])) + (if is_vacant (ss ! k) then 0 else 1)
       = length (filter (\<lambda>s. \<not> is_vacant s) ss) + (if is_vacant s then 0 else 1)"
proof -
  obtain xs ys where ss: "ss = xs @ ss ! k # ys" and k: "length xs = k"
    using assms by (metis id_take_nth_drop length_take less_or_eq_imp_le min.absorb2)
  then have "ss[k := s] = xs @ s # ys"
    by (metis list_update_length)
  moreover have "filter (\<lambda>s. \<not> is_vacant s) ss
      = filter (\<lambda>s. \<not> is_vacant s) xs @ filter (\<lambda>s. \<not> is_vacant s) (ss ! k # ys)"
    by (metis ss filter_append)
  ultimately show ?thesis by simp
qed


section \<open>The operations keep the arena well formed\<close>

lemma arena_wf_new: "arena_wf arena_new"
  by (auto simp: arena_wf_def arena_new_def vacant_indices_def intro: exI [of _ "[]"])

lemma arena_get_alt:
  "arena_get a i = Some v \<longleftrightarrow>
     unat (job_index i) < length (arena_slots a)
     \<and> arena_slots a ! unat (job_index i) = Occupied (job_generation i) v"
  by (auto simp: arena_get_def vec_get_def split: slot.splits)

lemma arena_wf_head:
  assumes "arena_wf a" and "arena_free_head a = Some w"
  shows "\<exists>g nf. unat w < length (arena_slots a) \<and> arena_slots a ! unat w = Vacant g nf"
proof -
  from assms obtain fs where "free_path (arena_slots a) (Some w) fs"
    by (auto simp: arena_wf_def)
  then show ?thesis by (cases fs) auto
qed

text \<open>The two shapes an insert can take: reuse of the head of the free list, or growth.\<close>

lemma arena_insert_cases:
  assumes "arena_insert a v = Some (a', i)"
  obtains (reuse) w g nf where "arena_free_head a = Some w" "unat w < length (arena_slots a)"
      "arena_slots a ! unat w = Vacant g nf" "i = job_id_new w g"
      "a' = a\<lparr>arena_len := arena_len a + 1, arena_free_head := nf,
              arena_slots := (arena_slots a)[unat w := Occupied g v]\<rparr>"
  | (grow) "arena_free_head a = None" "length (arena_slots a) < 2 ^ 32"
      "i = job_id_new (word_of_nat (length (arena_slots a))) 0"
      "a' = a\<lparr>arena_len := arena_len a + 1, arena_slots := arena_slots a @ [Occupied 0 v]\<rparr>"
proof (cases "arena_free_head a")
  case None
  with assms show thesis
    by (intro grow) (auto simp: arena_insert_def expect_u32_def split: if_splits)
next
  case (Some w)
  with assms obtain g nf where "unat w < length (arena_slots a)"
    "arena_slots a ! unat w = Vacant g nf"
    by (auto simp: arena_insert_def Let_def vec_index_Some_iff split: slot.splits)
  with Some assms show thesis
    by (intro reuse [of w g nf]) (auto simp: arena_insert_def Let_def)
qed

lemma arena_insert_succeeds:
  assumes "arena_wf a" and "arena_room a"
  shows "\<exists>a' i. arena_insert a v = Some (a', i)"
proof (cases "arena_free_head a")
  case None
  with assms show ?thesis by (simp add: arena_insert_def arena_room_def expect_u32_def)
next
  case (Some w)
  with arena_wf_head [OF assms(1) Some] show ?thesis by (auto simp: arena_insert_def)
qed

lemma arena_insert_next_id:
  assumes "arena_insert a v = Some (a', i)"
  shows "next_id a = Some i"
  using assms
  by (cases rule: arena_insert_cases) (auto simp: next_id_def expect_u32_def)

lemma arena_insert_wf:
  assumes wf: "arena_wf a" and ins: "arena_insert a v = Some (a', i)"
  shows "arena_wf a'"
  using ins
proof (cases rule: arena_insert_cases)
  case (reuse w g nf)
  let ?k = "unat w" and ?ss = "arena_slots a"
  from wf reuse(1) obtain fs where path: "free_path ?ss (Some w) fs"
    and set: "set fs = vacant_indices ?ss" and len: "length ?ss \<le> 2 ^ 32"
    and n: "arena_len a = length (filter (\<lambda>s. \<not> is_vacant s) ?ss)"
    by (auto simp: arena_wf_def)
  from path obtain fs' where fs: "fs = ?k # fs'" by (cases fs) auto
  with path have "?k \<notin> set fs'" using free_path_distinct by fastforce
  moreover from path fs reuse(3) have "free_path ?ss nf fs'" by auto
  ultimately have "free_path (arena_slots a') (arena_free_head a') fs'"
    using reuse(5) by (simp add: free_path_update)
  moreover have "set fs' = vacant_indices (arena_slots a')"
    using set fs reuse(2,5) \<open>?k \<notin> set fs'\<close> by (auto simp: vacant_indices_update)
  moreover have "arena_len a' = length (filter (\<lambda>s. \<not> is_vacant s) (arena_slots a'))"
    using reuse(5) n length_occupied_update [OF reuse(2), of "Occupied g v"] reuse(3) by simp
  ultimately show ?thesis using len reuse(5) by (auto simp: arena_wf_def)
next
  case grow
  with wf show ?thesis
    by (auto simp: arena_wf_def vacant_indices_snoc_occupied intro: free_path_snoc)
qed

lemma arena_insert_get:
  assumes wf: "arena_wf a" and ins: "arena_insert a v = Some (a', i)"
  shows "arena_get a i = None" and "arena_get a' = (arena_get a)(i \<mapsto> v)"
proof -
  from ins have "arena_get a i = None \<and> arena_get a' j = ((arena_get a)(i \<mapsto> v)) j" for j
  proof (cases rule: arena_insert_cases)
    case (reuse w g nf)
    have k: "job_index j = w \<longleftrightarrow> unat (job_index j) = unat w"
      by (metis unsigned_word_eqI)
    show ?thesis
      using reuse k by (cases "job_index j = w")
        (auto simp: arena_get_def vec_get_def job_id_eq_iff [of j])
  next
    case grow
    let ?n = "length (arena_slots a)"
    have k: "job_index j = word_of_nat ?n \<longleftrightarrow> unat (job_index j) = ?n"
      using grow(2) by (metis unat_word_of_nat_u32 unsigned_word_eqI)
    show ?thesis
      using grow k by (cases "job_index j = word_of_nat ?n")
        (auto simp: arena_get_def vec_get_def nth_append job_id_eq_iff [of j])
  qed
  then show "arena_get a i = None" and "arena_get a' = (arena_get a)(i \<mapsto> v)" by auto
qed

lemma arena_get_mut_get:
  "arena_get_mut a i =
     (case arena_get a i of None \<Rightarrow> None
      | Some v \<Rightarrow> Some (v, \<lambda>v'. a\<lparr>arena_slots :=
          (arena_slots a)[unat (job_index i) := Occupied (job_generation i) v']\<rparr>))"
  by (auto simp: arena_get_mut_def arena_get_def vec_get_def split: slot.splits)

lemma arena_get_mut_put:
  "arena_get_mut a i = (case arena_get a i of None \<Rightarrow> None | Some v \<Rightarrow> Some (v, arena_put a i))"
  by (auto simp: arena_put_def arena_get_mut_get split: option.splits)

lemma arena_put_dead [simp]: "arena_get a i = None \<Longrightarrow> arena_put a i v = a"
  by (simp add: arena_put_def arena_get_mut_get)

lemma arena_put_live:
  "arena_get a i = Some u \<Longrightarrow> arena_put a i v =
     a\<lparr>arena_slots := (arena_slots a)[unat (job_index i) := Occupied (job_generation i) v]\<rparr>"
  by (simp add: arena_put_def arena_get_mut_get)

lemma arena_put_get:
  assumes "arena_get a i = Some u"
  shows "arena_get (arena_put a i v) = (arena_get a)(i \<mapsto> v)"
proof
  fix j
  have "job_index j = job_index i \<longleftrightarrow> unat (job_index j) = unat (job_index i)"
    by (metis unsigned_word_eqI)
  then show "arena_get (arena_put a i v) j = ((arena_get a)(i \<mapsto> v)) j"
    using assms by (cases "job_index j = job_index i")
      (auto simp: arena_put_live arena_get_def vec_get_def job_id_eq_iff [of j]
        split: slot.splits if_splits)
qed

lemma vacant_put:
  assumes "arena_get a i = Some u"
  shows "vacant_indices (arena_slots (arena_put a i v)) = vacant_indices (arena_slots a)"
    and "unat (job_index i) \<notin> vacant_indices (arena_slots a)"
  using assms by (auto simp: arena_put_live arena_get_alt vacant_indices_def nth_list_update)

lemma arena_put_wf:
  assumes wf: "arena_wf a"
  shows "arena_wf (arena_put a i v)"
proof (cases "arena_get a i")
  case None
  with wf show ?thesis by simp
next
  case (Some u)
  from wf obtain fs where "free_path (arena_slots a) (arena_free_head a) fs"
    and set: "set fs = vacant_indices (arena_slots a)" by (auto simp: arena_wf_def)
  with vacant_put(2) [OF Some]
  have "free_path (arena_slots (arena_put a i v)) (arena_free_head (arena_put a i v)) fs"
    by (simp add: arena_put_live [OF Some] free_path_update)
  moreover have "arena_len (arena_put a i v)
      = length (filter (\<lambda>s. \<not> is_vacant s) (arena_slots (arena_put a i v)))"
    using wf Some length_occupied_update [of "unat (job_index i)" "arena_slots a"
        "Occupied (job_generation i) v"]
    by (simp add: arena_put_live [OF Some] arena_wf_def arena_get_alt)
  ultimately show ?thesis
    using wf set vacant_put(1) [OF Some, of v] by (auto simp: arena_wf_def arena_put_live [OF Some])
qed


lemma arena_remove_live:
  assumes "arena_get a i = Some u"
  shows "arena_remove a i =
     (a\<lparr>arena_slots := (arena_slots a)[unat (job_index i) :=
            Vacant (job_generation i + 1) (arena_free_head a)],
        arena_free_head := Some (job_index i), arena_len := arena_len a - 1\<rparr>, Some u)"
  using assms by (auto simp: arena_get_alt arena_remove_def vec_get_def Let_def)

lemma arena_remove_dead [simp]: "arena_get a i = None \<Longrightarrow> arena_remove a i = (a, None)"
  by (auto simp: arena_get_def arena_remove_def Let_def vec_get_def split: slot.splits if_splits)

lemma arena_remove_result: "snd (arena_remove a i) = arena_get a i"
  by (cases "arena_get a i") (simp_all add: arena_remove_live)

lemma arena_remove_get: "arena_get (fst (arena_remove a i)) = (arena_get a)(i := None)"
proof (cases "arena_get a i")
  case None
  then show ?thesis by auto
next
  case (Some u)
  show ?thesis
  proof
    fix j
    have "job_index j = job_index i \<longleftrightarrow> unat (job_index j) = unat (job_index i)"
      by (metis unsigned_word_eqI)
    then show "arena_get (fst (arena_remove a i)) j = ((arena_get a)(i := None)) j"
      using Some by (cases "job_index j = job_index i")
        (auto simp: arena_remove_live [OF Some] arena_get_def vec_get_def job_id_eq_iff [of j]
          split: slot.splits if_splits)
  qed
qed

lemma arena_remove_wf:
  assumes wf: "arena_wf a"
  shows "arena_wf (fst (arena_remove a i))"
proof (cases "arena_get a i")
  case None
  with wf show ?thesis by simp
next
  case (Some u)
  let ?k = "unat (job_index i)" and ?a = "fst (arena_remove a i)"
  from wf obtain fs where path: "free_path (arena_slots a) (arena_free_head a) fs"
    and set: "set fs = vacant_indices (arena_slots a)" by (auto simp: arena_wf_def)
  from vacant_put(2) [OF Some] set have k: "?k \<notin> set fs" by simp
  from Some have lt: "?k < length (arena_slots a)" by (simp add: arena_get_alt)
  have "free_path (arena_slots ?a) (arena_free_head ?a) (?k # fs)"
    using path lt k by (simp add: arena_remove_live [OF Some] free_path_update)
  moreover have "set (?k # fs) = vacant_indices (arena_slots ?a)"
    using set lt by (simp add: arena_remove_live [OF Some] vacant_indices_update)
  moreover have "arena_len ?a = length (filter (\<lambda>s. \<not> is_vacant s) (arena_slots ?a))"
    using wf Some length_occupied_update [OF lt, of "Vacant (job_generation i + 1)
        (arena_free_head a)"]
    by (simp add: arena_remove_live [OF Some] arena_wf_def arena_get_alt)
  moreover have "length (arena_slots ?a) \<le> 2 ^ 32"
    using wf by (simp add: arena_wf_def arena_remove_live [OF Some])
  ultimately show ?thesis unfolding arena_wf_def by blast
qed

section \<open>The contract of a handle store\<close>

text \<open>
  What the scheduler relies on when it keeps its jobs behind handles: a store is a finite map
  from handles to values, an insert extends it at a handle that was dead, a write through a
  live handle changes exactly that handle, and a removal kills exactly that handle.
\<close>

locale handle_store =
  fixes get :: "'s \<Rightarrow> job_id \<Rightarrow> 'v option"
    and put :: "'s \<Rightarrow> job_id \<Rightarrow> 'v \<Rightarrow> 's"
    and ins :: "'s \<Rightarrow> 'v \<Rightarrow> ('s \<times> job_id) option"
    and rem :: "'s \<Rightarrow> job_id \<Rightarrow> 's \<times> 'v option"
    and wf :: "'s \<Rightarrow> bool"
    and room :: "'s \<Rightarrow> bool"
  assumes ins_succeeds: "wf s \<Longrightarrow> room s \<Longrightarrow> \<exists>s' i. ins s v = Some (s', i)"
    and ins_fresh: "wf s \<Longrightarrow> ins s v = Some (s', i) \<Longrightarrow> get s i = None"
    and ins_get: "wf s \<Longrightarrow> ins s v = Some (s', i) \<Longrightarrow> get s' = (get s)(i \<mapsto> v)"
    and ins_wf: "wf s \<Longrightarrow> ins s v = Some (s', i) \<Longrightarrow> wf s'"
    and put_get: "get s i = Some u \<Longrightarrow> get (put s i v) = (get s)(i \<mapsto> v)"
    and put_dead: "get s i = None \<Longrightarrow> put s i v = s"
    and put_wf: "wf s \<Longrightarrow> wf (put s i v)"
    and rem_result: "snd (rem s i) = get s i"
    and rem_get: "get (fst (rem s i)) = (get s)(i := None)"
    and rem_wf: "wf s \<Longrightarrow> wf (fst (rem s i))"
begin

lemma put_lookup:
  "get (put s i v) j = (if j = i \<and> get s i \<noteq> None then Some v else get s j)"
  by (cases "get s i") (auto simp: put_get put_dead)

lemma put_dom: "dom (get (put s i v)) = dom (get s)"
  by (auto simp: put_lookup split: if_splits)

lemma put_frame: "j \<noteq> i \<Longrightarrow> get (put s i v) j = get s j"
  by (simp add: put_lookup)

text \<open>A pass over a list of handles that rewrites each live one leaves the others alone.\<close>

lemma fold_put_frame:
  "j \<notin> set is \<Longrightarrow> get (fold (\<lambda>i s. put s i (f s i)) is s) j = get s j"
  by (induction "is" arbitrary: s) (auto simp: put_lookup)

lemma fold_put_dom: "dom (get (fold (\<lambda>i s. put s i (f s i)) is s)) = dom (get s)"
  by (induction "is" arbitrary: s) (simp_all add: put_dom)

lemma ins_frame:
  "wf s \<Longrightarrow> ins s v = Some (s', i) \<Longrightarrow> get s j = Some u \<Longrightarrow> get s' j = Some u"
  by (auto simp: ins_get ins_fresh dest: ins_fresh)

lemma ins_then_rem:
  "wf s \<Longrightarrow> ins s v = Some (s', i) \<Longrightarrow> snd (rem s' i) = Some v \<and> get (fst (rem s' i)) = get s"
  by (simp add: rem_result rem_get ins_get ins_fresh fun_upd_idem)

end

interpretation arena: handle_store arena_get arena_put arena_insert arena_remove arena_wf arena_room
  by unfold_locales
    (fact arena_insert_succeeds arena_insert_get arena_insert_wf arena_put_get arena_put_dead
      arena_put_wf arena_remove_result arena_remove_get arena_remove_wf)+

section \<open>Snapshots\<close>

lemma walk_free_list_path:
  "walk_free_list ss vacant h r = Inr n \<Longrightarrow> \<exists>fs. free_path ss h fs \<and> n = r + length fs"
proof (induction ss vacant h r rule: walk_free_list.induct)
  case (1 ss vacant h r)
  show ?case
  proof (cases h)
    case None
    with "1.prems" have "n = r" by (simp add: walk_free_list.simps [of ss vacant None r])
    with None show ?thesis by (intro exI [of _ "[]"]) simp
  next
    case (Some w)
    with "1.prems" obtain g nf where s: "vec_get ss (unat w) = Some (Vacant g nf)" "r < vacant"
      "walk_free_list ss vacant nf (r + 1) = Inr n"
      by (auto simp: walk_free_list.simps [of ss vacant "Some w" r]
          split: option.splits slot.splits if_splits)
    with "1.IH" [OF Some s(1) refl s(2)] obtain fs where "free_path ss nf fs" "n = r + 1 + length fs"
      by auto
    with Some s(1) show ?thesis by (intro exI [of _ "unat w # fs"]) auto
  qed
qed

lemma walk_free_list_complete:
  "free_path ss h fs \<Longrightarrow> r + length fs \<le> vacant \<Longrightarrow>
     walk_free_list ss vacant h r = Inr (r + length fs)"
proof (induction fs arbitrary: h r)
  case Nil
  then show ?case by (simp add: walk_free_list.simps)
next
  case (Cons i fs)
  then show ?case by (auto simp: walk_free_list.simps [of ss vacant h r] vec_get_def)
qed

lemma occupied_count: "length (filter (\<lambda>s. \<not> is_vacant s) ss) = length ss - length (filter is_vacant ss)"
  using sum_length_filter_compl [of is_vacant ss] by simp

lemma arena_from_parts_sound:
  assumes ok: "arena_from_parts ss h = Inr a" and len: "length ss \<le> 2 ^ 32"
  shows "arena_wf a \<and> arena_slots a = ss \<and> arena_free_head a = h"
proof -
  let ?vacant = "length (filter is_vacant ss)"
  from ok have walk: "walk_free_list ss ?vacant h 0 = Inr ?vacant"
    and a: "a = \<lparr>arena_slots = ss, arena_free_head = h, arena_len = length ss - ?vacant\<rparr>"
    by (auto simp: arena_from_parts_def Let_def split: sum.splits if_splits)
  from walk_free_list_path [OF walk] obtain fs where path: "free_path ss h fs"
    and n: "length fs = ?vacant" by auto
  have "set fs = vacant_indices ss"
  proof (rule card_subset_eq)
    show "card (set fs) = card (vacant_indices ss)"
      using n distinct_card [OF free_path_distinct [OF path]] by (simp add: card_vacant_indices)
  qed (use free_path_vacant [OF path] in auto)
  with path len a show ?thesis by (auto simp: arena_wf_def occupied_count)
qed

lemma arena_from_parts_complete:
  assumes "arena_wf a"
  shows "arena_from_parts (arena_slots a) (arena_free_head a) = Inr a"
proof -
  let ?ss = "arena_slots a"
  let ?vacant = "length (filter is_vacant ?ss)"
  from assms obtain fs where path: "free_path ?ss (arena_free_head a) fs"
    and set: "set fs = vacant_indices ?ss" by (auto simp: arena_wf_def)
  then have "length fs = ?vacant"
    by (metis card_vacant_indices distinct_card free_path_distinct)
  with walk_free_list_complete [OF path, of 0 ?vacant]
  have "walk_free_list ?ss ?vacant (arena_free_head a) 0 = Inr ?vacant" by simp
  moreover from assms have "arena_len a = length ?ss - ?vacant"
    by (simp add: arena_wf_def occupied_count)
  ultimately show ?thesis by (simp add: arena_from_parts_def)
qed


section \<open>Iteration visits exactly the live handles\<close>

lemma iter_slots_spec:
  assumes "n + length ss \<le> 2 ^ 32"
  shows "\<exists>xs. iter_slots n ss = Some xs
     \<and> (\<forall>i v. (i, v) \<in> set xs \<longleftrightarrow>
          (\<exists>k < length ss. ss ! k = Occupied (job_generation i) v \<and> unat (job_index i) = n + k))
     \<and> sorted_wrt (\<lambda>p q. unat (job_index (fst p)) < unat (job_index (fst q))) xs"
  using assms
proof (induction ss arbitrary: n)
  case Nil
  then show ?case by simp
next
  case (Cons s ss)
  from Cons.IH [of "Suc n"] Cons.prems obtain xs where xs: "iter_slots (Suc n) ss = Some xs"
    "\<forall>i v. (i, v) \<in> set xs \<longleftrightarrow>
       (\<exists>k < length ss. ss ! k = Occupied (job_generation i) v \<and> unat (job_index i) = Suc n + k)"
    "sorted_wrt (\<lambda>p q. unat (job_index (fst p)) < unat (job_index (fst q))) xs"
    by auto
  have n: "n < 2 ^ 32" using Cons.prems by simp
  have idx: "job_index i = word_of_nat n \<longleftrightarrow> unat (job_index i) = n" for i
    using n by (metis unat_word_of_nat_u32 unsigned_word_eqI)
  show ?case
  proof (cases s)
    case (Occupied g v)
    let ?ys = "(job_id_new (word_of_nat n) g, v) # xs"
    have "iter_slots n (s # ss) = Some ?ys"
      using Occupied xs(1) n by (simp add: expect_u32_def)
    moreover have "(i, u) \<in> set ?ys \<longleftrightarrow> (\<exists>k < length (s # ss).
        (s # ss) ! k = Occupied (job_generation i) u \<and> unat (job_index i) = n + k)" for i u
      using Occupied xs(2) idx [of i]
      by (auto simp: job_id_eq_iff [of i] less_Suc_eq_0_disj)
    moreover have "sorted_wrt (\<lambda>p q. unat (job_index (fst p)) < unat (job_index (fst q))) ?ys"
      using xs(2,3) n by auto
    ultimately show ?thesis by blast
  next
    case (Vacant g nf)
    with xs show ?thesis by (auto simp: less_Suc_eq_0_disj)
  qed
qed

lemma arena_iter_spec:
  assumes "arena_wf a"
  shows "\<exists>xs. arena_iter a = Some xs \<and> distinct (map fst xs)
     \<and> (\<forall>i v. (i, v) \<in> set xs \<longleftrightarrow> arena_get a i = Some v)"
proof -
  from assms have "0 + length (arena_slots a) \<le> 2 ^ 32" by (simp add: arena_wf_def)
  from iter_slots_spec [OF this] obtain xs where xs: "arena_iter a = Some xs"
    "\<forall>i v. (i, v) \<in> set xs \<longleftrightarrow> arena_get a i = Some v"
    "sorted_wrt (\<lambda>p q. unat (job_index (fst p)) < unat (job_index (fst q))) xs"
    by (auto simp: arena_iter_def arena_get_alt)
  from xs(3) have "distinct (map fst xs)"
    by (induction xs) auto
  with xs show ?thesis by blast
qed

section \<open>A handle that went stale stays stale\<close>

text \<open>
  A run of arena operations. The generation of a slot only moves when its occupant is removed,
  by one, so a removed handle can come back to life only after its slot has been removed
  \<open>2 ^ 32\<close> times.
\<close>

datatype 'a arena_op = Do_insert 'a | Do_remove job_id | Do_put job_id 'a

fun arena_step :: "'a arena \<Rightarrow> 'a arena_op \<Rightarrow> 'a arena option" where
  "arena_step a (Do_insert v) = map_option fst (arena_insert a v)"
| "arena_step a (Do_remove i) = Some (fst (arena_remove a i))"
| "arena_step a (Do_put i v) = Some (arena_put a i v)"

fun arena_run :: "'a arena \<Rightarrow> 'a arena_op list \<Rightarrow> 'a arena option" where
  "arena_run a [] = Some a"
| "arena_run a (x # xs) = do { a' \<leftarrow> arena_step a x; arena_run a' xs }"

fun removals :: "'a arena_op list \<Rightarrow> nat" where
  "removals [] = 0"
| "removals (Do_remove _ # xs) = Suc (removals xs)"
| "removals (_ # xs) = removals xs"

text \<open>The slot of \<open>i\<close> has been removed \<open>n\<close> times since \<open>i\<close> was issued.\<close>

definition aged :: "'a arena \<Rightarrow> job_id \<Rightarrow> nat \<Rightarrow> bool" where
  "aged a i n \<longleftrightarrow> unat (job_index i) < length (arena_slots a)
     \<and> generation (arena_slots a ! unat (job_index i)) = job_generation i + word_of_nat n"

lemma aged_stale:
  assumes "aged a i n" and "0 < n" and "n < 2 ^ 32"
  shows "arena_get a i = None"
proof (rule ccontr)
  assume "arena_get a i \<noteq> None"
  then obtain v where "arena_get a i = Some v" by blast
  with assms(1) have "word_of_nat n = (0 :: u32)"
    by (simp add: aged_def arena_get_alt)
  then have "unat (word_of_nat n :: u32) = 0" by simp
  with assms(2,3) show False by simp
qed

lemma aged_insert:
  assumes "aged a i n" and "arena_insert a v = Some (a', j)"
  shows "aged a' i n"
  using assms(2,1)
  by (cases rule: arena_insert_cases) (auto simp: aged_def nth_append nth_list_update)

lemma aged_put: "aged a i n \<Longrightarrow> aged (arena_put a j v) i n"
  by (cases "arena_get a j")
    (auto simp: aged_def arena_put_live arena_get_alt nth_list_update)

lemma aged_remove: "aged a i n \<Longrightarrow> \<exists>m. n \<le> m \<and> m \<le> Suc n \<and> aged (fst (arena_remove a j)) i m"
proof (cases "arena_get a j")
  case None
  then show "aged a i n \<Longrightarrow> ?thesis" by auto
next
  case (Some u)
  assume old: "aged a i n"
  show ?thesis
  proof (cases "unat (job_index j) = unat (job_index i)")
    case True
    with old Some have "aged (fst (arena_remove a j)) i (Suc n)"
      by (auto simp: aged_def arena_remove_live arena_get_alt ac_simps)
    then show ?thesis by (intro exI [of _ "Suc n"]) simp
  next
    case False
    with old Some have "aged (fst (arena_remove a j)) i n"
      by (auto simp: aged_def arena_remove_live)
    then show ?thesis by (intro exI [of _ n]) simp
  qed
qed

lemma aged_run:
  "aged a i n \<Longrightarrow> arena_run a xs = Some a' \<Longrightarrow> \<exists>m. n \<le> m \<and> m \<le> n + removals xs \<and> aged a' i m"
proof (induction xs arbitrary: a n)
  case Nil
  then show ?case by auto
next
  case (Cons x xs)
  show ?case
  proof (cases x)
    case (Do_insert v)
    with Cons show ?thesis by (auto dest: aged_insert)
  next
    case (Do_remove j)
    with Cons.prems obtain m where "n \<le> m" "m \<le> Suc n" "aged (fst (arena_remove a j)) i m"
      using aged_remove by blast
    moreover from Cons.prems Do_remove have "arena_run (fst (arena_remove a j)) xs = Some a'"
      by simp
    ultimately obtain m' where "m \<le> m'" "m' \<le> m + removals xs" "aged a' i m'"
      using Cons.IH by blast
    with \<open>n \<le> m\<close> \<open>m \<le> Suc n\<close> Do_remove show ?thesis by (intro exI [of _ m']) simp
  next
    case (Do_put j v)
    with Cons show ?thesis by (auto dest: aged_put)
  qed
qed

lemma aged_after_remove:
  assumes "arena_get a i = Some v"
  shows "aged (fst (arena_remove a i)) i 1"
  using assms by (simp add: aged_def arena_remove_live arena_get_alt)


section \<open>Properties\<close>

text \<open>
  C28. Inserting into a well-formed arena with room left never panics, returns the handle that
  \<open>next_id\<close> announced, which was dead, leaves the arena well formed, and as a map from
  handles to values adds exactly that handle.
\<close>

theorem arena_insert_refines:
  assumes "arena_wf a" and "arena_room a"
  shows "\<exists>a' i. arena_insert a v = Some (a', i) \<and> next_id a = Some i \<and> arena_get a i = None
     \<and> arena_wf a' \<and> arena_get a' = (arena_get a)(i \<mapsto> v) \<and> arena_len a' = arena_len a + 1"
proof -
  from arena.ins_succeeds [OF assms] obtain a' i where ins: "arena_insert a v = Some (a', i)"
    by blast
  moreover from ins have "arena_len a' = arena_len a + 1"
    by (cases rule: arena_insert_cases) auto
  ultimately show ?thesis
    using arena_insert_next_id [OF ins] arena.ins_fresh [OF assms(1) ins]
      arena.ins_get [OF assms(1) ins] arena.ins_wf [OF assms(1) ins]
    by (intro exI [of _ a'] exI [of _ i]) simp
qed

definition sample_arena :: "nat arena" where
  "sample_arena = \<lparr>arena_slots = [Vacant 4 None, Occupied 2 7], arena_free_head = Some 0,
     arena_len = 1\<rparr>"

lemma sample_arena_wf: "arena_wf sample_arena \<and> arena_room sample_arena"
proof -
  have "free_path (arena_slots sample_arena) (arena_free_head sample_arena) [0]"
    by (simp add: sample_arena_def)
  moreover have "vacant_indices (arena_slots sample_arena) = {0}"
    by (auto simp: vacant_indices_def sample_arena_def less_Suc_eq numeral_2_eq_2)
  ultimately have "\<exists>fs. free_path (arena_slots sample_arena) (arena_free_head sample_arena) fs
      \<and> set fs = vacant_indices (arena_slots sample_arena)"
    by (intro exI [of _ "[0]"]) simp
  moreover have "arena_len sample_arena
      = length (filter (\<lambda>s. \<not> is_vacant s) (arena_slots sample_arena))"
    and "length (arena_slots sample_arena) \<le> 2 ^ 32" and "arena_free_head sample_arena \<noteq> None"
    by (simp_all add: sample_arena_def)
  ultimately show ?thesis
    unfolding arena_wf_def arena_room_def by blast
qed

theorem arena_insert_refines_witness:
  "arena_wf sample_arena \<and> arena_room sample_arena
   \<and> (\<exists>a' i. arena_insert sample_arena 9 = Some (a', i) \<and> arena_get a' i = Some 9)"
  using arena_insert_refines [of sample_arena 9] sample_arena_wf by auto

text \<open>
  C27. Once a live handle has been removed, no sequence of inserts, writes and removals brings
  it back to life, as long as the sequence removes fewer than \<open>2 ^ 32 - 1\<close> handles: the handle
  stays dead until its slot's 32-bit generation has wrapped all the way round.
\<close>

theorem handle_never_revived:
  assumes "arena_get a i = Some v"
    and "arena_run (fst (arena_remove a i)) ops = Some a'"
    and "removals ops < 2 ^ 32 - 1"
  shows "arena_get a' i = None"
proof -
  from aged_run [OF aged_after_remove [OF assms(1)] assms(2)]
  obtain m where "1 \<le> m" "m \<le> 1 + removals ops" "aged a' i m" by auto
  with assms(3) show ?thesis by (intro aged_stale [of a' i m]) auto
qed

theorem handle_never_revived_witness:
  "arena_get sample_arena (job_id_new 1 2) = Some 7
   \<and> (\<exists>a'. arena_run (fst (arena_remove sample_arena (job_id_new 1 2)))
              [Do_insert 5, Do_insert 6, Do_remove (job_id_new 0 4)] = Some a'
        \<and> arena_get a' (job_id_new 1 2) = None)"
proof -
  let ?i = "job_id_new 1 2" and ?ops = "[Do_insert 5, Do_insert 6, Do_remove (job_id_new 0 4)]"
  have live: "arena_get sample_arena ?i = Some 7"
    by (simp add: arena_get_alt sample_arena_def)
  then obtain a' where run: "arena_run (fst (arena_remove sample_arena ?i)) ?ops = Some a'"
    by (simp add: arena_remove_live arena_insert_def sample_arena_def Let_def)
  have "arena_get a' ?i = None"
    by (rule handle_never_revived [OF live run]) simp
  with live run show ?thesis by blast
qed

text \<open>
  C29. \<open>from_parts\<close> accepts exactly the snapshots of well-formed arenas: what it accepts is a
  well-formed arena with the given slots and free list (so it issues the same handles as the
  original), and every well-formed arena is restored unchanged from its own parts.
\<close>

theorem arena_from_parts_exact:
  assumes "length ss \<le> 2 ^ 32"
  shows "arena_from_parts ss h = Inr a
     \<longleftrightarrow> arena_wf a \<and> arena_slots a = ss \<and> arena_free_head a = h"
  using arena_from_parts_sound [OF _ assms] arena_from_parts_complete by metis

theorem arena_from_parts_exact_witness:
  "arena_from_parts (arena_slots sample_arena) (Some 0) = Inr sample_arena"
  using arena_from_parts_exact [of "arena_slots sample_arena" "Some 0" sample_arena]
    sample_arena_wf by (simp add: sample_arena_def)

end
