(* ===== verification/Job_Model.thy ===== *)
theory Job_Model
  imports Resource_Vector Arena
begin

text \<open>
  The job record and its state machine (\<open>domain/job.rs\<close>). A payload is a list of bytes, the
  inline dependency vector a list of handles.
\<close>

section \<open>Data\<close>

type_synonym account_id = u32

datatype priority_class = Low | Normal | High | Urgent

definition class_ALL :: "priority_class list" where
  "class_ALL = [Low, Normal, High, Urgent]"

definition class_COUNT :: nat where
  "class_COUNT = 4"

fun ordinal :: "priority_class \<Rightarrow> u8" where
  "ordinal Low = 0"
| "ordinal Normal = 1"
| "ordinal High = 2"
| "ordinal Urgent = 3"

datatype job_state =
  Submitted | Blocked | Ready | Running | Completed | Failed | Preempted | Cancelled

definition state_ALL :: "job_state list" where
  "state_ALL = [Submitted, Blocked, Ready, Running, Completed, Failed, Preempted, Cancelled]"

datatype transition_error = TransitionError (err_from: job_state) (err_to: job_state)

record job =
  account :: account_id
  priority_class :: priority_class
  submit_time :: virtual_time
  request :: resources
  walltime_limit :: virtual_duration
  deps :: "job_id list"
  payload :: "u8 list"
  state :: job_state
  preemptions :: u8

section \<open>Operations\<close>

fun is_terminal :: "job_state \<Rightarrow> bool" where
  "is_terminal Completed = True"
| "is_terminal Failed = True"
| "is_terminal Cancelled = True"
| "is_terminal _ = False"

fun can_transition_to :: "job_state \<Rightarrow> job_state \<Rightarrow> bool" where
  "can_transition_to Submitted nxt \<longleftrightarrow> nxt = Blocked \<or> nxt = Ready \<or> nxt = Cancelled"
| "can_transition_to Blocked nxt \<longleftrightarrow> nxt = Ready \<or> nxt = Cancelled"
| "can_transition_to Ready nxt \<longleftrightarrow> nxt = Running \<or> nxt = Cancelled"
| "can_transition_to Running nxt \<longleftrightarrow>
     nxt = Completed \<or> nxt = Failed \<or> nxt = Preempted \<or> nxt = Cancelled"
| "can_transition_to Preempted nxt \<longleftrightarrow>
     nxt = Ready \<or> nxt = Completed \<or> nxt = Failed \<or> nxt = Cancelled"
| "can_transition_to _ nxt \<longleftrightarrow> False"

definition job_new ::
  "account_id \<Rightarrow> priority_class \<Rightarrow> virtual_time \<Rightarrow> resources \<Rightarrow> virtual_duration \<Rightarrow> job" where
  "job_new acct cls submitted req walltime =
     \<lparr>account = acct, priority_class = cls, submit_time = submitted, request = req,
      walltime_limit = walltime, deps = [], payload = [], state = Submitted, preemptions = 0\<rparr>"

definition try_transition :: "job \<Rightarrow> job_state \<Rightarrow> transition_error + job" where
  "try_transition j nxt =
     (if can_transition_to (state j) nxt then Inr (j\<lparr>state := nxt\<rparr>)
      else Inl (TransitionError (state j) nxt))"

section \<open>Classes are linearly ordered by their ordinal\<close>

instantiation priority_class :: linorder
begin

definition less_eq_priority_class :: "priority_class \<Rightarrow> priority_class \<Rightarrow> bool" where
  "less_eq_priority_class a b \<longleftrightarrow> ordinal a \<le> ordinal b"

definition less_priority_class :: "priority_class \<Rightarrow> priority_class \<Rightarrow> bool" where
  "less_priority_class a b \<longleftrightarrow> ordinal a < ordinal b"

instance
proof
  fix a b c :: priority_class
  show "(a < b) = (a \<le> b \<and> \<not> b \<le> a)" and "a \<le> a" and "a \<le> b \<or> b \<le> a"
    by (auto simp: less_eq_priority_class_def less_priority_class_def)
  show "a \<le> b \<Longrightarrow> b \<le> c \<Longrightarrow> a \<le> c" by (auto simp: less_eq_priority_class_def)
  show "a \<le> b \<Longrightarrow> b \<le> a \<Longrightarrow> a = b"
    by (cases a; cases b) (auto simp: less_eq_priority_class_def word_le_nat_alt)
qed

end

lemma ordinal_inj [simp]: "ordinal a = ordinal b \<longleftrightarrow> a = b"
  by (cases a; cases b) auto

lemma ordinal_lt_COUNT [simp]: "unat (ordinal c) < class_COUNT"
  by (cases c) (simp_all add: class_COUNT_def)

lemma unat_ordinal_inj [simp]: "unat (ordinal a) = unat (ordinal b) \<longleftrightarrow> a = b"
  by (cases a; cases b) auto

lemma class_ALL_nth [simp]: "class_ALL ! unat (ordinal c) = c"
  by (cases c) (simp_all add: class_ALL_def)

lemma set_class_ALL [simp]: "set class_ALL = UNIV"
  by (auto simp: class_ALL_def intro: priority_class.exhaust)

lemma set_state_ALL [simp]: "set state_ALL = UNIV"
  by (auto simp: state_ALL_def intro: job_state.exhaust)

section \<open>The state machine\<close>

lemma try_transition_Inr_iff:
  "try_transition j s = Inr j' \<longleftrightarrow> can_transition_to (state j) s \<and> j' = j\<lparr>state := s\<rparr>"
  by (auto simp: try_transition_def)

lemma terminal_stuck: "is_terminal s \<Longrightarrow> \<not> can_transition_to s t"
  by (cases s) auto

lemma nonterminal_cancellable: "\<not> is_terminal s \<Longrightarrow> can_transition_to s Cancelled"
  by (cases s) auto

lemma to_Running_iff [simp]: "can_transition_to s Running \<longleftrightarrow> s = Ready"
  by (cases s) auto

lemma to_Preempted_iff [simp]: "can_transition_to s Preempted \<longleftrightarrow> s = Running"
  by (cases s) auto

lemma to_Ready_iff [simp]:
  "can_transition_to s Ready \<longleftrightarrow> s = Submitted \<or> s = Blocked \<or> s = Preempted"
  by (cases s) auto

lemma to_Completed_iff [simp]: "can_transition_to s Completed \<longleftrightarrow> s = Running \<or> s = Preempted"
  by (cases s) auto

lemma to_Failed_iff [simp]: "can_transition_to s Failed \<longleftrightarrow> s = Running \<or> s = Preempted"
  by (cases s) auto

lemma to_Cancelled_iff [simp]: "can_transition_to s Cancelled \<longleftrightarrow> \<not> is_terminal s"
  by (cases s) auto

lemma to_Blocked_iff [simp]: "can_transition_to s Blocked \<longleftrightarrow> s = Submitted"
  by (cases s) auto

lemma to_Submitted_iff [simp]: "\<not> can_transition_to s Submitted"
  by (cases s) auto

text \<open>
  The history of one job: the sequence of states it has been through, newest first.
\<close>

inductive job_history :: "job_state list \<Rightarrow> bool" where
  born: "job_history [Submitted]"
| moves: "job_history (s # ss) \<Longrightarrow> can_transition_to s t \<Longrightarrow> job_history (t # s # ss)"

inductive_cases job_history_two: "job_history (t # s # ss)"

lemma job_history_Cons: "job_history (t # s # ss) \<Longrightarrow> can_transition_to s t \<and> job_history (s # ss)"
  by (auto elim: job_history_two)

lemma job_history_balance:
  assumes "job_history ss"
  shows "(\<forall>s\<in>set (tl ss). \<not> is_terminal s)
     \<and> count_list ss Running \<le> count_list ss Preempted + 1
     \<and> (\<not> is_terminal (hd ss) \<longrightarrow>
          count_list ss Running = count_list ss Preempted + (if hd ss = Running then 1 else 0))"
  using assms
proof induction
  case born
  then show ?case by simp
next
  case (moves s ss t)
  from moves.hyps(2) have s: "\<not> is_terminal s" using terminal_stuck by blast
  show ?case using moves.IH moves.hyps(2) s by (cases s; cases t) auto
qed

lemma terminal_iff_stuck: "is_terminal s \<longleftrightarrow> (\<forall>t. \<not> can_transition_to s t)"
  using to_Cancelled_iff [of s] terminal_stuck by blast

text \<open>A sequence of transition requests, stopping at the first refusal.\<close>

fun transitions :: "job \<Rightarrow> job_state list \<Rightarrow> transition_error + job" where
  "transitions j [] = Inr j"
| "transitions j (t # ts) =
     (case try_transition j t of Inl e \<Rightarrow> Inl e | Inr j' \<Rightarrow> transitions j' ts)"

lemma transitions_history:
  "job_history (state j # hs) \<Longrightarrow> transitions j ts = Inr j' \<Longrightarrow>
     job_history (rev ts @ state j # hs) \<and> j' = j\<lparr>state := last (state j # ts)\<rparr>"
proof (induction ts arbitrary: j hs)
  case Nil
  then show ?case by simp
next
  case (Cons t ts)
  from Cons.prems(2) have can: "can_transition_to (state j) t"
    and rest: "transitions (j\<lparr>state := t\<rparr>) ts = Inr j'"
    by (auto simp: try_transition_def split: if_splits)
  from Cons.prems(1) can have "job_history (state (j\<lparr>state := t\<rparr>) # state j # hs)"
    by (auto intro: job_history.moves)
  from Cons.IH [OF this rest] show ?case by auto
qed

section \<open>Properties\<close>

text \<open>
  C35. The life of a job. The terminal states are exactly the ones no edge of the diagram
  leaves. Of any sequence of transitions a submitted job accepts, only the last can be
  terminal, the job ends in the last one with nothing else of it changed, and it was never
  started again unless it was preempted since its last start.
\<close>

theorem job_lifecycle:
  assumes "state j = Submitted" and "transitions j ts = Inr j'"
  shows "j' = j\<lparr>state := last (Submitted # ts)\<rparr>
     \<and> (\<forall>u\<in>set (butlast ts). \<exists>t. can_transition_to u t)
     \<and> (is_terminal (state j') \<longleftrightarrow> (\<forall>t. \<not> can_transition_to (state j') t))
     \<and> count_list ts Running \<le> count_list ts Preempted + 1"
proof -
  from assms(1) have "job_history (state j # [])" by (auto intro: job_history.born)
  from transitions_history [OF this assms(2)] assms(1)
  have h: "job_history (rev ts @ [Submitted])" and j': "j' = j\<lparr>state := last (Submitted # ts)\<rparr>"
    by auto
  from job_history_balance [OF h] have "\<forall>s\<in>set (tl (rev ts @ [Submitted])). \<not> is_terminal s"
    and "count_list (rev ts @ [Submitted]) Running
      \<le> count_list (rev ts @ [Submitted]) Preempted + 1" by blast+
  moreover have "set (butlast ts) \<subseteq> set (tl (rev ts @ [Submitted]))"
    by (cases ts rule: rev_cases) auto
  ultimately have "\<forall>u\<in>set (butlast ts). \<exists>t. can_transition_to u t"
    and "count_list ts Running \<le> count_list ts Preempted + 1"
    using terminal_iff_stuck by (auto simp: subset_iff)
  with j' terminal_iff_stuck [of "state j'"] show ?thesis by blast
qed

theorem job_lifecycle_witness:
  "\<exists>j'. transitions (job_new 0 Low 0 ZERO 1) [Ready, Running, Preempted, Ready, Running, Completed]
          = Inr j' \<and> state j' = Completed"
proof -
  obtain j' where t: "transitions (job_new 0 Low 0 ZERO 1)
      [Ready, Running, Preempted, Ready, Running, Completed] = Inr j'"
    by (simp add: try_transition_def job_new_def)
  have "state (job_new 0 Low 0 ZERO 1) = Submitted" by (simp add: job_new_def)
  from job_lifecycle [OF this t] t show ?thesis by auto
qed

end
