(* ===== verification/Priority.thy ===== *)
theory Priority
  imports Job_Model
begin

text \<open>
  Multifactor priority (\<open>policy/priority.rs\<close>): the factor scaling, the weighted score and the
  order key by which the ready set sorts. All arithmetic is on 64-bit words and wraps.
\<close>

section \<open>Scores\<close>

type_synonym score = u64

definition FACTOR_SCALE :: u64 where
  "FACTOR_SCALE = 1000000"

record priority_weights =
  w_age :: u32
  w_qos :: u32
  w_fairshare :: u32
  w_size :: u32

definition weights_default :: priority_weights where
  "weights_default = \<lparr>w_age = 1000, w_qos = 1000, w_fairshare = 1000, w_size = 100\<rparr>"

record priority_config =
  weights :: priority_weights
  age_horizon :: virtual_duration
  largest_request :: resources

definition age_quantum :: "priority_config \<Rightarrow> virtual_duration" where
  "age_quantum config = age_horizon config div FACTOR_SCALE"

definition factor :: "u64 \<Rightarrow> u64 \<Rightarrow> u64" where
  "factor v mx =
     (if mx = 0 then 0
      else let clamped = (if v > mx then mx else v)
           in (clamped * FACTOR_SCALE) div mx)"

definition score :: "job \<Rightarrow> virtual_time \<Rightarrow> priority_config \<Rightarrow> u64 \<Rightarrow> score" where
  "score j now config fairshare_factor =
     (let age = saturating_sub_time now (submit_time j);
          age_factor = factor age (age_horizon config);
          qos_factor = factor (ucast (ordinal (priority_class j))) (word_of_nat (class_COUNT - 1));
          fairshare_factor = min fairshare_factor FACTOR_SCALE;
          size_factor = factor (ucast (cpu_millis (request j)))
                          (ucast (cpu_millis (largest_request config)))
      in age_factor * ucast (w_age (weights config))
         + qos_factor * ucast (w_qos (weights config))
         + fairshare_factor * ucast (w_fairshare (weights config))
         + size_factor * ucast (w_size (weights config)))"

section \<open>The order key\<close>

datatype order_key = OrderKey (key_score: score) (key_tiebreak: u64)

definition order_key_new :: "score \<Rightarrow> job_id \<Rightarrow> order_key" where
  "order_key_new sc jid = OrderKey sc jid"

definition key_job :: "order_key \<Rightarrow> job_id" where
  "key_job k = key_tiebreak k"

text \<open>The derived lexicographic order, with the tie-break reversed.\<close>

instantiation order_key :: linorder
begin

definition less_eq_order_key :: "order_key \<Rightarrow> order_key \<Rightarrow> bool" where
  "less_eq_order_key a b \<longleftrightarrow>
     key_score a < key_score b \<or> key_score a = key_score b \<and> key_tiebreak b \<le> key_tiebreak a"

definition less_order_key :: "order_key \<Rightarrow> order_key \<Rightarrow> bool" where
  "less_order_key a b \<longleftrightarrow>
     key_score a < key_score b \<or> key_score a = key_score b \<and> key_tiebreak b < key_tiebreak a"

instance
  by standard
    (auto simp: less_eq_order_key_def less_order_key_def intro: order_key.expand)

end

section \<open>Every factor is at most the scale\<close>

lemma unat_FACTOR_SCALE [simp]: "unat FACTOR_SCALE = 1000000"
  by (simp add: FACTOR_SCALE_def)

lemma unat_ucast_widen:
  assumes "LENGTH('a) \<le> LENGTH('b)"
  shows "unat (ucast (w :: 'a::len word) :: 'b::len word) = unat w"
proof -
  have "unat w < 2 ^ LENGTH('b)"
    using unat_lt [of w] power_increasing [OF assms, of "2 :: nat"] by linarith
  then show ?thesis by (simp only: unsigned_ucast_eq take_bit_eq_mod mod_less)
qed

lemma unat_ucast_u32 [simp]: "unat (ucast (w :: u32) :: u64) = unat w"
  by (rule unat_ucast_widen) simp

lemma unat_ucast_u8 [simp]: "unat (ucast (w :: u8) :: u64) = unat w"
  by (rule unat_ucast_widen) simp

lemma factor_le_scale: "unat (factor v mx) \<le> 1000000"
proof (cases "mx = 0")
  case False
  then have pos: "0 < unat mx" by (simp add: unat_gt_0)
  let ?c = "if v > mx then mx else v"
  have "unat ?c \<le> unat mx" by (auto simp: word_le_nat_alt word_less_nat_alt)
  then have "unat ?c * 1000000 \<le> unat mx * 1000000" by simp
  moreover have "unat (?c * FACTOR_SCALE) \<le> unat ?c * 1000000"
    by (simp only: unat_word_ariths(2) unat_FACTOR_SCALE mod_less_eq_dividend)
  ultimately have "unat (?c * FACTOR_SCALE) \<le> unat mx * 1000000" by linarith
  then have "unat (?c * FACTOR_SCALE) div unat mx \<le> unat mx * 1000000 div unat mx"
    by (rule div_le_mono)
  also have "\<dots> = 1000000" using pos by simp
  finally have "unat (?c * FACTOR_SCALE) div unat mx \<le> 1000000" .
  with False show ?thesis by (simp add: factor_def Let_def unat_div)
qed (simp add: factor_def)

lemma factor_exact:
  assumes "unat mx \<le> 2 ^ 64 div 1000000"
  shows "unat (factor v mx) = (if mx = 0 then 0 else min (unat v) (unat mx) * 1000000 div unat mx)"
proof -
  let ?c = "if v > mx then mx else v"
  have c: "unat ?c = min (unat v) (unat mx)" by (auto simp: word_less_nat_alt)
  with assms have "unat ?c * unat FACTOR_SCALE < 2 ^ LENGTH(64)" by simp
  then have "unat (?c * FACTOR_SCALE) = unat ?c * 1000000"
    using unat_mult_exact [of ?c FACTOR_SCALE] by simp
  with c show ?thesis by (simp add: factor_def Let_def unat_div)
qed

section \<open>The weighted sum does not overflow\<close>

definition age_factor :: "job \<Rightarrow> virtual_time \<Rightarrow> priority_config \<Rightarrow> u64" where
  "age_factor j now config = factor (saturating_sub_time now (submit_time j)) (age_horizon config)"

definition qos_factor :: "job \<Rightarrow> u64" where
  "qos_factor j = factor (ucast (ordinal (priority_class j))) 3"

definition size_factor :: "job \<Rightarrow> priority_config \<Rightarrow> u64" where
  "size_factor j config =
     factor (ucast (cpu_millis (request j))) (ucast (cpu_millis (largest_request config)))"

lemma score_split:
  "score j now config f =
     age_factor j now config * ucast (w_age (weights config))
     + qos_factor j * ucast (w_qos (weights config))
     + min f FACTOR_SCALE * ucast (w_fairshare (weights config))
     + size_factor j config * ucast (w_size (weights config))"
  by (simp add: score_def age_factor_def qos_factor_def size_factor_def class_COUNT_def Let_def)

lemma weighted_term:
  assumes "unat (x :: u64) \<le> 1000000"
  shows "unat (x * ucast (w :: u32)) = unat x * unat w \<and> unat x * unat w \<le> 1000000 * (2 ^ 32 - 1)"
proof -
  have "unat w \<le> 2 ^ 32 - 1" using unat_lt [of w] by simp
  with assms have le: "unat x * unat w \<le> 1000000 * (2 ^ 32 - 1)" by (rule mult_le_mono)
  then have "unat x * unat (ucast w :: u64) < 2 ^ LENGTH(64)" by simp
  from unat_mult_exact [OF this] le show ?thesis by simp
qed

lemma unat_add_4_exact:
  fixes a b c d :: u64
  assumes "unat a \<le> m" "unat b \<le> m" "unat c \<le> m" "unat d \<le> m" and "4 * m < 2 ^ 64"
  shows "unat (a + b + c + d) = unat a + unat b + unat c + unat d"
  using assms by (simp add: unat_add_exact)

lemma unat_score:
  "unat (score j now config f) =
     unat (age_factor j now config) * unat (w_age (weights config))
     + unat (qos_factor j) * unat (w_qos (weights config))
     + min (unat f) 1000000 * unat (w_fairshare (weights config))
     + unat (size_factor j config) * unat (w_size (weights config))"
  (is "?l = ?a + ?q + ?f + ?s")
proof -
  have m: "unat (min f FACTOR_SCALE) = min (unat f) 1000000"
    by (auto simp: min_def word_le_nat_alt)
  note terms = weighted_term [of "age_factor j now config" "w_age (weights config)"]
    weighted_term [of "qos_factor j" "w_qos (weights config)"]
    weighted_term [of "min f FACTOR_SCALE" "w_fairshare (weights config)"]
    weighted_term [of "size_factor j config" "w_size (weights config)"]
  have "?l = unat (age_factor j now config * ucast (w_age (weights config)))
     + unat (qos_factor j * ucast (w_qos (weights config)))
     + unat (min f FACTOR_SCALE * ucast (w_fairshare (weights config)))
     + unat (size_factor j config * ucast (w_size (weights config)))"
    unfolding score_split
    by (rule unat_add_4_exact [where m = "1000000 * (2 ^ 32 - 1)"])
      (use terms m factor_le_scale in
        \<open>simp_all add: age_factor_def qos_factor_def size_factor_def\<close>)
  then show ?thesis
    using terms m factor_le_scale by (simp add: age_factor_def qos_factor_def size_factor_def)
qed

lemma factor_mono:
  assumes "unat mx \<le> 2 ^ 64 div 1000000" and "v \<le> v'"
  shows "unat (factor v mx) \<le> unat (factor v' mx)"
  using assms(2) by (auto simp: factor_exact [OF assms(1)] word_le_nat_alt intro!: div_le_mono)

section \<open>Properties\<close>

definition sample_config :: priority_config where
  "sample_config = \<lparr>weights = weights_default, age_horizon = from_secs 3600,
     largest_request = \<lparr>cpu_millis = 4000, mem_bytes = 0, gpus = 0\<rparr>\<rparr>"

definition sample_job :: job where
  "sample_job = job_new 7 Normal 0 \<lparr>cpu_millis = 1000, mem_bytes = 64, gpus = 0\<rparr> (from_secs 60)"

text \<open>
  C36. No score wraps: on any job, time, configuration and fair-share value, the score is the sum
  of its four weighted factors computed without a bound, every factor is at most the scale,
  and the score is at most four times the scale times the largest weight.
\<close>

theorem score_never_wraps:
  "unat (score j now config f) =
     unat (age_factor j now config) * unat (w_age (weights config))
     + unat (qos_factor j) * unat (w_qos (weights config))
     + min (unat f) 1000000 * unat (w_fairshare (weights config))
     + unat (size_factor j config) * unat (w_size (weights config))
   \<and> unat (age_factor j now config) \<le> 1000000 \<and> unat (qos_factor j) \<le> 1000000
   \<and> unat (size_factor j config) \<le> 1000000
   \<and> unat (score j now config f) \<le> 4 * (1000000 * (2 ^ 32 - 1))"
proof -
  have w: "unat (x :: u32) \<le> 2 ^ 32 - 1" for x using unat_lt [of x] by simp
  have f: "unat (age_factor j now config) \<le> 1000000" "unat (qos_factor j) \<le> 1000000"
    "unat (size_factor j config) \<le> 1000000"
    by (simp_all add: age_factor_def qos_factor_def size_factor_def factor_le_scale)
  show ?thesis
    using f mult_le_mono [OF f(1) w [of "w_age (weights config)"]]
      mult_le_mono [OF f(2) w [of "w_qos (weights config)"]]
      mult_le_mono [OF f(3) w [of "w_size (weights config)"]]
      mult_le_mono [of "min (unat f) 1000000" 1000000, OF _ w [of "w_fairshare (weights config)"]]
    by (simp add: unat_score)
qed

text \<open>
  Waiting never costs priority, as long as the age horizon is at most
  \<open>2^64 div 10^6\<close> nanoseconds (a little over five hours): a later time gives at least the
  same score.
\<close>

theorem score_grows_with_age:
  assumes "unat (age_horizon config) \<le> 2 ^ 64 div 1000000" and "now \<le> later"
  shows "score j now config f \<le> score j later config f"
proof -
  have "saturating_sub_time now (submit_time j) \<le> saturating_sub_time later (submit_time j)"
    using assms(2) by (simp add: saturating_sub_time_def word_le_nat_alt unat_saturating_sub)
  from factor_mono [OF assms(1) this] show ?thesis
    by (simp add: word_le_nat_alt unat_score age_factor_def)
qed

theorem score_grows_with_age_witness:
  "score sample_job 1000 sample_config 0 \<le> score sample_job 900000000000 sample_config 0"
  by (rule score_grows_with_age)
    (simp_all add: sample_config_def from_secs_def word_le_nat_alt unat_saturating_mul)


end
