(* ===== verification/Max_Queue.thy ===== *)
theory Max_Queue
  imports Tasker_Prelude
begin

text \<open>
  The contract of a queue that hands out its highest-ranked entry first. The heap of one
  priority class and the ready set over all classes both provide it; draining a prefix is
  proved here once for any provider.
\<close>

locale max_queue =
  fixes pop :: "'q \<Rightarrow> ('q \<times> 'e option) option"
    and ok :: "'q \<Rightarrow> bool"
    and entries :: "'q \<Rightarrow> 'e set"
    and rank :: "'e \<Rightarrow> 'r::linorder"
  assumes finite_entries: "ok q \<Longrightarrow> finite (entries q)"
    and rank_inj: "rank a = rank b \<Longrightarrow> a = b"
    and pop_empty: "ok q \<Longrightarrow> entries q = {} \<Longrightarrow> pop q = Some (q, None)"
    and pop_top: "ok q \<Longrightarrow> entries q \<noteq> {} \<Longrightarrow>
      \<exists>q' e. pop q = Some (q', Some e) \<and> ok q' \<and> e \<in> entries q
        \<and> (\<forall>x\<in>entries q. rank x \<le> rank e) \<and> entries q' = entries q - {e}"
begin

primrec pops :: "nat \<Rightarrow> 'q \<Rightarrow> ('q \<times> 'e list) option" where
  "pops 0 q = Some (q, [])"
| "pops (Suc n) q =
     do { (q', r) \<leftarrow> pop q;
          case r of None \<Rightarrow> Some (q', [])
          | Some e \<Rightarrow> do { (q'', es) \<leftarrow> pops n q'; Some (q'', e # es) } }"

lemma pops_spec:
  assumes "ok q"
  shows "\<exists>q' es. pops n q = Some (q', es) \<and> ok q' \<and> length es = min n (card (entries q))
    \<and> sorted_wrt (\<lambda>a b. rank b < rank a) es \<and> set es \<subseteq> entries q
    \<and> entries q' = entries q - set es
    \<and> (\<forall>e\<in>set es. \<forall>x\<in>entries q'. rank x < rank e)"
  using assms
proof (induction n arbitrary: q)
  case (Suc n)
  show ?case
  proof (cases "entries q = {}")
    case True
    with pop_empty [OF Suc.prems] Suc.prems show ?thesis by simp
  next
    case False
    from pop_top [OF Suc.prems False] obtain q1 e where p: "pop q = Some (q1, Some e)" "ok q1"
      "e \<in> entries q" "\<forall>x\<in>entries q. rank x \<le> rank e" "entries q1 = entries q - {e}" by blast
    from Suc.IH [OF p(2)] obtain q' es where r: "pops n q1 = Some (q', es)" "ok q'"
      "length es = min n (card (entries q1))" "sorted_wrt (\<lambda>a b. rank b < rank a) es"
      "set es \<subseteq> entries q1" "entries q' = entries q1 - set es"
      "\<forall>x\<in>set es. \<forall>y\<in>entries q'. rank y < rank x" by blast
    have above: "rank x < rank e" if "x \<in> entries q1" for x
      using that p(4,5) rank_inj [of x e] by (force simp: order_less_le)
    have "card (entries q) = Suc (card (entries q1))"
      using p(3,5) finite_entries [OF Suc.prems] by (metis card_Suc_Diff1)
    then have "length (e # es) = min (Suc n) (card (entries q))" using r(3) by simp
    moreover have "pops (Suc n) q = Some (q', e # es)" using p(1) r(1) by simp
    moreover have "sorted_wrt (\<lambda>a b. rank b < rank a) (e # es)" using r(4,5) above by auto
    moreover have "entries q' = entries q - set (e # es)" using r(6) p(5) by auto
    moreover have "\<forall>x\<in>set (e # es). \<forall>y\<in>entries q'. rank y < rank x"
      using r(6,7) above by auto
    ultimately show ?thesis using r(2,5) p(3,5) by (intro exI [of _ q'] exI [of _ "e # es"]) auto
  qed
qed simp

end

text \<open>A queue whose entries have an identity, by which they are replaced and removed.\<close>

locale keyed_queue = max_queue pop ok entries rank
  for pop :: "'q \<Rightarrow> ('q \<times> 'e option) option"
    and ok :: "'q \<Rightarrow> bool"
    and entries :: "'q \<Rightarrow> 'e set"
    and rank :: "'e \<Rightarrow> 'r::linorder" +
  fixes ident :: "'e \<Rightarrow> 'k"
    and admits :: "'q \<Rightarrow> 'e \<Rightarrow> bool"
    and push :: "'q \<Rightarrow> 'e \<Rightarrow> 'q option"
    and remove :: "'q \<Rightarrow> 'k \<Rightarrow> ('q \<times> bool) option"
  assumes ident_inj: "ok q \<Longrightarrow> a \<in> entries q \<Longrightarrow> b \<in> entries q \<Longrightarrow> ident a = ident b \<Longrightarrow> a = b"
    and push_spec: "ok q \<Longrightarrow> admits q e \<Longrightarrow>
      \<exists>q'. push q e = Some q' \<and> ok q' \<and> entries q' = insert e {x \<in> entries q. ident x \<noteq> ident e}"
    and remove_spec: "ok q \<Longrightarrow>
      \<exists>q'. remove q k = Some (q', k \<in> ident ` entries q) \<and> ok q'
        \<and> entries q' = {x \<in> entries q. ident x \<noteq> k}"
begin

lemma push_then_remove:
  assumes "ok q" and "admits q e" and "ident e \<notin> ident ` entries q"
  shows "\<exists>q' q''. push q e = Some q' \<and> remove q' (ident e) = Some (q'', True)
    \<and> ok q'' \<and> entries q'' = entries q"
proof -
  from push_spec [OF assms(1,2)] obtain q' where q': "push q e = Some q'" "ok q'"
    "entries q' = insert e {x \<in> entries q. ident x \<noteq> ident e}" by blast
  from remove_spec [OF q'(2), of "ident e"] q'(3) obtain q'' where
    "remove q' (ident e) = Some (q'', True)" "ok q''"
    "entries q'' = {x \<in> entries q'. ident x \<noteq> ident e}" by auto
  moreover have "ident x \<noteq> ident e" if "x \<in> entries q" for x using assms(3) that by (metis image_eqI)
  with q'(3) have "{x \<in> entries q'. ident x \<noteq> ident e} = entries q" by auto
  ultimately show ?thesis using q'(1) by simp
qed

end

end
