(* ===== verification/Ready_Heap.thy ===== *)
theory Ready_Heap
  imports Priority Max_Queue
begin

text \<open>
  The indexed binary heap of the ready set (\<open>PriorityHeap\<close> of \<open>policy/ready_set.rs\<close>): scores
  and handles in parallel vectors, and a dense table from arena indices to heap positions.
\<close>

section \<open>State\<close>

definition ABSENT :: u32 where
  "ABSENT = - 1"

record priority_heap =
  ph_scores :: "score list"
  ph_ids :: "job_id list"
  ph_positions :: "u32 list"

section \<open>Operations\<close>

definition heap_new :: priority_heap where
  "heap_new = \<lparr>ph_scores = [], ph_ids = [], ph_positions = []\<rparr>"

definition heap_reserve_slots :: "priority_heap \<Rightarrow> nat \<Rightarrow> priority_heap" where
  "heap_reserve_slots h n =
     (if length (ph_positions h) < n
      then h\<lparr>ph_positions := vec_resize (ph_positions h) n ABSENT\<rparr> else h)"

definition heap_with_slots :: "nat \<Rightarrow> priority_heap" where
  "heap_with_slots n = heap_reserve_slots heap_new n"

definition heap_len :: "priority_heap \<Rightarrow> nat" where
  "heap_len h = length (ph_ids h)"

definition heap_is_empty :: "priority_heap \<Rightarrow> bool" where
  "heap_is_empty h \<longleftrightarrow> ph_ids h = []"

fun mark_absent :: "job_id list \<Rightarrow> u32 list \<Rightarrow> u32 list option" where
  "mark_absent [] ps = Some ps"
| "mark_absent (i # is) ps =
     do { ps' \<leftarrow> vec_set ps (unat (job_index i)) ABSENT; mark_absent is ps' }"

definition heap_clear :: "priority_heap \<Rightarrow> priority_heap option" where
  "heap_clear h =
     do { ps \<leftarrow> mark_absent (ph_ids h) (ph_positions h);
          Some (h\<lparr>ph_scores := [], ph_ids := [], ph_positions := ps\<rparr>) }"

definition slot_of :: "priority_heap \<Rightarrow> job_id \<Rightarrow> nat option" where
  "slot_of h j =
     (case vec_get (ph_positions h) (unat (job_index j)) of
        None \<Rightarrow> None
      | Some p \<Rightarrow>
          (if p = ABSENT then None
           else if vec_get (ph_ids h) (unat p) = Some j then Some (unat p) else None))"

definition heap_contains :: "priority_heap \<Rightarrow> job_id \<Rightarrow> bool" where
  "heap_contains h j \<longleftrightarrow> slot_of h j \<noteq> None"

definition key_at :: "priority_heap \<Rightarrow> nat \<Rightarrow> order_key option" where
  "key_at h p =
     do { s \<leftarrow> vec_index (ph_scores h) p; i \<leftarrow> vec_index (ph_ids h) p;
          Some (order_key_new s i) }"

definition set_position :: "u32 list \<Rightarrow> job_id list \<Rightarrow> nat \<Rightarrow> u32 list option" where
  "set_position ps is p =
     do { w \<leftarrow> expect_u32 p; i \<leftarrow> vec_index is p; vec_set ps (unat (job_index i)) w }"

definition heap_swap :: "priority_heap \<Rightarrow> nat \<Rightarrow> nat \<Rightarrow> priority_heap option" where
  "heap_swap h a b =
     do { ss \<leftarrow> vec_swap (ph_scores h) a b;
          is \<leftarrow> vec_swap (ph_ids h) a b;
          ps \<leftarrow> set_position (ph_positions h) is a;
          ps' \<leftarrow> set_position ps is b;
          Some (h\<lparr>ph_scores := ss, ph_ids := is, ph_positions := ps'\<rparr>) }"

function sift_up :: "priority_heap \<Rightarrow> nat \<Rightarrow> priority_heap option" where
  "sift_up h p =
     (if 0 < p then
        let parent = (p - 1) div 2 in
        do { k \<leftarrow> key_at h p; kp \<leftarrow> key_at h parent;
             if k > kp then do { h' \<leftarrow> heap_swap h p parent; sift_up h' parent }
             else Some h }
      else Some h)"
  by auto
termination
  by (relation "measure snd") auto

text \<open>The child chosen by one round of \<open>sift_down\<close>, or the position itself.\<close>

definition largest_of :: "priority_heap \<Rightarrow> nat \<Rightarrow> nat \<Rightarrow> nat option" where
  "largest_of h len p =
     do { l1 \<leftarrow> (if p * 2 + 1 < len then
                  do { k \<leftarrow> key_at h (p * 2 + 1); kl \<leftarrow> key_at h p;
                       Some (if k > kl then p * 2 + 1 else p) }
                else Some p);
          (if p * 2 + 2 < len then
             do { k \<leftarrow> key_at h (p * 2 + 2); kl \<leftarrow> key_at h l1;
                  Some (if k > kl then p * 2 + 2 else l1) }
           else Some l1) }"

lemma largest_of_cases:
  "largest_of h len p = Some m \<Longrightarrow> m = p \<or> m \<in> {p * 2 + 1, p * 2 + 2} \<and> m < len"
  by (auto simp: largest_of_def split: if_splits)

function sift_down_loop :: "nat \<Rightarrow> priority_heap \<Rightarrow> nat \<Rightarrow> priority_heap option" where
  "sift_down_loop len h p =
     do { m \<leftarrow> largest_of h len p;
          if m = p then Some h
          else do { h' \<leftarrow> heap_swap h p m; sift_down_loop len h' m } }"
  by auto
termination
  by (relation "measure (\<lambda>(len, h, p). len - p)") (auto dest!: largest_of_cases)

definition sift_down :: "priority_heap \<Rightarrow> nat \<Rightarrow> priority_heap option" where
  "sift_down h p = sift_down_loop (length (ph_ids h)) h p"

declare sift_up.simps [simp del] sift_down_loop.simps [simp del]

definition heap_update :: "priority_heap \<Rightarrow> job_id \<Rightarrow> score \<Rightarrow> (priority_heap \<times> bool) option" where
  "heap_update h j sc =
     (case slot_of h j of
        None \<Rightarrow> Some (h, False)
      | Some p \<Rightarrow>
          do { previous \<leftarrow> vec_index (ph_scores h) p;
               ss \<leftarrow> vec_set (ph_scores h) p sc;
               h' \<leftarrow> (if sc > previous then sift_up (h\<lparr>ph_scores := ss\<rparr>) p
                     else if sc < previous then sift_down (h\<lparr>ph_scores := ss\<rparr>) p
                     else Some (h\<lparr>ph_scores := ss\<rparr>));
               Some (h', True) })"

definition heap_push :: "priority_heap \<Rightarrow> job_id \<Rightarrow> score \<Rightarrow> priority_heap option" where
  "heap_push h j sc =
     do { (h, present) \<leftarrow> heap_update h j sc;
          if present then Some h
          else
            let h = heap_reserve_slots h (unat (job_index j) + 1);
                p = length (ph_ids h);
                h = h\<lparr>ph_scores := ph_scores h @ [sc], ph_ids := ph_ids h @ [j]\<rparr>
            in do { w \<leftarrow> expect_u32 p;
                    ps \<leftarrow> vec_set (ph_positions h) (unat (job_index j)) w;
                    sift_up (h\<lparr>ph_positions := ps\<rparr>) p } }"

definition peek_max :: "priority_heap \<Rightarrow> (job_id \<times> score) option option" where
  "peek_max h =
     (case vec_get (ph_ids h) 0 of
        None \<Rightarrow> Some None
      | Some j \<Rightarrow> do { sc \<leftarrow> vec_index (ph_scores h) 0; Some (Some (j, sc)) })"

definition remove_at :: "priority_heap \<Rightarrow> nat \<Rightarrow> priority_heap option" where
  "remove_at h p =
     (let last = length (ph_ids h) - 1 in
      do { i \<leftarrow> vec_index (ph_ids h) p;
           ps \<leftarrow> vec_set (ph_positions h) (unat (job_index i)) ABSENT;
           if p = last then
             Some (h\<lparr>ph_scores := butlast (ph_scores h), ph_ids := butlast (ph_ids h),
                     ph_positions := ps\<rparr>)
           else do {
             ss \<leftarrow> vec_swap (ph_scores h) p last;
             is \<leftarrow> vec_swap (ph_ids h) p last;
             ps' \<leftarrow> set_position ps (butlast is) p;
             h' \<leftarrow> sift_down (h\<lparr>ph_scores := butlast ss, ph_ids := butlast is,
                               ph_positions := ps'\<rparr>) p;
             sift_up h' p } })"

definition pop_max :: "priority_heap \<Rightarrow> (priority_heap \<times> (job_id \<times> score) option) option" where
  "pop_max h =
     (case vec_get (ph_ids h) 0 of
        None \<Rightarrow> Some (h, None)
      | Some j \<Rightarrow>
          do { sc \<leftarrow> vec_index (ph_scores h) 0; h' \<leftarrow> remove_at h 0; Some (h', Some (j, sc)) })"

definition heap_remove :: "priority_heap \<Rightarrow> job_id \<Rightarrow> (priority_heap \<times> bool) option" where
  "heap_remove h j =
     (case slot_of h j of
        None \<Rightarrow> Some (h, False)
      | Some p \<Rightarrow> do { h' \<leftarrow> remove_at h p; Some (h', True) })"

section \<open>The position table\<close>

abbreviation slot_ix :: "job_id \<Rightarrow> nat" where
  "slot_ix j \<equiv> unat (job_index j)"

definition table_ok :: "job_id list \<Rightarrow> u32 list \<Rightarrow> bool" where
  "table_ok is ps \<longleftrightarrow> length is < 2 ^ 32
     \<and> (\<forall>p < length is. slot_ix (is ! p) < length ps \<and> ps ! slot_ix (is ! p) = word_of_nat p)
     \<and> (\<forall>i < length ps. ps ! i \<noteq> ABSENT
          \<longrightarrow> unat (ps ! i) < length is \<and> slot_ix (is ! unat (ps ! i)) = i)"

lemma unat_ABSENT: "unat ABSENT = 2 ^ 32 - 1"
  by (simp add: ABSENT_def unat_minus_one_word_eq)

lemma position_not_ABSENT: "p < 2 ^ 32 - 1 \<Longrightarrow> (word_of_nat p :: u32) \<noteq> ABSENT"
proof
  assume "p < 2 ^ 32 - 1" and "(word_of_nat p :: u32) = ABSENT"
  then have "unat (word_of_nat p :: u32) = 2 ^ 32 - 1" using unat_ABSENT by simp
  with \<open>p < 2 ^ 32 - 1\<close> show False by simp
qed

lemma table_ok_position:
  assumes "table_ok is ps" and "p < length is"
  shows "slot_ix (is ! p) < length ps" and "ps ! slot_ix (is ! p) = word_of_nat p"
    and "ps ! slot_ix (is ! p) \<noteq> ABSENT" and "unat (ps ! slot_ix (is ! p)) = p"
  using assms position_not_ABSENT [of p] by (auto simp: table_ok_def)

lemma table_ok_inj:
  assumes "table_ok is ps" and "p < length is" "q < length is" and "slot_ix (is ! p) = slot_ix (is ! q)"
  shows "p = q"
  using assms table_ok_position(4) by metis

lemma table_ok_distinct: "table_ok is ps \<Longrightarrow> distinct (map slot_ix is)"
  by (auto simp: distinct_conv_nth dest: table_ok_inj)

lemma table_ok_absent:
  assumes "table_ok is ps" and "i < length ps"
  shows "ps ! i = ABSENT \<longleftrightarrow> (\<forall>j\<in>set is. slot_ix j \<noteq> i)"
proof
  show "\<forall>j\<in>set is. slot_ix j \<noteq> i" if "ps ! i = ABSENT"
    using that table_ok_position [OF assms(1)] by (auto simp: in_set_conv_nth)
  show "ps ! i = ABSENT" if "\<forall>j\<in>set is. slot_ix j \<noteq> i"
    using that assms nth_mem unfolding table_ok_def by blast
qed

lemma table_okI:
  assumes "length is < 2 ^ 32"
    and "\<And>p. p < length is \<Longrightarrow> slot_ix (is ! p) < length ps"
    and "\<And>p. p < length is \<Longrightarrow> ps ! slot_ix (is ! p) = word_of_nat p"
    and "\<And>i. i < length ps \<Longrightarrow> ps ! i \<noteq> ABSENT \<Longrightarrow> i \<in> slot_ix ` set is"
  shows "table_ok is ps"
  unfolding table_ok_def
proof (intro conjI allI impI)
  fix i assume i: "i < length ps" "ps ! i \<noteq> ABSENT"
  from assms(4) [OF i] obtain p where p: "p < length is" "i = slot_ix (is ! p)"
    by (auto simp: in_set_conv_nth)
  with assms(3) [OF p(1)] assms(1) have "unat (ps ! i) = p" by simp
  with p show "unat (ps ! i) < length is" "slot_ix (is ! unat (ps ! i)) = i" by auto
qed (use assms in auto)

lemma table_swap:
  assumes t: "table_ok is ps" and ab: "a < length is" "b < length is"
  defines "js \<equiv> is[a := is ! b, b := is ! a]"
  shows "\<exists>ps1 ps'. set_position ps js a = Some ps1 \<and> set_position ps1 js b = Some ps'
           \<and> table_ok js ps' \<and> length ps' = length ps"
proof -
  define ps' where "ps' = ps[slot_ix (js ! a) := word_of_nat a, slot_ix (js ! b) := word_of_nat b]"
  have len: "length js = length is" by (simp add: js_def)
  have js: "js ! a = is ! b" "js ! b = is ! a"
    using ab by (simp_all add: js_def nth_list_update)
  have lt: "length is < 2 ^ 32" using t by (simp add: table_ok_def)
  have ix: "slot_ix (js ! a) < length ps" "slot_ix (js ! b) < length ps"
    using js table_ok_position(1) [OF t] ab by simp_all
  have "set_position ps js a = Some (ps[slot_ix (js ! a) := word_of_nat a])"
    "set_position (ps[slot_ix (js ! a) := word_of_nat a]) js b = Some ps'"
    using ab lt ix by (simp_all add: set_position_def ps'_def len expect_u32_Some)
  moreover have "table_ok js ps'"
  proof (rule table_okI)
    fix p assume p: "p < length js"
    have other: "p \<noteq> a \<Longrightarrow> p \<noteq> b \<Longrightarrow> js ! p = is ! p" by (simp add: js_def)
    have ne: "p \<noteq> a \<Longrightarrow> p \<noteq> b \<Longrightarrow> slot_ix (is ! p) \<noteq> slot_ix (is ! a) \<and> slot_ix (is ! p) \<noteq> slot_ix (is ! b)"
      using table_ok_inj [OF t] p ab by (auto simp: len)
    have nab: "a \<noteq> b \<Longrightarrow> slot_ix (is ! a) \<noteq> slot_ix (is ! b)"
      using table_ok_inj [OF t] ab by auto
    show "slot_ix (js ! p) < length ps'"
      using p other js ix table_ok_position(1) [OF t, of p]
      by (cases "p = a"; cases "p = b") (auto simp: ps'_def len)
    show "ps' ! slot_ix (js ! p) = word_of_nat p"
      using p other js ix ne nab table_ok_position [OF t, of p]
      by (cases "p = a"; cases "p = b") (auto simp: ps'_def len nth_list_update)
  next
    fix i assume i: "i < length ps'" "ps' ! i \<noteq> ABSENT"
    have "set js = set is" unfolding js_def using ab by (metis mset_swap set_mset_mset)
    moreover have "i \<in> slot_ix ` set is"
    proof (cases "i = slot_ix (js ! a) \<or> i = slot_ix (js ! b)")
      case True
      with js ab show ?thesis by auto
    next
      case False
      with i have "ps ! i \<noteq> ABSENT" "i < length ps" by (auto simp: ps'_def)
      with table_ok_absent [OF t] show ?thesis by auto
    qed
    ultimately show "i \<in> slot_ix ` set js" by simp
  qed (use lt len in simp)
  ultimately show ?thesis by (auto simp: ps'_def)
qed

section \<open>Heap order\<close>

definition heap_keys :: "priority_heap \<Rightarrow> order_key list" where
  "heap_keys h = map2 order_key_new (ph_scores h) (ph_ids h)"

definition heap_rep :: "priority_heap \<Rightarrow> bool" where
  "heap_rep h \<longleftrightarrow> length (ph_scores h) = length (ph_ids h) \<and> table_ok (ph_ids h) (ph_positions h)"

definition parent :: "nat \<Rightarrow> nat" where
  "parent i = (i - 1) div 2"

definition heap_ordered :: "order_key list \<Rightarrow> bool" where
  "heap_ordered ks \<longleftrightarrow> (\<forall>i. 0 < i \<longrightarrow> i < length ks \<longrightarrow> ks ! i \<le> ks ! parent i)"

text \<open>Ordered except that position \<open>p\<close> may outrank its parent (while sifting up).\<close>

definition loose_up :: "order_key list \<Rightarrow> nat \<Rightarrow> bool" where
  "loose_up ks p \<longleftrightarrow>
     (\<forall>i. 0 < i \<longrightarrow> i < length ks \<longrightarrow> i \<noteq> p \<longrightarrow> ks ! i \<le> ks ! parent i)
     \<and> (\<forall>i. 0 < i \<longrightarrow> i < length ks \<longrightarrow> parent i = p \<longrightarrow> 0 < p \<longrightarrow> ks ! i \<le> ks ! parent p)"

text \<open>Ordered except that position \<open>p\<close> may be outranked by its children (while sifting down).\<close>

definition loose_down :: "order_key list \<Rightarrow> nat \<Rightarrow> bool" where
  "loose_down ks p \<longleftrightarrow>
     (\<forall>i. 0 < i \<longrightarrow> i < length ks \<longrightarrow> parent i \<noteq> p \<longrightarrow> ks ! i \<le> ks ! parent i)
     \<and> (\<forall>i. 0 < i \<longrightarrow> i < length ks \<longrightarrow> parent i = p \<longrightarrow> 0 < p \<longrightarrow> ks ! i \<le> ks ! parent p)"

definition children_le :: "order_key list \<Rightarrow> nat \<Rightarrow> order_key \<Rightarrow> bool" where
  "children_le ks p k \<longleftrightarrow> (\<forall>i. 0 < i \<longrightarrow> i < length ks \<longrightarrow> parent i = p \<longrightarrow> ks ! i \<le> k)"

lemma parent_less: "0 < i \<Longrightarrow> parent i < i"
  by (auto simp: parent_def)

lemma parent_eq_iff: "0 < i \<Longrightarrow> parent i = p \<longleftrightarrow> i = p * 2 + 1 \<or> i = p * 2 + 2"
  by (auto simp: parent_def)

lemma heap_ordered_loose:
  assumes "heap_ordered ks" shows "loose_up ks p" and "loose_down ks p"
proof -
  have "ks ! i \<le> ks ! parent p"
    if "0 < i" "i < length ks" "parent i = p" "0 < p" for i
    using assms that parent_less [of i] unfolding heap_ordered_def
    by (metis order.strict_trans order_trans)
  with assms show "loose_up ks p" "loose_down ks p"
    by (auto simp: heap_ordered_def loose_up_def loose_down_def)
qed

lemma loose_up_done:
  "loose_up ks p \<Longrightarrow> (0 < p \<Longrightarrow> p < length ks \<Longrightarrow> ks ! p \<le> ks ! parent p) \<Longrightarrow> heap_ordered ks"
  unfolding heap_ordered_def loose_up_def by metis

lemma loose_down_done:
  "loose_down ks p \<Longrightarrow> children_le ks p (ks ! p) \<Longrightarrow> heap_ordered ks"
  unfolding heap_ordered_def loose_down_def children_le_def by metis

lemma loose_up_swap:
  assumes "loose_up ks p" "0 < p" "p < length ks" "ks ! parent p < ks ! p"
  shows "loose_up (ks[p := ks ! parent p, parent p := ks ! p]) (parent p)" (is "loose_up ?ks ?q")
  unfolding loose_up_def
proof (intro conjI allI impI)
  have q: "?q < p" "?q < length ks" using assms(2,3) parent_less [of p] by auto
  have at: "?ks ! ?q = ks ! p" "?ks ! p = ks ! ?q" "\<And>i. i \<noteq> p \<Longrightarrow> i \<noteq> ?q \<Longrightarrow> ?ks ! i = ks ! i"
    using q assms(3) by (auto simp: nth_list_update)
  have up: "ks ! i \<le> ks ! parent i" if "0 < i" "i < length ks" "i \<noteq> p" for i
    using that assms(1) by (simp add: loose_up_def)
  have gp: "ks ! i \<le> ks ! ?q" if "0 < i" "i < length ks" "parent i = p" for i
    using that assms(1,2) by (simp add: loose_up_def)
  {
    fix i assume i: "0 < i" "i < length ?ks" "i \<noteq> ?q"
    then have ii: "i < length ks" by simp
    consider "i = p" | "i \<noteq> p" "parent i = p" | "i \<noteq> p" "parent i = ?q"
      | "i \<noteq> p" "parent i \<noteq> p" "parent i \<noteq> ?q" by blast
    then show "?ks ! i \<le> ?ks ! parent i"
    proof cases
      case 3
      with up [OF i(1) ii] assms(4) have "ks ! i \<le> ks ! p" by simp
      with 3 i at show ?thesis by simp
    qed (use i ii at up gp assms(4) in auto)
  }
  {
    fix i assume i: "0 < i" "i < length ?ks" "parent i = ?q" "0 < ?q"
    then have "parent ?q \<noteq> p" "parent ?q \<noteq> ?q" using parent_less [of ?q] q by auto
    then have r: "?ks ! parent ?q = ks ! parent ?q" by (rule at(3))
    have le: "ks ! ?q \<le> ks ! parent ?q" using up [of ?q] i q by auto
    have "i \<noteq> ?q" using i parent_less [of i] by auto
    show "?ks ! i \<le> ?ks ! parent ?q"
    proof (cases "i = p")
      case True
      with r at le show ?thesis by simp
    next
      case False
      with up [of i] i have "ks ! i \<le> ks ! ?q" by simp
      with False \<open>i \<noteq> ?q\<close> r at le show ?thesis by simp
    qed
  }
qed

lemma loose_down_swap:
  assumes "loose_down ks p" "c < length ks" "0 < c" "parent c = p" "ks ! p < ks ! c"
    and "children_le ks p (ks ! c)"
  shows "loose_down (ks[p := ks ! c, c := ks ! p]) c" (is "loose_down ?ks c")
  unfolding loose_down_def
proof (intro conjI allI impI)
  have q: "p < c" "p < length ks" using assms(2,3,4) parent_less [of c] by auto
  have at: "?ks ! c = ks ! p" "?ks ! p = ks ! c" "\<And>i. i \<noteq> p \<Longrightarrow> i \<noteq> c \<Longrightarrow> ?ks ! i = ks ! i"
    using q assms(2) by (auto simp: nth_list_update)
  have up: "ks ! i \<le> ks ! parent i" if "0 < i" "i < length ks" "parent i \<noteq> p" for i
    using that assms(1) by (simp add: loose_down_def)
  {
    fix i assume i: "0 < i" "i < length ?ks" "parent i \<noteq> c"
    then have ii: "i < length ks" by simp
    consider "i = c" | "i \<noteq> c" "parent i = p" | "i = p" | "i \<noteq> c" "parent i \<noteq> p" "i \<noteq> p" by blast
    then show "?ks ! i \<le> ?ks ! parent i"
    proof cases
      case 1
      then show ?thesis using at assms(4,5) by simp
    next
      case 2
      moreover have "i \<noteq> p" using 2 parent_less [OF i(1)] by auto
      ultimately show ?thesis using assms(6) i(1) ii at by (simp add: children_le_def)
    next
      case 3
      then have "ks ! c \<le> ks ! parent p" using assms(1-4) i by (simp add: loose_down_def)
      moreover have "parent p \<noteq> p" "parent p \<noteq> c" using 3 i parent_less [of p] by auto
      ultimately show ?thesis using 3 at by simp
    next
      case 4
      then show ?thesis using up i ii at by simp
    qed
  }
  {
    fix i assume i: "0 < i" "i < length ?ks" "parent i = c"
    then have "i \<noteq> c" "i \<noteq> p" using q parent_less [of i] by auto
    then have "?ks ! i = ks ! i" by (rule at(3) [rotated])
    moreover have "ks ! i \<le> ks ! c" using up [of i] i q by auto
    ultimately show "?ks ! i \<le> ?ks ! parent c" using at assms(4) by simp
  }
qed

section \<open>Sifting\<close>

lemma length_heap_keys [simp]: "heap_rep h \<Longrightarrow> length (heap_keys h) = length (ph_ids h)"
  by (simp add: heap_rep_def heap_keys_def)

lemma nth_heap_keys:
  "heap_rep h \<Longrightarrow> p < length (ph_ids h) \<Longrightarrow> heap_keys h ! p = order_key_new (ph_scores h ! p) (ph_ids h ! p)"
  by (simp add: heap_rep_def heap_keys_def)

lemma key_at_rep: "heap_rep h \<Longrightarrow> p < length (ph_ids h) \<Longrightarrow> key_at h p = Some (heap_keys h ! p)"
  by (simp add: key_at_def nth_heap_keys) (simp add: heap_rep_def)

lemma map2_update: "map2 f (xs[i := x]) (ys[i := y]) = (map2 f xs ys)[i := f x y]"
proof (induction xs arbitrary: ys i)
  case (Cons a xs)
  then show ?case by (cases ys; cases i) auto
qed simp

lemma heap_swap_rep:
  assumes "heap_rep h" and "a < length (ph_ids h)" "b < length (ph_ids h)"
  shows "\<exists>h'. heap_swap h a b = Some h' \<and> heap_rep h' \<and> length (ph_ids h') = length (ph_ids h)
    \<and> heap_keys h' = (heap_keys h)[a := heap_keys h ! b, b := heap_keys h ! a]"
proof -
  from table_swap [OF _ assms(2,3), of "ph_positions h"] assms(1)
  obtain ps1 ps' where
    "set_position (ph_positions h) ((ph_ids h)[a := ph_ids h ! b, b := ph_ids h ! a]) a = Some ps1"
    "set_position ps1 ((ph_ids h)[a := ph_ids h ! b, b := ph_ids h ! a]) b = Some ps'"
    "table_ok ((ph_ids h)[a := ph_ids h ! b, b := ph_ids h ! a]) ps'"
    by (auto simp: heap_rep_def)
  with assms show ?thesis
    by (simp add: heap_swap_def nth_heap_keys) (simp add: heap_rep_def heap_keys_def map2_update)
qed

lemma sift_up_parent:
  "sift_up h p =
     (if 0 < p then
        do { k \<leftarrow> key_at h p; kp \<leftarrow> key_at h (parent p);
             if k > kp then do { h' \<leftarrow> heap_swap h p (parent p); sift_up h' (parent p) }
             else Some h }
      else Some h)"
  by (subst sift_up.simps) (simp only: parent_def Let_def)

lemma sift_up_rep:
  assumes "heap_rep h" and "p < length (ph_ids h)"
  shows "\<exists>h'. sift_up h p = Some h' \<and> heap_rep h' \<and> mset (heap_keys h') = mset (heap_keys h)
    \<and> (loose_up (heap_keys h) p \<longrightarrow> heap_ordered (heap_keys h'))
    \<and> (heap_ordered (heap_keys h) \<longrightarrow> h' = h)"
  using assms
proof (induction h p rule: sift_up.induct)
  case (1 h p)
  let ?ks = "heap_keys h" and ?q = "parent p"
  note rep = "1.prems"
  show ?case
  proof (cases "0 < p \<and> ?ks ! ?q < ?ks ! p")
    case False
    then have "sift_up h p = Some h"
      using rep key_at_rep [OF rep(1)] parent_less [of p]
      by (subst sift_up_parent) auto
    moreover have "loose_up ?ks p \<longrightarrow> heap_ordered ?ks"
      using False by (auto simp: not_less intro: loose_up_done)
    ultimately show ?thesis using rep by simp
  next
    case True
    then have q: "?q < length (ph_ids h)" using rep parent_less [of p] by simp
    from heap_swap_rep [OF rep(1) rep(2) q] obtain h1 where h1:
      "heap_swap h p ?q = Some h1" "heap_rep h1" "length (ph_ids h1) = length (ph_ids h)"
      "heap_keys h1 = ?ks[p := ?ks ! ?q, ?q := ?ks ! p]" by auto
    have step: "sift_up h p = sift_up h1 ?q"
      using True rep q key_at_rep [OF rep(1)] h1(1)
      by (subst sift_up_parent) simp
    have "\<exists>h'. sift_up h1 ?q = Some h' \<and> heap_rep h' \<and> mset (heap_keys h') = mset (heap_keys h1)
      \<and> (loose_up (heap_keys h1) ?q \<longrightarrow> heap_ordered (heap_keys h'))
      \<and> (heap_ordered (heap_keys h1) \<longrightarrow> h' = h1)"
      using "1.IH" [of ?q "?ks ! p" "?ks ! ?q" h1] True rep q h1 key_at_rep [OF rep(1)]
      by (simp add: parent_def)
    moreover have "mset (heap_keys h1) = mset ?ks"
      using h1(4) rep q by (simp add: mset_swap)
    moreover have "loose_up ?ks p \<longrightarrow> loose_up (heap_keys h1) ?q"
      using True rep h1(4) by (simp add: loose_up_swap)
    moreover have "\<not> heap_ordered ?ks"
      using True rep by (auto simp: heap_ordered_def not_le)
    ultimately show ?thesis using step by auto
  qed
qed

lemma largest_of_rep:
  assumes "heap_rep h" and "p < length (ph_ids h)"
  defines "ks \<equiv> heap_keys h"
  obtains (stay) "largest_of h (length (ph_ids h)) p = Some p"
      "children_le ks p (ks ! p)"
  | (go) m where "largest_of h (length (ph_ids h)) p = Some m" "m \<noteq> p" "0 < m" "parent m = p"
      "m < length (ph_ids h)" "ks ! p < ks ! m"
      "children_le ks p (ks ! m)"
proof -
  let ?n = "length (ph_ids h)" and ?l = "p * 2 + 1" and ?r = "p * 2 + 2"
  define l1 where "l1 = (if ?l < ?n \<and> ks ! p < ks ! ?l then ?l else p)"
  define m where "m = (if ?r < ?n \<and> ks ! l1 < ks ! ?r then ?r else l1)"
  have l1n: "l1 < ?n" using assms(2) by (simp add: l1_def)
  have lg: "largest_of h ?n p = Some m"
    using assms(1,2) l1n key_at_rep [OF assms(1)]
    by (auto simp: largest_of_def l1_def m_def ks_def simp del: One_nat_def split: if_splits)
  have max: "children_le ks p (ks ! m)"
    unfolding children_le_def
  proof (intro allI impI)
    fix i assume i: "0 < i" "i < length ks" "parent i = p"
    with parent_eq_iff [of i p] have "i = ?l \<or> i = ?r" by blast
    with i assms(1) show "ks ! i \<le> ks ! m" by (auto simp: m_def l1_def ks_def)
  qed
  show thesis
  proof (cases "m = p")
    case True
    with lg max show ?thesis by (intro stay) auto
  next
    case False
    then have "ks ! p < ks ! m" "m = ?l \<or> m = ?r" "m < ?n"
      by (auto simp: m_def l1_def split: if_splits)
    with lg max False show ?thesis by (intro go [of m]) (auto simp: parent_def)
  qed
qed

lemma sift_down_loop_rep:
  assumes "heap_rep h" and "p < length (ph_ids h)" and "len = length (ph_ids h)"
  shows "\<exists>h'. sift_down_loop len h p = Some h' \<and> heap_rep h'
    \<and> mset (heap_keys h') = mset (heap_keys h)
    \<and> (loose_down (heap_keys h) p \<longrightarrow> heap_ordered (heap_keys h'))
    \<and> (children_le (heap_keys h) p (heap_keys h ! p) \<longrightarrow> h' = h)"
  using assms
proof (induction len h p rule: sift_down_loop.induct)
  case (1 len h p)
  let ?ks = "heap_keys h"
  note rep = "1.prems"
  from rep(1,2) show ?case
  proof (cases rule: largest_of_rep)
    case stay
    then have "sift_down_loop len h p = Some h" using rep by (subst sift_down_loop.simps) simp
    moreover have "loose_down ?ks p \<longrightarrow> heap_ordered ?ks"
      using loose_down_done [OF _ stay(2)] by simp
    ultimately show ?thesis using rep by simp
  next
    case (go m)
    from heap_swap_rep [OF rep(1) rep(2) go(5)] obtain h1 where h1:
      "heap_swap h p m = Some h1" "heap_rep h1" "length (ph_ids h1) = length (ph_ids h)"
      "heap_keys h1 = ?ks[p := ?ks ! m, m := ?ks ! p]" by auto
    have step: "sift_down_loop len h p = sift_down_loop len h1 m"
      using go(1,2) h1(1) rep(3) by (subst sift_down_loop.simps) simp
    obtain h' where "sift_down_loop len h1 m = Some h'" "heap_rep h'"
      "mset (heap_keys h') = mset (heap_keys h1)"
      "loose_down (heap_keys h1) m \<longrightarrow> heap_ordered (heap_keys h')"
      using "1.IH" [OF go(1) [folded rep(3)] go(2) h1(1) h1(2)] go(5) h1(3) rep(3) by auto
    moreover have "mset (heap_keys h1) = mset ?ks" using h1(4) rep go(5) by (simp add: mset_swap)
    moreover have "loose_down ?ks p \<longrightarrow> loose_down (heap_keys h1) m"
      unfolding h1(4) using loose_down_swap [OF _ _ go(3,4,6,7)] go(5) rep(1) by simp
    moreover have "\<not> children_le ?ks p (?ks ! p)"
      using go(3-6) rep(1) by (auto simp: children_le_def not_le)
    ultimately show ?thesis using step by (intro exI [of _ h'] conjI) auto
  qed
qed

lemma sift_down_rep:
  assumes "heap_rep h" and "p < length (ph_ids h)"
  shows "\<exists>h'. sift_down h p = Some h' \<and> heap_rep h'
    \<and> mset (heap_keys h') = mset (heap_keys h)
    \<and> (loose_down (heap_keys h) p \<longrightarrow> heap_ordered (heap_keys h'))
    \<and> (children_le (heap_keys h) p (heap_keys h ! p) \<longrightarrow> h' = h)"
  unfolding sift_down_def using sift_down_loop_rep [OF assms refl] .

section \<open>Replacing one key\<close>

lemma heap_replace_up:
  assumes "heap_ordered ks" and "p < length ks" and "ks ! p \<le> x"
  shows "loose_up (ks[p := x]) p" and "children_le (ks[p := x]) p x"
proof -
  have ge: "0 < i \<Longrightarrow> i < length ks \<Longrightarrow> parent i = p \<Longrightarrow> ks ! i \<le> ks ! p" for i
    using assms(1) by (auto simp: heap_ordered_def)
  have ne: "0 < i \<Longrightarrow> parent i = p \<Longrightarrow> i \<noteq> p" for i using parent_less [of i] by auto
  show "children_le (ks[p := x]) p x"
    unfolding children_le_def
  proof (intro allI impI)
    fix i assume i: "0 < i" "i < length (ks[p := x])" "parent i = p"
    with ge [of i] have "ks ! i \<le> ks ! p" by simp
    with ne [OF i(1,3)] assms(3) show "ks[p := x] ! i \<le> x" by simp
  qed
  have gp: "ks ! p \<le> ks ! parent p" if "0 < p" using assms(1,2) that by (simp add: heap_ordered_def)
  have "parent p \<noteq> p" if "0 < p" using parent_less [OF that] by simp
  then show "loose_up (ks[p := x]) p"
    unfolding loose_up_def
    using assms ge ne gp by (auto simp: nth_list_update heap_ordered_def intro: order_trans)
qed

lemma heap_replace_down:
  assumes "heap_ordered ks" and "p < length ks" and "x \<le> ks ! p"
  shows "loose_down (ks[p := x]) p"
proof -
  have ge: "0 < i \<Longrightarrow> i < length ks \<Longrightarrow> parent i = p \<Longrightarrow> ks ! i \<le> ks ! p" for i
    using assms(1) by (auto simp: heap_ordered_def)
  have ne: "0 < i \<Longrightarrow> parent i = p \<Longrightarrow> i \<noteq> p" for i using parent_less [of i] by auto
  have gp: "ks ! p \<le> ks ! parent p" if "0 < p" using assms(1,2) that by (simp add: heap_ordered_def)
  have "parent p \<noteq> p" if "0 < p" using parent_less [OF that] by simp
  then show ?thesis
    unfolding loose_down_def
    using assms ge ne gp by (auto simp: nth_list_update heap_ordered_def intro: order_trans)
qed

lemma heap_append_loose:
  assumes "heap_ordered ks"
  shows "loose_up (ks @ [x]) (length ks)"
  unfolding loose_up_def
proof (intro conjI allI impI)
  fix i assume i: "0 < i" "i < length (ks @ [x])"
  then have p: "parent i < length ks" using parent_less [of i] by simp
  {
    assume "i \<noteq> length ks"
    with i have "i < length ks" by simp
    with i p assms show "(ks @ [x]) ! i \<le> (ks @ [x]) ! parent i"
      by (simp add: heap_ordered_def nth_append)
  }
  assume "parent i = length ks"
  with p show "(ks @ [x]) ! i \<le> (ks @ [x]) ! parent (length ks)" by simp
qed

lemma heap_ordered_butlast:
  assumes "heap_ordered ks"
  shows "heap_ordered (butlast ks)"
  unfolding heap_ordered_def
proof (intro allI impI)
  fix i assume i: "0 < i" "i < length (butlast ks)"
  with parent_less [of i] have "parent i < length (butlast ks)" by simp
  with i assms show "butlast ks ! i \<le> butlast ks ! parent i"
    by (simp add: nth_butlast heap_ordered_def)
qed

lemma heap_root_max:
  assumes "heap_ordered ks" and "i < length ks"
  shows "ks ! i \<le> ks ! 0"
  using assms(2)
proof (induction i rule: less_induct)
  case (less i)
  show ?case
  proof (cases "i = 0")
    case False
    with less parent_less [of i] have "ks ! parent i \<le> ks ! 0" by simp
    moreover have "ks ! i \<le> ks ! parent i" using False less assms(1) by (simp add: heap_ordered_def)
    ultimately show ?thesis by simp
  qed simp
qed

section \<open>The contents of a heap\<close>

definition heap_inv :: "priority_heap \<Rightarrow> bool" where
  "heap_inv h \<longleftrightarrow> heap_rep h \<and> heap_ordered (heap_keys h)"

definition heap_entries :: "priority_heap \<Rightarrow> order_key set" where
  "heap_entries h = set (heap_keys h)"

lemma map_key_job_keys: "heap_rep h \<Longrightarrow> map key_job (heap_keys h) = ph_ids h"
  by (rule nth_equalityI) (auto simp: nth_heap_keys key_job_def order_key_new_def)

lemma heap_jobs: "heap_rep h \<Longrightarrow> key_job ` heap_entries h = set (ph_ids h)"
  unfolding heap_entries_def using map_key_job_keys by (metis list.set_map)

lemma heap_distinct: "heap_rep h \<Longrightarrow> distinct (map (slot_ix \<circ> key_job) (heap_keys h))"
  using table_ok_distinct map_key_job_keys by (metis heap_rep_def map_map)

lemma heap_keys_distinct: "heap_rep h \<Longrightarrow> distinct (heap_keys h)"
  using heap_distinct [of h] by (simp add: distinct_map)

lemma heap_slot_unique:
  "heap_rep h \<Longrightarrow> k \<in> heap_entries h \<Longrightarrow> k' \<in> heap_entries h
    \<Longrightarrow> slot_ix (key_job k) = slot_ix (key_job k') \<Longrightarrow> k = k'"
  using heap_distinct unfolding heap_entries_def
  by (metis (mono_tags) comp_apply distinct_map inj_onD)

lemma heap_entries_card: "heap_rep h \<Longrightarrow> card (heap_entries h) = heap_len h"
  by (simp add: heap_entries_def heap_len_def distinct_card heap_keys_distinct)

lemma slot_of_Some_iff:
  assumes "heap_rep h"
  shows "slot_of h j = Some p \<longleftrightarrow> p < length (ph_ids h) \<and> ph_ids h ! p = j"
proof
  assume "slot_of h j = Some p"
  then show "p < length (ph_ids h) \<and> ph_ids h ! p = j"
    by (auto simp: slot_of_def split: option.splits if_splits)
next
  assume "p < length (ph_ids h) \<and> ph_ids h ! p = j"
  with table_ok_position [of "ph_ids h" "ph_positions h" p] assms show "slot_of h j = Some p"
    by (auto simp: slot_of_def heap_rep_def vec_get_def)
qed

lemma slot_of_None_iff:
  assumes "heap_rep h"
  shows "slot_of h j = None \<longleftrightarrow> j \<notin> set (ph_ids h)"
  using slot_of_Some_iff [OF assms] unfolding in_set_conv_nth
  by (metis not_None_eq)

lemma heap_contains_iff:
  "heap_rep h \<Longrightarrow> heap_contains h j \<longleftrightarrow> j \<in> key_job ` heap_entries h"
  using slot_of_None_iff by (auto simp: heap_contains_def heap_jobs)

section \<open>Update and push\<close>

lemma rescore_rep:
  assumes "heap_rep h" and "p < length (ph_ids h)"
  shows "heap_rep (h\<lparr>ph_scores := (ph_scores h)[p := sc]\<rparr>)"
    and "heap_keys (h\<lparr>ph_scores := (ph_scores h)[p := sc]\<rparr>)
           = (heap_keys h)[p := order_key_new sc (ph_ids h ! p)]"
proof -
  show "heap_rep (h\<lparr>ph_scores := (ph_scores h)[p := sc]\<rparr>)"
    using assms by (simp add: heap_rep_def)
  have "heap_keys (h\<lparr>ph_scores := (ph_scores h)[p := sc]\<rparr>)
      = map2 order_key_new ((ph_scores h)[p := sc]) ((ph_ids h)[p := ph_ids h ! p])"
    by (simp add: heap_keys_def)
  then show "heap_keys (h\<lparr>ph_scores := (ph_scores h)[p := sc]\<rparr>)
           = (heap_keys h)[p := order_key_new sc (ph_ids h ! p)]"
    by (simp only: map2_update heap_keys_def)
qed

lemma entries_replace:
  assumes "heap_rep h" and "p < length (ph_ids h)"
  shows "set ((heap_keys h)[p := k]) = insert k {x \<in> heap_entries h. key_job x \<noteq> ph_ids h ! p}"
proof -
  let ?ks = "heap_keys h"
  have "set (?ks[p := k]) = insert k (set ?ks - {?ks ! p})"
    using assms by (simp add: set_update_distinct heap_keys_distinct)
  moreover have "{x \<in> set ?ks. key_job x \<noteq> ph_ids h ! p} = set ?ks - {?ks ! p}"
  proof -
    have j: "key_job (?ks ! p) = ph_ids h ! p"
      using assms by (simp add: nth_heap_keys key_job_def order_key_new_def)
    have "?ks ! p \<in> heap_entries h" using assms by (simp add: heap_entries_def)
    from heap_slot_unique [OF assms(1) this] j show ?thesis by (auto simp: heap_entries_def)
  qed
  ultimately show ?thesis by (simp add: heap_entries_def)
qed

lemma heap_invI:
  assumes "heap_rep h" and "heap_ordered (heap_keys h)"
  shows "heap_inv h"
  using assms by (simp add: heap_inv_def)

lemma heap_update_present:
  assumes "heap_inv h" and "j \<in> key_job ` heap_entries h"
  shows "\<exists>h'. heap_update h j sc = Some (h', True) \<and> heap_inv h'
    \<and> heap_entries h' = insert (order_key_new sc j) {x \<in> heap_entries h. key_job x \<noteq> j}"
proof -
  from assms(1) have rep: "heap_rep h" and ord: "heap_ordered (heap_keys h)"
    by (simp_all add: heap_inv_def)
  from assms(2) rep slot_of_None_iff [OF rep, of j] obtain p where sp: "slot_of h j = Some p"
    by (auto simp: heap_jobs)
  with slot_of_Some_iff [OF rep] have p: "p < length (ph_ids h)" "ph_ids h ! p = j" by auto
  define h1 where "h1 = h\<lparr>ph_scores := (ph_scores h)[p := sc]\<rparr>"
  let ?k = "order_key_new sc j"
  have len: "length (ph_scores h) = length (ph_ids h)" using rep by (simp add: heap_rep_def)
  have h1: "heap_rep h1" "heap_keys h1 = (heap_keys h)[p := ?k]" "ph_ids h1 = ph_ids h"
    using rescore_rep [OF rep p(1)] p(2) by (auto simp: h1_def)
  have kp: "heap_keys h ! p = order_key_new (ph_scores h ! p) j"
    using rep p by (simp add: nth_heap_keys)
  have "\<exists>h'. heap_update h j sc = Some (h', True) \<and> heap_rep h'
      \<and> heap_ordered (heap_keys h') \<and> mset (heap_keys h') = mset (heap_keys h1)"
  proof (rule linorder_cases [of sc "ph_scores h ! p"])
    assume lt: "ph_scores h ! p < sc"
    then have "loose_up (heap_keys h1) p"
      using h1(2) heap_replace_up(1) [OF ord, of p ?k] rep p(1) kp
      by (simp add: less_eq_order_key_def order_key_new_def)
    with sift_up_rep [OF h1(1), of p] p(1) h1(3) lt sp len show ?thesis
      by (auto simp: heap_update_def h1_def)
  next
    assume lt: "sc < ph_scores h ! p"
    then have "loose_down (heap_keys h1) p"
      using h1(2) heap_replace_down [OF ord, of p ?k] rep p(1) kp
      by (simp add: less_eq_order_key_def order_key_new_def)
    with sift_down_rep [OF h1(1), of p] p(1) h1(3) lt sp len show ?thesis
      by (auto simp: heap_update_def h1_def)
  next
    assume "sc = ph_scores h ! p"
    then have "heap_keys h1 = heap_keys h" using h1(2) kp by (metis list_update_id)
    with \<open>sc = ph_scores h ! p\<close> ord h1(1) sp p(1) len show ?thesis
      by (auto simp: heap_update_def h1_def)
  qed
  then obtain h' where h': "heap_update h j sc = Some (h', True)" "heap_inv h'"
    "mset (heap_keys h') = mset (heap_keys h1)" by (auto simp: heap_inv_def)
  from h'(3) have "heap_entries h' = set (heap_keys h1)"
    unfolding heap_entries_def by (rule mset_eq_setD)
  also have "\<dots> = insert ?k {x \<in> heap_entries h. key_job x \<noteq> j}"
    using entries_replace [OF rep p(1), of ?k] p(2) h1(2) by simp
  finally show ?thesis using h'(1,2) by blast
qed

lemma heap_update_absent:
  "heap_inv h \<Longrightarrow> j \<notin> key_job ` heap_entries h \<Longrightarrow> heap_update h j sc = Some (h, False)"
  using slot_of_None_iff [of h j] by (auto simp: heap_update_def heap_inv_def heap_jobs)

lemma reserve_rep:
  assumes "heap_rep h"
  shows "heap_rep (heap_reserve_slots h n)"
    and "heap_keys (heap_reserve_slots h n) = heap_keys h"
    and "ph_ids (heap_reserve_slots h n) = ph_ids h"
    and "ph_scores (heap_reserve_slots h n) = ph_scores h"
    and "n \<le> length (ph_positions (heap_reserve_slots h n))"
proof -
  let ?h = "heap_reserve_slots h n"
  show ids: "ph_ids ?h = ph_ids h" and ss: "ph_scores ?h = ph_scores h"
    and "heap_keys ?h = heap_keys h" and "n \<le> length (ph_positions ?h)"
    by (auto simp: heap_reserve_slots_def heap_keys_def)
  have t: "table_ok (ph_ids h) (ph_positions h)" using assms by (simp add: heap_rep_def)
  have "table_ok (ph_ids h) (ph_positions ?h)"
  proof (rule table_okI)
    fix p assume "p < length (ph_ids h)"
    with table_ok_position [OF t this] show "slot_ix (ph_ids h ! p) < length (ph_positions ?h)"
      and "ph_positions ?h ! slot_ix (ph_ids h ! p) = word_of_nat p"
      by (auto simp: heap_reserve_slots_def nth_vec_resize)
  next
    fix i assume "i < length (ph_positions ?h)" "ph_positions ?h ! i \<noteq> ABSENT"
    then have "i < length (ph_positions h)" "ph_positions h ! i \<noteq> ABSENT"
      by (auto simp: heap_reserve_slots_def nth_vec_resize split: if_splits)
    with table_ok_absent [OF t] show "i \<in> slot_ix ` set (ph_ids h)" by auto
  qed (use t in \<open>simp add: table_ok_def\<close>)
  with assms ids ss show "heap_rep ?h" by (simp add: heap_rep_def)
qed

lemma table_append:
  assumes t: "table_ok is ps" and n: "length is < 2 ^ 32 - 1" and j: "slot_ix j < length ps"
    and fresh: "slot_ix j \<notin> slot_ix ` set is"
  shows "table_ok (is @ [j]) (ps[slot_ix j := word_of_nat (length is)])"
proof (rule table_okI)
  fix p assume p: "p < length (is @ [j])"
  show "slot_ix ((is @ [j]) ! p) < length (ps[slot_ix j := word_of_nat (length is)])"
    and "ps[slot_ix j := word_of_nat (length is)] ! slot_ix ((is @ [j]) ! p) = word_of_nat p"
  proof (atomize (full), cases "p < length is")
    case True
    then have "slot_ix (is ! p) \<noteq> slot_ix j" using fresh by (metis image_eqI nth_mem)
    with True j table_ok_position [OF t True] show "slot_ix ((is @ [j]) ! p)
        < length (ps[slot_ix j := word_of_nat (length is)])
      \<and> ps[slot_ix j := word_of_nat (length is)] ! slot_ix ((is @ [j]) ! p) = word_of_nat p"
      by (simp add: nth_append)
  next
    case False
    with p have "p = length is" by simp
    with j show "slot_ix ((is @ [j]) ! p) < length (ps[slot_ix j := word_of_nat (length is)])
      \<and> ps[slot_ix j := word_of_nat (length is)] ! slot_ix ((is @ [j]) ! p) = word_of_nat p"
      by simp
  qed
next
  fix i assume "i < length (ps[slot_ix j := word_of_nat (length is)])"
    "ps[slot_ix j := word_of_nat (length is)] ! i \<noteq> ABSENT"
  with table_ok_absent [OF t, of i] show "i \<in> slot_ix ` set (is @ [j])"
    by (cases "i = slot_ix j") auto
qed (use n in simp)

definition push_ok :: "priority_heap \<Rightarrow> job_id \<Rightarrow> bool" where
  "push_ok h j \<longleftrightarrow> heap_inv h \<and> heap_len h < 2 ^ 32 - 1
     \<and> (\<forall>k\<in>heap_entries h. slot_ix (key_job k) = slot_ix j \<longrightarrow> key_job k = j)"

lemma heap_push_absent:
  assumes "push_ok h j" and "j \<notin> key_job ` heap_entries h"
  shows "\<exists>h'. heap_push h j sc = Some h' \<and> heap_inv h'
    \<and> heap_entries h' = insert (order_key_new sc j) (heap_entries h)"
proof -
  from assms(1) have hi: "heap_inv h" and n: "length (ph_ids h) < 2 ^ 32 - 1"
    by (simp_all add: push_ok_def heap_len_def)
  then have rep: "heap_rep h" and ord: "heap_ordered (heap_keys h)" by (simp_all add: heap_inv_def)
  have fresh: "slot_ix j \<notin> slot_ix ` set (ph_ids h)"
  proof
    assume "slot_ix j \<in> slot_ix ` set (ph_ids h)"
    then obtain k where "k \<in> heap_entries h" "slot_ix (key_job k) = slot_ix j"
      unfolding heap_jobs [OF rep, symmetric] by auto
    with assms show False by (auto simp: push_ok_def)
  qed
  let ?r = "heap_reserve_slots h (slot_ix j + 1)"
  note res = reserve_rep [OF rep, of "slot_ix j + 1"]
  have ix: "slot_ix j < length (ph_positions ?r)" using res(5) by simp
  define h1 where "h1 = ?r\<lparr>ph_scores := ph_scores h @ [sc], ph_ids := ph_ids h @ [j],
    ph_positions := (ph_positions ?r)[slot_ix j := word_of_nat (length (ph_ids h))]\<rparr>"
  have "table_ok (ph_ids h) (ph_positions ?r)" using res(1,3) by (simp add: heap_rep_def)
  from table_append [OF this n ix fresh] rep have rep1: "heap_rep h1"
    by (simp add: heap_rep_def h1_def)
  have keys1: "heap_keys h1 = heap_keys h @ [order_key_new sc j]"
    using rep by (simp add: h1_def heap_keys_def heap_rep_def)
  have push: "heap_push h j sc = sift_up h1 (length (ph_ids h))"
    using n ix res(3,4)
    by (simp add: heap_push_def heap_update_absent [OF hi assms(2)] Let_def expect_u32_Some h1_def)
  from sift_up_rep [OF rep1, of "length (ph_ids h)"] obtain h' where h':
    "sift_up h1 (length (ph_ids h)) = Some h'" "heap_rep h'"
    "mset (heap_keys h') = mset (heap_keys h1)"
    "loose_up (heap_keys h1) (length (ph_ids h)) \<longrightarrow> heap_ordered (heap_keys h')"
    by (auto simp: h1_def)
  have "loose_up (heap_keys h1) (length (ph_ids h))"
    using heap_append_loose [OF ord] rep by (simp add: keys1)
  with h' have "heap_inv h'" by (simp add: heap_inv_def)
  moreover have "heap_entries h' = insert (order_key_new sc j) (heap_entries h)"
    unfolding heap_entries_def using mset_eq_setD [OF h'(3)] by (simp add: keys1)
  ultimately show ?thesis using push h'(1) by auto
qed

lemma heap_push_spec:
  assumes "push_ok h j"
  shows "\<exists>h'. heap_push h j sc = Some h' \<and> heap_inv h'
    \<and> heap_entries h' = insert (order_key_new sc j) {x \<in> heap_entries h. key_job x \<noteq> j}"
proof (cases "j \<in> key_job ` heap_entries h")
  case True
  with heap_update_present [of h j sc] assms show ?thesis
    by (auto simp: heap_push_def push_ok_def)
next
  case False
  then have "{x \<in> heap_entries h. key_job x \<noteq> j} = heap_entries h" by auto
  with heap_push_absent [OF assms False] show ?thesis by simp
qed

section \<open>Removal\<close>

lemma butlast_swap:
  assumes "p < length xs - 1"
  shows "butlast (xs[p := xs ! (length xs - 1), length xs - 1 := xs ! p]) = (butlast xs)[p := last xs]"
proof -
  from assms obtain ys x where xs: "xs = ys @ [x]" by (metis length_0_conv less_zeroE
    rev_exhaust zero_diff)
  with assms show ?thesis by (simp add: nth_append list_update_append butlast_append)
qed

lemma map2_butlast:
  "length xs = length ys \<Longrightarrow> map2 f (butlast xs) (butlast ys) = butlast (map2 f xs ys)"
  by (induction xs ys rule: list_induct2) auto

lemma table_remove_last:
  assumes t: "table_ok is ps" and ne: "is \<noteq> []"
  shows "table_ok (butlast is) (ps[slot_ix (last is) := ABSENT])"
proof (rule table_okI)
  let ?l = "length is - 1"
  have l: "?l < length is" "last is = is ! ?l" using ne by (auto simp: last_conv_nth)
  {
    fix p assume "p < length (butlast is)"
    then have p: "p < length is" "p \<noteq> ?l" by auto
    then have "slot_ix (is ! p) \<noteq> slot_ix (is ! ?l)" using table_ok_inj [OF t p(1) l(1)] by blast
    with p l table_ok_position [OF t p(1)] \<open>p < length (butlast is)\<close>
    show "slot_ix (butlast is ! p) < length (ps[slot_ix (last is) := ABSENT])"
      "ps[slot_ix (last is) := ABSENT] ! slot_ix (butlast is ! p) = word_of_nat p"
      by (simp_all add: nth_butlast)
  }
  fix i assume i: "i < length (ps[slot_ix (last is) := ABSENT])"
    "ps[slot_ix (last is) := ABSENT] ! i \<noteq> ABSENT"
  then have "i \<noteq> slot_ix (last is)" by auto
  with i have "i \<in> slot_ix ` set is" using table_ok_absent [OF t, of i] by auto
  moreover have "set is = insert (last is) (set (butlast is))"
    using ne by (metis append_butlast_last_id list.set(1,2) rotate1.simps(2) set_rotate1)
  ultimately show "i \<in> slot_ix ` set (butlast is)" using \<open>i \<noteq> slot_ix (last is)\<close> by auto
qed (use t in \<open>auto simp: table_ok_def\<close>)

lemma table_move_last:
  assumes t: "table_ok is ps" and p: "p < length is - 1"
  shows "table_ok ((butlast is)[p := last is])
           (ps[slot_ix (is ! p) := ABSENT, slot_ix (last is) := word_of_nat p])"
    (is "table_ok ?is ?ps")
proof (rule table_okI)
  let ?l = "length is - 1"
  have l: "?l < length is" "last is = is ! ?l" "p < length is" "p \<noteq> ?l"
    using p last_conv_nth [of "is"] by fastforce+
  have lp: "slot_ix (is ! p) \<noteq> slot_ix (is ! ?l)" using table_ok_inj [OF t l(3,1)] l(4) by blast
  {
    fix q assume q: "q < length ?is"
    show "slot_ix (?is ! q) < length ?ps"
      using q l p table_ok_position(1) [OF t] by (simp add: nth_list_update nth_butlast)
    show "?ps ! slot_ix (?is ! q) = word_of_nat q"
    proof (cases "q = p")
      case True
      with p l table_ok_position(1) [OF t l(1)] show ?thesis by simp
    next
      case False
      from q have "q < length is" "q \<noteq> ?l" by auto
      then have "slot_ix (is ! q) \<noteq> slot_ix (is ! p)" "slot_ix (is ! q) \<noteq> slot_ix (is ! ?l)"
        using False table_ok_inj [OF t _ l(3)] table_ok_inj [OF t _ l(1)] by blast+
      with False q l(2) table_ok_position(2) [OF t \<open>q < length is\<close>] show ?thesis
        by (simp add: nth_butlast)
    qed
  }
  fix i assume i: "i < length ?ps" "?ps ! i \<noteq> ABSENT"
  show "i \<in> slot_ix ` set ?is"
  proof (cases "i = slot_ix (last is)")
    case True
    moreover have "last is \<in> set ?is" using p by (simp add: set_update_memI)
    ultimately show ?thesis by simp
  next
    case False
    with i have ne: "i \<noteq> slot_ix (is ! p)" by auto
    with False i have "ps ! i \<noteq> ABSENT" by simp
    with i table_ok_absent [OF t, of i] obtain q where q: "q < length is" "i = slot_ix (is ! q)"
      by (auto simp: in_set_conv_nth)
    have "q \<noteq> ?l" "q \<noteq> p" using False l(2) ne q(2) by auto
    then have "q < length ?is" "?is ! q = is ! q" using q(1) by (auto simp: nth_butlast)
    with q show ?thesis by (metis image_eqI nth_mem)
  qed
qed (use t in \<open>auto simp: table_ok_def\<close>)

lemma remove_at_spec:
  assumes "heap_inv h" and p: "p < length (ph_ids h)"
  shows "\<exists>h'. remove_at h p = Some h' \<and> heap_inv h'
    \<and> add_mset (heap_keys h ! p) (mset (heap_keys h')) = mset (heap_keys h)"
proof -
  let ?l = "length (ph_ids h) - 1" and ?ks = "heap_keys h"
  from assms(1) have rep: "heap_rep h" and ord: "heap_ordered ?ks" by (simp_all add: heap_inv_def)
  have t: "table_ok (ph_ids h) (ph_positions h)" and len: "length (ph_scores h) = length (ph_ids h)"
    using rep by (simp_all add: heap_rep_def)
  have ne: "ph_ids h \<noteq> []" "?ks \<noteq> []" using p length_heap_keys [OF rep] by auto
  have ix: "slot_ix (ph_ids h ! p) < length (ph_positions h)" by (rule table_ok_position(1) [OF t p])
  have lk: "last ?ks = ?ks ! ?l" using ne by (simp add: last_conv_nth rep)
  have last: "mset ?ks = add_mset (last ?ks) (mset (butlast ?ks))"
    using ne(2) by (metis add.commute append_butlast_last_id mset.simps mset_append add_mset_add_single)
  show ?thesis
  proof (cases "p = ?l")
    case True
    let ?h = "h\<lparr>ph_scores := butlast (ph_scores h), ph_ids := butlast (ph_ids h),
      ph_positions := (ph_positions h)[slot_ix (ph_ids h ! p) := ABSENT]\<rparr>"
    have "remove_at h p = Some ?h" using True p ix by (simp add: remove_at_def Let_def)
    moreover have "heap_rep ?h"
      using table_remove_last [OF t ne(1)] len True ne by (simp add: heap_rep_def last_conv_nth)
    moreover have "heap_keys ?h = butlast ?ks"
      using len by (simp add: heap_keys_def map2_butlast)
    ultimately show ?thesis
      using last lk True heap_ordered_butlast [OF ord] by (auto simp: heap_inv_def)
  next
    case False
    with p have pl: "p < length (ph_ids h) - 1" by simp
    let ?is = "(butlast (ph_ids h))[p := last (ph_ids h)]"
    let ?ps = "(ph_positions h)[slot_ix (ph_ids h ! p) := ABSENT, slot_ix (last (ph_ids h)) := word_of_nat p]"
    define h1 where "h1 = h\<lparr>ph_scores := (butlast (ph_scores h))[p := last (ph_scores h)],
      ph_ids := ?is, ph_positions := ?ps\<rparr>"
    have rep1: "heap_rep h1" using table_move_last [OF t pl] len by (simp add: heap_rep_def h1_def)
    have keys1: "heap_keys h1 = (butlast ?ks)[p := last ?ks]"
      using len ne by (simp add: h1_def heap_keys_def map2_update map2_butlast last_map last_zip)
    have len1: "p < length (ph_ids h1)" using pl by (simp add: h1_def)
    have n32: "p < 2 ^ 32" using t p by (simp add: table_ok_def)
    have lix: "slot_ix (last (ph_ids h)) < length (ph_positions h)"
      using table_ok_position(1) [OF t, of ?l] ne by (simp add: last_conv_nth)
    have rm: "remove_at h p = do { h' \<leftarrow> sift_down h1 p; sift_up h' p }"
      using p pl False ix len n32 lix butlast_swap [of p "ph_ids h"] butlast_swap [of p "ph_scores h"]
      by (simp add: remove_at_def Let_def set_position_def expect_u32_Some h1_def)
    have bo: "heap_ordered (butlast ?ks)" by (rule heap_ordered_butlast [OF ord])
    have bl: "p < length (butlast ?ks)" using pl rep by simp
    have "\<exists>h'. remove_at h p = Some h' \<and> heap_inv h' \<and> mset (heap_keys h') = mset (heap_keys h1)"
    proof (cases "last ?ks \<le> butlast ?ks ! p")
      case True
      from sift_down_rep [OF rep1 len1] heap_replace_down [OF bo bl True]
      obtain h2 where h2: "sift_down h1 p = Some h2" "heap_inv h2" "mset (heap_keys h2) = mset (heap_keys h1)"
        by (auto simp: keys1 heap_inv_def)
      have "length (ph_ids h2) = length (ph_ids h1)"
        using h2 rep1 by (metis heap_inv_def length_heap_keys size_mset)
      with sift_up_rep [of h2 p] h2 len1 rm show ?thesis by (auto simp: heap_inv_def)
    next
      case False
      then have le: "butlast ?ks ! p \<le> last ?ks" by simp
      have "children_le (heap_keys h1) p (heap_keys h1 ! p)"
        using heap_replace_up(2) [OF bo bl le] bl by (simp add: keys1)
      with sift_down_rep [OF rep1 len1] have "sift_down h1 p = Some h1" by auto
      with sift_up_rep [OF rep1 len1] heap_replace_up(1) [OF bo bl le] rm show ?thesis
        by (auto simp: keys1 heap_inv_def)
    qed
    moreover have "add_mset (?ks ! p) (mset (heap_keys h1)) = mset ?ks"
    proof -
      have "butlast ?ks ! p = ?ks ! p" using bl by (rule nth_butlast)
      moreover from nth_mem [OF bl] this have "?ks ! p \<in> set (butlast ?ks)" by simp
      ultimately show ?thesis using bl by (simp add: keys1 mset_update last)
    qed
    ultimately show ?thesis by metis
  qed
qed

lemma heap_entries_remove:
  assumes "heap_rep h" and "p < length (ph_ids h)"
    and "add_mset (heap_keys h ! p) (mset (heap_keys h')) = mset (heap_keys h)"
  shows "heap_entries h' = heap_entries h - {heap_keys h ! p}"
proof -
  have "distinct (heap_keys h ! p # heap_keys h')"
    using heap_keys_distinct [OF assms(1)] assms(3)
    by (metis mset.simps(2) mset_eq_imp_distinct_iff)
  moreover have "set (heap_keys h) = insert (heap_keys h ! p) (set (heap_keys h'))"
    using assms(3) by (metis mset.simps(2) mset_eq_setD list.simps(15))
  ultimately show ?thesis by (auto simp: heap_entries_def)
qed

lemma heap_entries_not_job:
  assumes "heap_rep h" and "p < length (ph_ids h)"
  shows "{x \<in> heap_entries h. key_job x \<noteq> ph_ids h ! p} = heap_entries h - {heap_keys h ! p}"
proof -
  have j: "key_job (heap_keys h ! p) = ph_ids h ! p"
    using assms by (simp add: nth_heap_keys key_job_def order_key_new_def)
  have "heap_keys h ! p \<in> heap_entries h" using assms by (simp add: heap_entries_def)
  from heap_slot_unique [OF assms(1) this] j show ?thesis by auto
qed

lemma heap_remove_spec:
  assumes "heap_inv h"
  shows "\<exists>h'. heap_remove h j = Some (h', j \<in> key_job ` heap_entries h) \<and> heap_inv h'
    \<and> heap_entries h' = {x \<in> heap_entries h. key_job x \<noteq> j}"
proof -
  from assms have rep: "heap_rep h" by (simp add: heap_inv_def)
  show ?thesis
  proof (cases "slot_of h j")
    case None
    with slot_of_None_iff [OF rep] have "j \<notin> key_job ` heap_entries h" by (simp add: heap_jobs rep)
    moreover from this have "{x \<in> heap_entries h. key_job x \<noteq> j} = heap_entries h" by auto
    ultimately show ?thesis using None assms by (simp add: heap_remove_def)
  next
    case (Some p)
    with slot_of_Some_iff [OF rep] have p: "p < length (ph_ids h)" "ph_ids h ! p = j" by auto
    from remove_at_spec [OF assms p(1)] obtain h' where h': "remove_at h p = Some h'" "heap_inv h'"
      "add_mset (heap_keys h ! p) (mset (heap_keys h')) = mset (heap_keys h)" by blast
    have "j \<in> key_job ` heap_entries h" using p heap_jobs [OF rep] nth_mem by force
    with h' Some heap_entries_remove [OF rep p(1) h'(3)] heap_entries_not_job [OF rep p(1)] p(2)
    show ?thesis by (simp add: heap_remove_def)
  qed
qed

lemma pop_max_spec:
  assumes "heap_inv h" and "heap_entries h \<noteq> {}"
  shows "\<exists>h' j sc. pop_max h = Some (h', Some (j, sc)) \<and> heap_inv h'
    \<and> order_key_new sc j \<in> heap_entries h \<and> (\<forall>x\<in>heap_entries h. x \<le> order_key_new sc j)
    \<and> heap_entries h' = heap_entries h - {order_key_new sc j} \<and> peek_max h = Some (Some (j, sc))"
proof -
  from assms(1) have rep: "heap_rep h" and ord: "heap_ordered (heap_keys h)"
    by (simp_all add: heap_inv_def)
  have n: "0 < length (ph_ids h)" "0 < length (ph_scores h)"
    using assms(2) rep by (auto simp: heap_entries_def heap_keys_def heap_rep_def)
  from remove_at_spec [OF assms(1) n(1)] obtain h' where h': "remove_at h 0 = Some h'" "heap_inv h'"
    "add_mset (heap_keys h ! 0) (mset (heap_keys h')) = mset (heap_keys h)" by blast
  let ?j = "ph_ids h ! 0" and ?sc = "ph_scores h ! 0"
  have k: "heap_keys h ! 0 = order_key_new ?sc ?j" using rep n by (simp add: nth_heap_keys)
  have "\<forall>x\<in>heap_entries h. x \<le> order_key_new ?sc ?j"
    using heap_root_max [OF ord] k by (auto simp: heap_entries_def in_set_conv_nth)
  moreover have "order_key_new ?sc ?j \<in> heap_entries h"
    using k n rep by (metis heap_entries_def length_heap_keys nth_mem)
  moreover have "heap_entries h' = heap_entries h - {order_key_new ?sc ?j}"
    using heap_entries_remove [OF rep n(1) h'(3)] k by simp
  moreover have "pop_max h = Some (h', Some (?j, ?sc))"
    using n h'(1) by (simp add: pop_max_def vec_get_def)
  moreover have "peek_max h = Some (Some (?j, ?sc))" using n by (simp add: peek_max_def vec_get_def)
  ultimately show ?thesis using h'(2) by blast
qed

lemma pop_max_empty:
  assumes "heap_inv h" and "heap_entries h = {}"
  shows "pop_max h = Some (h, None)" and "peek_max h = Some None"
proof -
  have "ph_ids h = []" using assms heap_jobs [of h] by (simp add: heap_inv_def)
  then show "pop_max h = Some (h, None)" and "peek_max h = Some None"
    by (simp_all add: pop_max_def peek_max_def vec_get_def)
qed

lemma mark_absent_spec:
  assumes "\<forall>j\<in>set is. slot_ix j < length ps"
  shows "\<exists>ps'. mark_absent is ps = Some ps' \<and> length ps' = length ps
    \<and> (\<forall>i < length ps. ps' ! i = (if i \<in> slot_ix ` set is then ABSENT else ps ! i))"
  using assms
proof (induction "is" arbitrary: ps)
  case (Cons j js)
  let ?ps = "ps[slot_ix j := ABSENT]"
  from Cons.IH [of ?ps] Cons.prems obtain ps' where ps': "mark_absent js ?ps = Some ps'"
    "length ps' = length ps"
    "\<forall>i < length ps. ps' ! i = (if i \<in> slot_ix ` set js then ABSENT else ?ps ! i)" by auto
  moreover have "vec_set ps (slot_ix j) ABSENT = Some ?ps" using Cons.prems by simp
  moreover have "ps' ! i = (if i \<in> slot_ix ` set (j # js) then ABSENT else ps ! i)"
    if "i < length ps" for i
    using ps'(3) that by (auto simp: nth_list_update)
  ultimately show ?case by auto
qed simp

lemma heap_clear_spec:
  assumes "heap_inv h"
  shows "\<exists>h'. heap_clear h = Some h' \<and> heap_inv h' \<and> heap_entries h' = {}"
proof -
  from assms have t: "table_ok (ph_ids h) (ph_positions h)" by (simp add: heap_inv_def heap_rep_def)
  have "\<forall>j\<in>set (ph_ids h). slot_ix j < length (ph_positions h)"
    using table_ok_position(1) [OF t] by (auto simp: in_set_conv_nth)
  from mark_absent_spec [OF this] obtain ps where ps: "mark_absent (ph_ids h) (ph_positions h) = Some ps"
    "length ps = length (ph_positions h)"
    "\<forall>i < length ps. ps ! i = (if i \<in> slot_ix ` set (ph_ids h) then ABSENT else ph_positions h ! i)"
    by auto
  have "ps ! i = ABSENT" if "i < length ps" for i
    using ps(2,3) table_ok_absent [OF t, of i] that by (auto split: if_splits)
  then have "table_ok [] ps" by (intro table_okI) auto
  with ps(1) show ?thesis
    by (auto simp: heap_clear_def heap_inv_def heap_rep_def heap_keys_def heap_entries_def
        heap_ordered_def)
qed

lemma heap_new_spec: "heap_inv heap_new" "heap_entries heap_new = {}"
  by (auto simp: heap_inv_def heap_new_def heap_rep_def heap_keys_def heap_ordered_def
      heap_entries_def intro: table_okI)

lemma heap_reserve_spec:
  assumes "heap_inv h"
  shows "heap_inv (heap_reserve_slots h n)"
    and "heap_entries (heap_reserve_slots h n) = heap_entries h"
  using assms reserve_rep [of h n] by (auto simp: heap_inv_def heap_entries_def)

section \<open>The heap as a queue\<close>

text \<open>Entries are order keys; popping and pushing in terms of them.\<close>

definition heap_pop :: "priority_heap \<Rightarrow> (priority_heap \<times> order_key option) option" where
  "heap_pop h = do { (h', r) \<leftarrow> pop_max h; Some (h', map_option (\<lambda>(j, sc). order_key_new sc j) r) }"

definition heap_insert :: "priority_heap \<Rightarrow> order_key \<Rightarrow> priority_heap option" where
  "heap_insert h k = heap_push h (key_job k) (key_score k)"

interpretation heapq: keyed_queue heap_pop heap_inv heap_entries "\<lambda>k. k" key_job
  "\<lambda>h k. push_ok h (key_job k)" heap_insert heap_remove
proof unfold_locales
  fix h :: priority_heap and k a b :: order_key and j
  show "heap_inv h \<Longrightarrow> finite (heap_entries h)" by (simp add: heap_entries_def)
  show "a = b \<Longrightarrow> a = b" .
  show "heap_inv h \<Longrightarrow> heap_entries h = {} \<Longrightarrow> heap_pop h = Some (h, None)"
    by (simp add: heap_pop_def pop_max_empty)
  show "heap_inv h \<Longrightarrow> heap_entries h \<noteq> {} \<Longrightarrow>
      \<exists>q' e. heap_pop h = Some (q', Some e) \<and> heap_inv q' \<and> e \<in> heap_entries h
        \<and> (\<forall>x\<in>heap_entries h. x \<le> e) \<and> heap_entries q' = heap_entries h - {e}"
    using pop_max_spec [of h] by (auto simp: heap_pop_def)
  show "heap_inv h \<Longrightarrow> a \<in> heap_entries h \<Longrightarrow> b \<in> heap_entries h \<Longrightarrow> key_job a = key_job b \<Longrightarrow> a = b"
    by (rule heap_slot_unique) (auto simp: heap_inv_def)
  show "heap_inv h \<Longrightarrow> push_ok h (key_job k) \<Longrightarrow>
      \<exists>q'. heap_insert h k = Some q' \<and> heap_inv q'
        \<and> heap_entries q' = insert k {x \<in> heap_entries h. key_job x \<noteq> key_job k}"
    using heap_push_spec [of h "key_job k" "key_score k"]
    by (simp add: heap_insert_def order_key_new_def key_job_def)
  show "heap_inv h \<Longrightarrow>
      \<exists>q'. heap_remove h j = Some (q', j \<in> key_job ` heap_entries h) \<and> heap_inv q'
        \<and> heap_entries q' = {x \<in> heap_entries h. key_job x \<noteq> j}"
    by (rule heap_remove_spec)
qed

section \<open>Histories of a heap\<close>

text \<open>
  Any sequence of operations, a push being allowed under its documented precondition: no other
  handle with the same arena index is in the heap.
\<close>

inductive heap_run :: "priority_heap \<Rightarrow> bool" where
  hrun_new: "heap_run heap_new"
| hrun_reserve: "heap_run h \<Longrightarrow> heap_run (heap_reserve_slots h n)"
| hrun_push: "heap_run h \<Longrightarrow> heap_len h < 2 ^ 32 - 1
    \<Longrightarrow> \<forall>i\<in>set (ph_ids h). job_index i = job_index j \<longrightarrow> i = j
    \<Longrightarrow> heap_push h j sc = Some h' \<Longrightarrow> heap_run h'"
| hrun_update: "heap_run h \<Longrightarrow> heap_update h j sc = Some (h', present) \<Longrightarrow> heap_run h'"
| hrun_remove: "heap_run h \<Longrightarrow> heap_remove h j = Some (h', present) \<Longrightarrow> heap_run h'"
| hrun_pop: "heap_run h \<Longrightarrow> pop_max h = Some (h', r) \<Longrightarrow> heap_run h'"
| hrun_clear: "heap_run h \<Longrightarrow> heap_clear h = Some h' \<Longrightarrow> heap_run h'"

lemma push_okI:
  assumes "heap_inv h" and "heap_len h < 2 ^ 32 - 1"
    and "\<forall>i\<in>set (ph_ids h). job_index i = job_index j \<longrightarrow> i = j"
  shows "push_ok h j"
proof -
  have "set (ph_ids h) = key_job ` heap_entries h"
    using assms(1) heap_jobs by (auto simp: heap_inv_def)
  with assms show ?thesis
    by (auto simp: push_ok_def word_eq_iff_unsigned [where ?'a = nat])
qed

lemma heap_run_inv: "heap_run h \<Longrightarrow> heap_inv h"
proof (induction rule: heap_run.induct)
  case hrun_new
  show ?case by (rule heap_new_spec)
next
  case (hrun_reserve h n)
  then show ?case by (simp add: heap_reserve_spec)
next
  case (hrun_push h j sc h')
  then show ?case using heap_push_spec [OF push_okI, of h j sc] by auto
next
  case (hrun_update h j sc h' present)
  then show ?case
    using heap_update_present [of h j sc] heap_update_absent [of h j sc]
    by (cases "j \<in> key_job ` heap_entries h") auto
next
  case (hrun_remove h j h' present)
  then show ?case using heap_remove_spec [of h j] by auto
next
  case (hrun_pop h h' r)
  then show ?case using pop_max_spec [of h] pop_max_empty [of h]
    by (cases "heap_entries h = {}") auto
next
  case (hrun_clear h h')
  then show ?case using heap_clear_spec [of h] by auto
qed

section \<open>Properties\<close>

definition sample_heap :: priority_heap where
  "sample_heap = the (do { h \<leftarrow> heap_push heap_new 3 500; h \<leftarrow> heap_push h 1 900; heap_push h 2 900 })"

lemma sample_heap_run: "heap_run sample_heap"
proof -
  define h1 h2 where "h1 = the (heap_push heap_new 3 500)" and "h2 = the (heap_push h1 1 900)"
  have p1: "heap_push heap_new 3 500 = Some h1" unfolding h1_def by code_simp
  have p2: "heap_push h1 1 900 = Some h2" unfolding h2_def h1_def by code_simp
  have p3: "heap_push h2 2 900 = Some sample_heap"
    unfolding sample_heap_def h2_def h1_def by code_simp
  have ids: "ph_ids h1 = [3]" "ph_ids h2 = [1, 3]" unfolding h2_def h1_def by code_simp+
  have ix: "job_index 1 \<noteq> job_index 3" "job_index 2 \<noteq> job_index 3" "job_index 1 \<noteq> job_index 2"
    by code_simp+
  have "heap_run h1" by (rule hrun_push [OF hrun_new _ _ p1]) (auto simp: heap_new_def heap_len_def)
  then have "heap_run h2" by (rule hrun_push [OF _ _ _ p2]) (use ids ix in \<open>auto simp: heap_len_def\<close>)
  then show ?thesis by (rule hrun_push [OF _ _ _ p3]) (use ids ix in \<open>auto simp: heap_len_def\<close>)
qed

text \<open>
  C9. The indexed heap implements a finite set of (score, job) entries, one per job, and never
  panics: after any history of operations, popping returns the entry with the highest score and,
  among equals, the lowest handle, and removes exactly it; pushing under the documented
  precondition inserts or rescores exactly that job; removing deletes exactly that job and says
  whether it was there; membership is exact; clearing empties the heap.
\<close>

theorem heap_implements_queue:
  assumes "heap_run h"
  shows "(heap_entries h = {} \<longrightarrow> pop_max h = Some (h, None))
    \<and> (heap_entries h \<noteq> {} \<longrightarrow> (\<exists>h' j sc. pop_max h = Some (h', Some (j, sc))
          \<and> order_key_new sc j \<in> heap_entries h \<and> (\<forall>x\<in>heap_entries h. x \<le> order_key_new sc j)
          \<and> heap_entries h' = heap_entries h - {order_key_new sc j}))
    \<and> (\<forall>j sc. heap_len h < 2 ^ 32 - 1 \<and> (\<forall>i\<in>set (ph_ids h). job_index i = job_index j \<longrightarrow> i = j) \<longrightarrow>
         (\<exists>h'. heap_push h j sc = Some h'
            \<and> heap_entries h' = insert (order_key_new sc j) {x \<in> heap_entries h. key_job x \<noteq> j}))
    \<and> (\<forall>j. \<exists>h'. heap_remove h j = Some (h', heap_contains h j)
            \<and> heap_entries h' = {x \<in> heap_entries h. key_job x \<noteq> j})
    \<and> (\<forall>j. heap_contains h j \<longleftrightarrow> j \<in> key_job ` heap_entries h)
    \<and> (\<exists>h'. heap_clear h = Some h' \<and> heap_entries h' = {})
    \<and> card (heap_entries h) = heap_len h"
proof -
  from assms have hi: "heap_inv h" by (rule heap_run_inv)
  then have rep: "heap_rep h" by (simp add: heap_inv_def)
  show ?thesis
  proof (intro conjI allI impI)
    show "pop_max h = Some (h, None)" if "heap_entries h = {}"
      using pop_max_empty [OF hi that] by simp
    show "\<exists>h' j sc. pop_max h = Some (h', Some (j, sc))
          \<and> order_key_new sc j \<in> heap_entries h \<and> (\<forall>x\<in>heap_entries h. x \<le> order_key_new sc j)
          \<and> heap_entries h' = heap_entries h - {order_key_new sc j}" if "heap_entries h \<noteq> {}"
      using pop_max_spec [OF hi that] by auto
    fix j sc
    show "\<exists>h'. heap_push h j sc = Some h'
        \<and> heap_entries h' = insert (order_key_new sc j) {x \<in> heap_entries h. key_job x \<noteq> j}"
      if "heap_len h < 2 ^ 32 - 1 \<and> (\<forall>i\<in>set (ph_ids h). job_index i = job_index j \<longrightarrow> i = j)"
      using heap_push_spec [OF push_okI [OF hi], of j sc] that by auto
    show "\<exists>h'. heap_remove h j = Some (h', heap_contains h j)
        \<and> heap_entries h' = {x \<in> heap_entries h. key_job x \<noteq> j}"
      using heap_remove_spec [OF hi, of j] heap_contains_iff [OF rep] by auto
    show "heap_contains h j \<longleftrightarrow> j \<in> key_job ` heap_entries h" by (rule heap_contains_iff [OF rep])
    show "\<exists>h'. heap_clear h = Some h' \<and> heap_entries h' = {}" using heap_clear_spec [OF hi] by auto
    show "card (heap_entries h) = heap_len h" by (rule heap_entries_card [OF rep])
  qed
qed

theorem heap_implements_queue_witness:
  "heap_entries sample_heap \<noteq> {} \<and> heap_len sample_heap = 3
   \<and> (\<exists>h'. pop_max sample_heap = Some (h', Some (1, 900))
        \<and> heap_entries h' = heap_entries sample_heap - {order_key_new 900 1})"
proof -
  note q = heap_implements_queue [OF sample_heap_run]
  have len: "heap_len sample_heap = 3" by code_simp
  with q have ne: "heap_entries sample_heap \<noteq> {}" by auto
  with q obtain h' j sc where p: "pop_max sample_heap = Some (h', Some (j, sc))"
    "heap_entries h' = heap_entries sample_heap - {order_key_new sc j}" by blast
  have "map_option snd (pop_max sample_heap) = Some (Some (1, 900))" by code_simp
  with p len ne show ?thesis by auto
qed

end
