(* ===== verification/Ready_Set.thy ===== *)
theory Ready_Set
  imports Ready_Heap "HOL-Library.Product_Lexorder"
begin

text \<open>
  The ready set (\<open>ReadySet\<close> of \<open>policy/ready_set.rs\<close>): one heap per priority class, drained from
  the highest class down. It provides the same queue contract as a single heap, with entries
  ranked by class first and by order key second.
\<close>

section \<open>State and operations\<close>

record ready_entry =
  entry_class :: priority_class
  entry_job :: job_id
  entry_score :: score

record ready_set =
  rs_buckets :: "priority_heap list"

definition ready_new :: ready_set where
  "ready_new = \<lparr>rs_buckets = replicate class_COUNT heap_new\<rparr>"

definition ready_reserve_slots :: "ready_set \<Rightarrow> nat \<Rightarrow> ready_set" where
  "ready_reserve_slots rs n =
     rs\<lparr>rs_buckets := map (\<lambda>h. heap_reserve_slots h n) (rs_buckets rs)\<rparr>"

definition ready_with_slots :: "nat \<Rightarrow> ready_set" where
  "ready_with_slots n = ready_reserve_slots ready_new n"

definition ready_insert :: "ready_set \<Rightarrow> priority_class \<Rightarrow> job_id \<Rightarrow> score \<Rightarrow> ready_set option" where
  "ready_insert rs cls j sc =
     do { h \<leftarrow> vec_index (rs_buckets rs) (unat (ordinal cls));
          h' \<leftarrow> heap_push h j sc;
          bs \<leftarrow> vec_set (rs_buckets rs) (unat (ordinal cls)) h';
          Some (rs\<lparr>rs_buckets := bs\<rparr>) }"

definition ready_remove :: "ready_set \<Rightarrow> priority_class \<Rightarrow> job_id \<Rightarrow> (ready_set \<times> bool) option" where
  "ready_remove rs cls j =
     do { h \<leftarrow> vec_index (rs_buckets rs) (unat (ordinal cls));
          (h', present) \<leftarrow> heap_remove h j;
          bs \<leftarrow> vec_set (rs_buckets rs) (unat (ordinal cls)) h';
          Some (rs\<lparr>rs_buckets := bs\<rparr>, present) }"

definition ready_len :: "ready_set \<Rightarrow> nat" where
  "ready_len rs = sum_list (map heap_len (rs_buckets rs))"

definition ready_is_empty :: "ready_set \<Rightarrow> bool" where
  "ready_is_empty rs \<longleftrightarrow> list_all heap_is_empty (rs_buckets rs)"

fun clear_buckets :: "priority_heap list \<Rightarrow> priority_heap list option" where
  "clear_buckets [] = Some []"
| "clear_buckets (h # hs) = do { h' \<leftarrow> heap_clear h; hs' \<leftarrow> clear_buckets hs; Some (h' # hs') }"

definition ready_clear :: "ready_set \<Rightarrow> ready_set option" where
  "ready_clear rs = do { bs \<leftarrow> clear_buckets (rs_buckets rs); Some (rs\<lparr>rs_buckets := bs\<rparr>) }"

fun peek_classes :: "priority_class list \<Rightarrow> ready_set \<Rightarrow> ready_entry option option" where
  "peek_classes [] rs = Some None"
| "peek_classes (c # cs) rs =
     do { h \<leftarrow> vec_index (rs_buckets rs) (unat (ordinal c));
          r \<leftarrow> peek_max h;
          case r of
            Some (j, sc) \<Rightarrow> Some (Some \<lparr>entry_class = c, entry_job = j, entry_score = sc\<rparr>)
          | None \<Rightarrow> peek_classes cs rs }"

definition peek_next :: "ready_set \<Rightarrow> ready_entry option option" where
  "peek_next rs = peek_classes (rev class_ALL) rs"

fun pop_classes :: "priority_class list \<Rightarrow> ready_set \<Rightarrow> (ready_set \<times> ready_entry option) option" where
  "pop_classes [] rs = Some (rs, None)"
| "pop_classes (c # cs) rs =
     do { h \<leftarrow> vec_index (rs_buckets rs) (unat (ordinal c));
          (h', r) \<leftarrow> pop_max h;
          bs \<leftarrow> vec_set (rs_buckets rs) (unat (ordinal c)) h';
          case r of
            Some (j, sc) \<Rightarrow>
              Some (rs\<lparr>rs_buckets := bs\<rparr>, Some \<lparr>entry_class = c, entry_job = j, entry_score = sc\<rparr>)
          | None \<Rightarrow> pop_classes cs (rs\<lparr>rs_buckets := bs\<rparr>) }"

definition pop_next :: "ready_set \<Rightarrow> (ready_set \<times> ready_entry option) option" where
  "pop_next rs = pop_classes (rev class_ALL) rs"

text \<open>The loop of \<open>drain_ordered_into\<close>; the output vector is cleared first.\<close>

fun drain_loop :: "nat \<Rightarrow> ready_set \<Rightarrow> ready_entry list \<Rightarrow> (ready_set \<times> ready_entry list) option" where
  "drain_loop 0 rs out = Some (rs, out)"
| "drain_loop (Suc n) rs out =
     do { (rs', r) \<leftarrow> pop_next rs;
          case r of
            Some e \<Rightarrow> drain_loop n rs' (out @ [e])
          | None \<Rightarrow> Some (rs', out) }"

definition drain_ordered_into ::
  "ready_set \<Rightarrow> ready_entry list \<Rightarrow> nat \<Rightarrow> (ready_set \<times> ready_entry list) option" where
  "drain_ordered_into rs out limit = drain_loop limit rs []"

definition reinsert :: "ready_set \<Rightarrow> ready_entry \<Rightarrow> ready_set option" where
  "reinsert rs e = ready_insert rs (entry_class e) (entry_job e) (entry_score e)"

section \<open>Contents and invariant\<close>

abbreviation bucket :: "ready_set \<Rightarrow> priority_class \<Rightarrow> priority_heap" where
  "bucket rs c \<equiv> rs_buckets rs ! unat (ordinal c)"

definition ready_inv :: "ready_set \<Rightarrow> bool" where
  "ready_inv rs \<longleftrightarrow> length (rs_buckets rs) = class_COUNT \<and> (\<forall>c. heap_inv (bucket rs c))"

definition ready_entries :: "ready_set \<Rightarrow> ready_entry set" where
  "ready_entries rs =
     {e. order_key_new (entry_score e) (entry_job e) \<in> heap_entries (bucket rs (entry_class e))}"

definition entry_rank :: "ready_entry \<Rightarrow> priority_class \<times> order_key" where
  "entry_rank e = (entry_class e, order_key_new (entry_score e) (entry_job e))"

definition entry_ident :: "ready_entry \<Rightarrow> priority_class \<times> job_id" where
  "entry_ident e = (entry_class e, entry_job e)"

lemma key_job_new [simp]: "key_job (order_key_new s j) = j"
  by (simp add: key_job_def order_key_new_def)

lemma entry_rank_inj: "entry_rank a = entry_rank b \<Longrightarrow> a = b" for a b :: ready_entry
  by (cases a; cases b) (simp add: entry_rank_def order_key_new_def)

lemma bucket_in_range [simp]: "ready_inv rs \<Longrightarrow> unat (ordinal c) < length (rs_buckets rs)"
  by (simp add: ready_inv_def)

lemma bucket_update [simp]:
  "ready_inv rs \<Longrightarrow>
     (rs_buckets rs)[unat (ordinal c) := h] ! unat (ordinal d) = (if c = d then h else bucket rs d)"
  by (auto simp: nth_list_update ready_inv_def)

lemma ready_inv_update:
  "ready_inv rs \<Longrightarrow> heap_inv h \<Longrightarrow> ready_inv (rs\<lparr>rs_buckets := (rs_buckets rs)[unat (ordinal c) := h]\<rparr>)"
  using bucket_update [of rs c h] by (auto simp: ready_inv_def)

lemma ready_entries_update:
  assumes "ready_inv rs"
  shows "ready_entries (rs\<lparr>rs_buckets := (rs_buckets rs)[unat (ordinal c) := h]\<rparr>) =
     {e \<in> ready_entries rs. entry_class e \<noteq> c}
     \<union> {e. entry_class e = c \<and> order_key_new (entry_score e) (entry_job e) \<in> heap_entries h}"
  using assms by (auto simp: ready_entries_def)

lemma ready_insert_spec:
  assumes "ready_inv rs" and "push_ok (bucket rs c) j"
  shows "\<exists>rs'. ready_insert rs c j sc = Some rs' \<and> ready_inv rs'
    \<and> ready_entries rs' = insert \<lparr>entry_class = c, entry_job = j, entry_score = sc\<rparr>
        {e \<in> ready_entries rs. entry_ident e \<noteq> (c, j)}"
proof -
  from heap_push_spec [OF assms(2), of sc] obtain h where h: "heap_push (bucket rs c) j sc = Some h"
    "heap_inv h" "heap_entries h = insert (order_key_new sc j) {x \<in> heap_entries (bucket rs c). key_job x \<noteq> j}"
    by blast
  let ?rs = "rs\<lparr>rs_buckets := (rs_buckets rs)[unat (ordinal c) := h]\<rparr>"
  have "ready_insert rs c j sc = Some ?rs" using assms(1) h(1) by (simp add: ready_insert_def)
  moreover have "ready_entries ?rs = insert \<lparr>entry_class = c, entry_job = j, entry_score = sc\<rparr>
        {e \<in> ready_entries rs. entry_ident e \<noteq> (c, j)}"
    unfolding ready_entries_update [OF assms(1)] h(3)
    by (auto simp: ready_entries_def entry_ident_def order_key_new_def key_job_def)
  ultimately show ?thesis using ready_inv_update [OF assms(1) h(2)] by blast
qed

lemma ready_remove_spec:
  assumes "ready_inv rs"
  shows "\<exists>rs'. ready_remove rs c j = Some (rs', (c, j) \<in> entry_ident ` ready_entries rs) \<and> ready_inv rs'
    \<and> ready_entries rs' = {e \<in> ready_entries rs. entry_ident e \<noteq> (c, j)}"
proof -
  from assms have "heap_inv (bucket rs c)" by (simp add: ready_inv_def)
  from heap_remove_spec [OF this, of j] obtain h where
    h: "heap_remove (bucket rs c) j = Some (h, j \<in> key_job ` heap_entries (bucket rs c))"
    "heap_inv h" "heap_entries h = {x \<in> heap_entries (bucket rs c). key_job x \<noteq> j}" by blast
  let ?rs = "rs\<lparr>rs_buckets := (rs_buckets rs)[unat (ordinal c) := h]\<rparr>"
  have "(c, j) \<in> entry_ident ` ready_entries rs \<longleftrightarrow> j \<in> key_job ` heap_entries (bucket rs c)"
  proof
    assume "j \<in> key_job ` heap_entries (bucket rs c)"
    then obtain k where k: "k \<in> heap_entries (bucket rs c)" "key_job k = j" by auto
    then have "\<lparr>entry_class = c, entry_job = j, entry_score = key_score k\<rparr> \<in> ready_entries rs"
      by (cases k) (auto simp: ready_entries_def order_key_new_def key_job_def)
    then show "(c, j) \<in> entry_ident ` ready_entries rs" by (force simp: entry_ident_def)
  qed (auto simp: ready_entries_def entry_ident_def image_iff intro: bexI [rotated])
  with h(1) assms have "ready_remove rs c j = Some (?rs, (c, j) \<in> entry_ident ` ready_entries rs)"
    by (simp add: ready_remove_def)
  moreover have "ready_entries ?rs = {e \<in> ready_entries rs. entry_ident e \<noteq> (c, j)}"
    unfolding ready_entries_update [OF assms] h(3) by (auto simp: ready_entries_def entry_ident_def)
  ultimately show ?thesis using ready_inv_update [OF assms h(2)] by blast
qed

section \<open>Popping in class order\<close>

definition class_entries :: "ready_set \<Rightarrow> priority_class list \<Rightarrow> ready_entry set" where
  "class_entries rs cs = {e \<in> ready_entries rs. entry_class e \<in> set cs}"

lemma class_entries_Nil [simp]: "class_entries rs [] = {}"
  by (simp add: class_entries_def)

lemma empty_bucket_class_entries:
  assumes "heap_entries (bucket rs c) = {}"
  shows "class_entries rs (c # cs) = class_entries rs cs"
  using assms by (auto simp: class_entries_def ready_entries_def)

lemma bucket_self [simp]: "rs\<lparr>rs_buckets := (rs_buckets rs)[i := rs_buckets rs ! i]\<rparr> = rs"
  by simp

lemma nonempty_bucket_top:
  assumes "ready_inv rs" and "heap_entries (bucket rs c) \<noteq> {}" and "\<forall>d\<in>set cs. d < c"
  shows "\<exists>h j sc. pop_max (bucket rs c) = Some (h, Some (j, sc))
    \<and> peek_max (bucket rs c) = Some (Some (j, sc))
    \<and> (let e = \<lparr>entry_class = c, entry_job = j, entry_score = sc\<rparr>;
           rs' = rs\<lparr>rs_buckets := (rs_buckets rs)[unat (ordinal c) := h]\<rparr>
       in ready_inv rs' \<and> e \<in> class_entries rs (c # cs)
          \<and> (\<forall>x\<in>class_entries rs (c # cs). entry_rank x \<le> entry_rank e)
          \<and> ready_entries rs' = ready_entries rs - {e})"
proof -
  from assms(1) have "heap_inv (bucket rs c)" by (simp add: ready_inv_def)
  from pop_max_spec [OF this assms(2)] obtain h j sc where h:
    "pop_max (bucket rs c) = Some (h, Some (j, sc))" "heap_inv h"
    "order_key_new sc j \<in> heap_entries (bucket rs c)"
    "\<forall>x\<in>heap_entries (bucket rs c). x \<le> order_key_new sc j"
    "heap_entries h = heap_entries (bucket rs c) - {order_key_new sc j}"
    "peek_max (bucket rs c) = Some (Some (j, sc))" by blast
  let ?e = "\<lparr>entry_class = c, entry_job = j, entry_score = sc\<rparr>"
  let ?rs = "rs\<lparr>rs_buckets := (rs_buckets rs)[unat (ordinal c) := h]\<rparr>"
  have "ready_entries ?rs = ready_entries rs - {?e}"
    unfolding ready_entries_update [OF assms(1)] h(5)
    by (auto simp: ready_entries_def order_key_new_def)
  moreover have "entry_rank x \<le> entry_rank ?e" if "x \<in> class_entries rs (c # cs)" for x
    using that h(4) assms(3)
    by (auto simp: class_entries_def ready_entries_def entry_rank_def less_le)
  moreover have "?e \<in> class_entries rs (c # cs)"
    using h(3) by (simp add: class_entries_def ready_entries_def)
  ultimately show ?thesis using h(1,6) ready_inv_update [OF assms(1) h(2)] by (simp add: Let_def)
qed

lemma pop_classes_spec:
  assumes "ready_inv rs" and "sorted_wrt (\<lambda>a b. b < a) cs"
  shows "class_entries rs cs = {} \<and> pop_classes cs rs = Some (rs, None) \<and> peek_classes cs rs = Some None
    \<or> (\<exists>rs' e. pop_classes cs rs = Some (rs', Some e) \<and> peek_classes cs rs = Some (Some e)
        \<and> ready_inv rs' \<and> e \<in> class_entries rs cs
        \<and> (\<forall>x\<in>class_entries rs cs. entry_rank x \<le> entry_rank e)
        \<and> ready_entries rs' = ready_entries rs - {e})"
  using assms(2)
proof (induction cs)
  case (Cons c cs)
  show ?case
  proof (cases "heap_entries (bucket rs c) = {}")
    case True
    have "heap_inv (bucket rs c)" using assms(1) by (simp add: ready_inv_def)
    note e = pop_max_empty [OF this True]
    have "pop_classes (c # cs) rs = pop_classes cs rs" "peek_classes (c # cs) rs = peek_classes cs rs"
      using e assms(1) by simp_all
    with Cons empty_bucket_class_entries [OF True] show ?thesis by simp
  next
    case False
    from Cons.prems have "\<forall>d\<in>set cs. d < c" by simp
    from nonempty_bucket_top [OF assms(1) False this] obtain h j sc where
      p: "pop_max (bucket rs c) = Some (h, Some (j, sc))" "peek_max (bucket rs c) = Some (Some (j, sc))"
      and q: "let e = \<lparr>entry_class = c, entry_job = j, entry_score = sc\<rparr>;
           rs' = rs\<lparr>rs_buckets := (rs_buckets rs)[unat (ordinal c) := h]\<rparr>
       in ready_inv rs' \<and> e \<in> class_entries rs (c # cs)
          \<and> (\<forall>x\<in>class_entries rs (c # cs). entry_rank x \<le> entry_rank e)
          \<and> ready_entries rs' = ready_entries rs - {e}"
      by blast
    let ?e = "\<lparr>entry_class = c, entry_job = j, entry_score = sc\<rparr>"
    let ?rs = "rs\<lparr>rs_buckets := (rs_buckets rs)[unat (ordinal c) := h]\<rparr>"
    have "pop_classes (c # cs) rs = Some (?rs, Some ?e)" "peek_classes (c # cs) rs = Some (Some ?e)"
      using p assms(1) by simp_all
    with q show ?thesis unfolding Let_def by blast
  qed
qed simp

lemma rev_class_ALL_sorted: "sorted_wrt (\<lambda>a b. b < a) (rev class_ALL)"
  by (simp add: class_ALL_def less_priority_class_def word_less_nat_alt)

lemma class_entries_ALL [simp]: "class_entries rs (rev class_ALL) = ready_entries rs"
  by (simp add: class_entries_def)

lemma pop_next_empty:
  assumes "ready_inv rs" and "ready_entries rs = {}"
  shows "pop_next rs = Some (rs, None)" and "peek_next rs = Some None"
  using pop_classes_spec [OF assms(1) rev_class_ALL_sorted] assms(2)
  by (auto simp: pop_next_def peek_next_def)

lemma pop_next_top:
  assumes "ready_inv rs" and "ready_entries rs \<noteq> {}"
  shows "\<exists>rs' e. pop_next rs = Some (rs', Some e) \<and> peek_next rs = Some (Some e) \<and> ready_inv rs'
    \<and> e \<in> ready_entries rs \<and> (\<forall>x\<in>ready_entries rs. entry_rank x \<le> entry_rank e)
    \<and> ready_entries rs' = ready_entries rs - {e}"
  using pop_classes_spec [OF assms(1) rev_class_ALL_sorted] assms(2)
  by (auto simp: pop_next_def peek_next_def)

definition key_entry :: "priority_class \<Rightarrow> order_key \<Rightarrow> ready_entry" where
  "key_entry c k = \<lparr>entry_class = c, entry_job = key_job k, entry_score = key_score k\<rparr>"

lemma key_entry_self: "key_entry (entry_class e) (order_key_new (entry_score e) (entry_job e)) = e"
  by (cases e) (simp add: key_entry_def order_key_new_def key_job_def)

lemma ready_entries_Union: "ready_entries rs = (\<Union>c. key_entry c ` heap_entries (bucket rs c))"
proof (intro equalityI subsetI)
  fix e assume "e \<in> ready_entries rs"
  then have "order_key_new (entry_score e) (entry_job e) \<in> heap_entries (bucket rs (entry_class e))"
    by (simp add: ready_entries_def)
  then show "e \<in> (\<Union>c. key_entry c ` heap_entries (bucket rs c))"
    using key_entry_self [of e] by (metis UN_I UNIV_I image_eqI)
qed (auto simp: ready_entries_def key_entry_def order_key_new_def key_job_def)

lemma finite_ready_entries: "finite (ready_entries rs)"
proof -
  have "finite (UNIV :: priority_class set)" using finite_set [of class_ALL] by simp
  then show ?thesis by (simp add: ready_entries_Union heap_entries_def)
qed

interpretation ready: keyed_queue pop_next ready_inv ready_entries entry_rank entry_ident
  "\<lambda>rs e. push_ok (bucket rs (entry_class e)) (entry_job e)" reinsert "\<lambda>rs (c, j). ready_remove rs c j"
proof unfold_locales
  fix rs :: ready_set and a b e :: ready_entry and k :: "priority_class \<times> job_id"
  show "ready_inv rs \<Longrightarrow> finite (ready_entries rs)" by (rule finite_ready_entries)
  show "entry_rank a = entry_rank b \<Longrightarrow> a = b" by (rule entry_rank_inj)
  show "ready_inv rs \<Longrightarrow> ready_entries rs = {} \<Longrightarrow> pop_next rs = Some (rs, None)"
    by (rule pop_next_empty)
  show "ready_inv rs \<Longrightarrow> ready_entries rs \<noteq> {} \<Longrightarrow>
      \<exists>q' e. pop_next rs = Some (q', Some e) \<and> ready_inv q' \<and> e \<in> ready_entries rs
        \<and> (\<forall>x\<in>ready_entries rs. entry_rank x \<le> entry_rank e) \<and> ready_entries q' = ready_entries rs - {e}"
    using pop_next_top by blast
  show "ready_inv rs \<Longrightarrow> a \<in> ready_entries rs \<Longrightarrow> b \<in> ready_entries rs
      \<Longrightarrow> entry_ident a = entry_ident b \<Longrightarrow> a = b"
    using heapq.ident_inj [of "bucket rs (entry_class a)"
        "order_key_new (entry_score a) (entry_job a)" "order_key_new (entry_score b) (entry_job b)"]
    by (cases a; cases b)
      (simp add: ready_inv_def ready_entries_def entry_ident_def order_key_new_def key_job_def)
  show "ready_inv rs \<Longrightarrow> push_ok (bucket rs (entry_class e)) (entry_job e) \<Longrightarrow>
      \<exists>q'. reinsert rs e = Some q' \<and> ready_inv q'
        \<and> ready_entries q' = insert e {x \<in> ready_entries rs. entry_ident x \<noteq> entry_ident e}"
    using ready_insert_spec [of rs "entry_class e" "entry_job e" "entry_score e"]
    by (cases e) (simp add: reinsert_def entry_ident_def)
  show "ready_inv rs \<Longrightarrow>
      \<exists>q'. (case k of (c, j) \<Rightarrow> ready_remove rs c j) = Some (q', k \<in> entry_ident ` ready_entries rs)
        \<and> ready_inv q' \<and> ready_entries q' = {x \<in> ready_entries rs. entry_ident x \<noteq> k}"
    using ready_remove_spec [of rs "fst k" "snd k"] by (cases k) simp
qed

section \<open>The remaining operations\<close>

lemma ready_new_spec: "ready_inv ready_new" "ready_entries ready_new = {}"
  by (auto simp: ready_inv_def ready_new_def ready_entries_def heap_new_spec)

lemma ready_reserve_spec:
  assumes "ready_inv rs"
  shows "ready_inv (ready_reserve_slots rs n)"
    and "ready_entries (ready_reserve_slots rs n) = ready_entries rs"
    and "bucket (ready_reserve_slots rs n) c = heap_reserve_slots (bucket rs c) n"
proof -
  have b: "bucket (ready_reserve_slots rs n) c = heap_reserve_slots (bucket rs c) n" for c
    using assms by (simp add: ready_reserve_slots_def)
  have "heap_inv (bucket rs c)" for c using assms by (simp add: ready_inv_def)
  note h = heap_reserve_spec [OF this]
  show "ready_inv (ready_reserve_slots rs n)"
    using assms b h by (simp add: ready_inv_def) (simp add: ready_reserve_slots_def)
  show "ready_entries (ready_reserve_slots rs n) = ready_entries rs"
    by (simp add: ready_entries_def b h)
  show "bucket (ready_reserve_slots rs n) c = heap_reserve_slots (bucket rs c) n" by (rule b)
qed

lemma index_is_class:
  assumes "i < class_COUNT"
  shows "\<exists>c. i = unat (ordinal c)"
proof -
  have "i \<in> {0, 1, 2, 3}" using assms by (auto simp: class_COUNT_def)
  moreover have "unat (ordinal Low) = 0" "unat (ordinal Normal) = 1" "unat (ordinal High) = 2"
    "unat (ordinal Urgent) = 3" by simp_all
  ultimately show ?thesis by (metis insertE singletonD)
qed

lemma buckets_by_class:
  assumes "ready_inv rs"
  shows "rs_buckets rs = map (bucket rs) class_ALL"
proof (rule nth_equalityI)
  show "length (rs_buckets rs) = length (map (bucket rs) class_ALL)"
    using assms by (simp add: ready_inv_def class_COUNT_def class_ALL_def)
  fix i assume "i < length (rs_buckets rs)"
  then obtain c where "i = unat (ordinal c)"
    using assms index_is_class by (auto simp: ready_inv_def)
  moreover have "unat (ordinal c) < length class_ALL"
    using ordinal_lt_COUNT [of c] by (simp add: class_COUNT_def class_ALL_def)
  ultimately show "rs_buckets rs ! i = map (bucket rs) class_ALL ! i" by simp
qed

lemma ready_is_empty_iff:
  assumes "ready_inv rs"
  shows "ready_is_empty rs \<longleftrightarrow> ready_entries rs = {}"
proof -
  have e: "heap_is_empty (bucket rs c) \<longleftrightarrow> heap_entries (bucket rs c) = {}" for c
    using assms heap_jobs [of "bucket rs c"] by (auto simp: ready_inv_def heap_inv_def heap_is_empty_def)
  have "ready_is_empty rs \<longleftrightarrow> (\<forall>c. heap_is_empty (bucket rs c))"
    unfolding ready_is_empty_def by (subst buckets_by_class [OF assms]) (simp add: list_all_iff)
  then show ?thesis by (simp add: e ready_entries_Union)
qed

lemma ready_len_card:
  assumes "ready_inv rs"
  shows "ready_len rs = card (ready_entries rs)"
proof -
  have h: "heap_len (bucket rs c) = card (heap_entries (bucket rs c))" for c
    using assms heap_entries_card by (simp add: ready_inv_def heap_inv_def)
  have inj: "inj_on (key_entry c) A" for c A
    by (auto simp: inj_on_def key_entry_def key_job_def intro: order_key.expand)
  have "card (ready_entries rs) = (\<Sum>c\<in>set class_ALL. card (key_entry c ` heap_entries (bucket rs c)))"
    unfolding ready_entries_Union set_class_ALL [symmetric]
    by (rule card_UN_disjoint) (auto simp: heap_entries_def key_entry_def simp del: set_class_ALL)
  also have "\<dots> = (\<Sum>c\<in>set class_ALL. heap_len (bucket rs c))"
    by (simp add: card_image [OF inj] h)
  also have "\<dots> = sum_list (map (\<lambda>c. heap_len (bucket rs c)) class_ALL)"
    by (rule sum_list_distinct_conv_sum_set [symmetric]) (simp add: class_ALL_def)
  also have "\<dots> = ready_len rs"
    unfolding ready_len_def by (subst (2) buckets_by_class [OF assms]) (simp add: comp_def)
  finally show ?thesis by simp
qed

lemma clear_buckets_spec:
  "\<forall>h\<in>set hs. heap_inv h \<Longrightarrow>
     \<exists>hs'. clear_buckets hs = Some hs' \<and> length hs' = length hs
       \<and> (\<forall>h\<in>set hs'. heap_inv h \<and> heap_entries h = {})"
proof (induction hs)
  case (Cons h hs)
  then obtain hs' where "clear_buckets hs = Some hs'" "length hs' = length hs"
    "\<forall>h\<in>set hs'. heap_inv h \<and> heap_entries h = {}" by auto
  moreover from Cons.prems heap_clear_spec [of h] obtain h' where
    "heap_clear h = Some h'" "heap_inv h'" "heap_entries h' = {}" by auto
  ultimately show ?case by simp
qed simp

lemma ready_clear_spec:
  assumes "ready_inv rs"
  shows "\<exists>rs'. ready_clear rs = Some rs' \<and> ready_inv rs' \<and> ready_entries rs' = {}"
proof -
  have "\<forall>h\<in>set (rs_buckets rs). heap_inv h"
    using assms by (subst buckets_by_class [OF assms]) (simp add: ready_inv_def)
  with clear_buckets_spec obtain bs where bs: "clear_buckets (rs_buckets rs) = Some bs"
    "length bs = length (rs_buckets rs)" "\<forall>h\<in>set bs. heap_inv h \<and> heap_entries h = {}" by blast
  have "bs ! unat (ordinal c) \<in> set bs" for c using bs(2) assms by simp
  with bs assms show ?thesis by (auto simp: ready_clear_def ready_inv_def ready_entries_def)
qed

section \<open>Draining\<close>

lemma drain_loop_pops:
  "drain_loop n rs out = do { (rs', es) \<leftarrow> ready.pops n rs; Some (rs', out @ es) }"
proof (induction n arbitrary: rs out)
  case (Suc n)
  show ?case
  proof (cases "pop_next rs")
    case (Some x)
    then obtain rs' r where "pop_next rs = Some (rs', r)" by (cases x) auto
    then show ?thesis by (cases r) (auto simp: Suc bind_assoc split_def)
  qed simp
qed simp

lemma drain_spec:
  assumes "ready_inv rs"
  shows "\<exists>rs' es. drain_ordered_into rs out n = Some (rs', es) \<and> ready_inv rs'
    \<and> length es = min n (card (ready_entries rs))
    \<and> sorted_wrt (\<lambda>a b. entry_rank b < entry_rank a) es \<and> set es \<subseteq> ready_entries rs
    \<and> ready_entries rs' = ready_entries rs - set es
    \<and> (\<forall>e\<in>set es. \<forall>x\<in>ready_entries rs'. entry_rank x < entry_rank e)"
  using ready.pops_spec [OF assms, of n]
  by (auto simp: drain_ordered_into_def drain_loop_pops)

section \<open>Properties\<close>

lemma ready_insert_step:
  assumes "ready_inv rs"
    and "length (ph_ids (bucket rs c)) < 2 ^ 32 - 1
      \<and> (\<forall>i\<in>set (ph_ids (bucket rs c)). job_index i = job_index j \<longrightarrow> i = j)"
    and "ready_insert rs c j sc = Some rs'"
  shows "ready_inv rs'"
proof -
  have "heap_inv (bucket rs c)" using assms(1) by (simp add: ready_inv_def)
  from push_okI [OF this, of j] assms(2) have "push_ok (bucket rs c) j" by (simp add: heap_len_def)
  from ready_insert_spec [OF assms(1) this, of sc] assms(3) show ?thesis by auto
qed

definition sample_ready :: ready_set where
  "sample_ready = the (do { rs \<leftarrow> ready_insert ready_new Normal 1 700;
     rs \<leftarrow> ready_insert rs Urgent 2 100; ready_insert rs Normal 3 900 })"

lemma sample_ready_inv: "ready_inv sample_ready"
proof -
  define r1 r2 where "r1 = the (ready_insert ready_new Normal 1 700)"
    and "r2 = the (ready_insert r1 Urgent 2 100)"
  have p1: "ready_insert ready_new Normal 1 700 = Some r1" unfolding r1_def by code_simp
  have p2: "ready_insert r1 Urgent 2 100 = Some r2" unfolding r2_def r1_def by code_simp
  have p3: "ready_insert r2 Normal 3 900 = Some sample_ready"
    unfolding sample_ready_def r2_def r1_def by code_simp
  have ids: "ph_ids (bucket ready_new Normal) = []" "ph_ids (bucket r1 Urgent) = []"
    "ph_ids (bucket r2 Normal) = [1]" unfolding r2_def r1_def by code_simp+
  have ix: "job_index 1 \<noteq> job_index 3" by code_simp
  have "ready_inv r1" by (rule ready_insert_step [OF ready_new_spec(1) _ p1]) (simp only: ids, simp)
  then have "ready_inv r2" by (rule ready_insert_step [OF _ _ p2]) (simp only: ids, simp)
  then show ?thesis by (rule ready_insert_step [OF _ _ p3]) (simp only: ids, simp add: ix)
qed

text \<open>
  C26. Draining returns exactly the best entries in order: on any well-formed ready set it does
  not panic, it moves out as many entries as the limit and the set allow, in strictly
  decreasing rank (class first, then score, then age of the handle), every entry left behind
  ranks strictly below every entry drained, and nothing is lost or duplicated.
\<close>

theorem drain_is_priority_prefix:
  assumes "ready_inv rs"
  shows "\<exists>rs' es. drain_ordered_into rs out n = Some (rs', es) \<and> ready_inv rs'
    \<and> length es = min n (ready_len rs)
    \<and> sorted_wrt (\<lambda>a b. entry_rank b < entry_rank a) es
    \<and> set es \<union> ready_entries rs' = ready_entries rs \<and> set es \<inter> ready_entries rs' = {}
    \<and> (\<forall>e\<in>set es. \<forall>x\<in>ready_entries rs'. entry_rank x < entry_rank e)"
  using drain_spec [OF assms, of out n] unfolding ready_len_card [OF assms] by blast

theorem drain_is_priority_prefix_witness:
  "\<exists>rs' es. drain_ordered_into sample_ready [] 2 = Some (rs', es) \<and> length es = 2
     \<and> map entry_job es = [2, 3] \<and> set es \<union> ready_entries rs' = ready_entries sample_ready"
proof -
  have len: "ready_len sample_ready = 3" by code_simp
  have jobs: "map_option (\<lambda>(rs, es). map entry_job es) (drain_ordered_into sample_ready [] 2) = Some [2, 3]"
    by code_simp
  from drain_is_priority_prefix [OF sample_ready_inv, of "[]" 2] len obtain rs' es where
    "drain_ordered_into sample_ready [] 2 = Some (rs', es)" "length es = 2"
    "set es \<union> ready_entries rs' = ready_entries sample_ready" by auto
  with jobs show ?thesis by auto
qed

text \<open>
  The ready set answers every query exactly and its operations change exactly what they
  name: insertion adds or rescores one job of one class, removal deletes it and says whether it
  was there, peeking shows what popping would return, the length is the number of entries, and
  clearing empties every class.
\<close>

theorem ready_set_operations:
  assumes "ready_inv rs"
  shows "(push_ok (bucket rs c) j \<longrightarrow> (\<exists>rs'. ready_insert rs c j sc = Some rs' \<and> ready_inv rs'
        \<and> ready_entries rs' = insert \<lparr>entry_class = c, entry_job = j, entry_score = sc\<rparr>
            {e \<in> ready_entries rs. entry_ident e \<noteq> (c, j)}))
    \<and> (\<exists>rs'. ready_remove rs c j = Some (rs', (c, j) \<in> entry_ident ` ready_entries rs) \<and> ready_inv rs'
        \<and> ready_entries rs' = {e \<in> ready_entries rs. entry_ident e \<noteq> (c, j)})
    \<and> (\<exists>rs' r. pop_next rs = Some (rs', r) \<and> peek_next rs = Some r \<and> ready_inv rs'
        \<and> (r = None \<longleftrightarrow> ready_is_empty rs))
    \<and> ready_len rs = card (ready_entries rs) \<and> (ready_is_empty rs \<longleftrightarrow> ready_entries rs = {})
    \<and> (\<exists>rs'. ready_clear rs = Some rs' \<and> ready_inv rs' \<and> ready_entries rs' = {})"
proof (intro conjI impI)
  show "\<exists>rs' r. pop_next rs = Some (rs', r) \<and> peek_next rs = Some r \<and> ready_inv rs'
      \<and> (r = None \<longleftrightarrow> ready_is_empty rs)"
    using pop_next_empty [OF assms] pop_next_top [OF assms] assms
    by (cases "ready_entries rs = {}") (auto simp: ready_is_empty_iff)
qed (use assms ready_insert_spec ready_remove_spec ready_len_card ready_is_empty_iff ready_clear_spec
    in \<open>blast+\<close>)

theorem ready_set_operations_witness:
  "(\<exists>rs'. ready_remove sample_ready Urgent 2 = Some (rs', True) \<and> ready_inv rs')
   \<and> ready_len sample_ready = card (ready_entries sample_ready)"
proof -
  note w = ready_set_operations [OF sample_ready_inv, of Urgent 2 0]
  have "map_option snd (ready_remove sample_ready Urgent 2) = Some True" by code_simp
  with w show ?thesis by auto
qed

end
