(* ===== verification/Pack.thy ===== *)
theory Pack
  imports Slot_Inventory Ready_Set
begin

text \<open>
  Greedy packing (\<open>policy/pack.rs\<close>): candidates in priority order are placed by first fit until one
  fits nowhere. The allocator contract of the inventory carries the proofs.
\<close>

section \<open>State and operations\<close>

record dispatch_decision =
  dec_job :: job_id
  dec_slot :: slot_index

datatype disposition = Pending | Dispatched | Dropped

record pack_budget =
  max_decisions :: nat
  max_scanned :: nat

definition pack_budget_default :: pack_budget where
  "pack_budget_default = \<lparr>max_decisions = 2 ^ 64 - 1, max_scanned = 2 ^ 64 - 1\<rparr>"

record pack_outcome =
  po_scanned :: nat
  po_dispatched :: nat
  po_head :: "nat option"
  po_budget_exhausted :: bool

definition pack_outcome_default :: pack_outcome where
  "pack_outcome_default =
     \<lparr>po_scanned = 0, po_dispatched = 0, po_head = None, po_budget_exhausted = False\<rparr>"

text \<open>The loop over the candidates, from position \<open>index\<close> on.\<close>

fun pack_loop ::
  "nat \<Rightarrow> ready_entry list \<Rightarrow> job arena \<Rightarrow> slot_inventory \<Rightarrow> pack_budget \<Rightarrow> disposition list
     \<Rightarrow> dispatch_decision list \<Rightarrow> pack_outcome
     \<Rightarrow> (slot_inventory \<times> disposition list \<times> dispatch_decision list \<times> pack_outcome) option" where
  "pack_loop index [] jobs iv budget disp decs out = Some (iv, disp, decs, out)"
| "pack_loop index (e # es) jobs iv budget disp decs out =
     (if po_dispatched out \<ge> max_decisions budget \<or> po_scanned out \<ge> max_scanned budget
      then Some (iv, disp, decs, out\<lparr>po_budget_exhausted := True\<rparr>)
      else case arena_get jobs (entry_job e) of
        None \<Rightarrow>
          do { disp \<leftarrow> vec_set disp index Dropped;
               pack_loop (index + 1) es jobs iv budget disp decs out }
      | Some j \<Rightarrow>
          let out = out\<lparr>po_scanned := po_scanned out + 1\<rparr> in
          do { fit \<leftarrow> first_fit iv (request j);
               case fit of
                 None \<Rightarrow> Some (iv, disp, decs, out\<lparr>po_head := Some index\<rparr>)
               | Some slot \<Rightarrow>
                   (case try_allocate iv slot (request j) of
                      Inl err \<Rightarrow> None
                    | Inr iv \<Rightarrow>
                        do { disp \<leftarrow> vec_set disp index Dispatched;
                             pack_loop (index + 1) es jobs iv budget disp
                               (decs @ [\<lparr>dec_job = entry_job e, dec_slot = slot\<rparr>])
                               (out\<lparr>po_dispatched := po_dispatched out + 1\<rparr>) }) })"

definition pack ::
  "ready_entry list \<Rightarrow> job arena \<Rightarrow> slot_inventory \<Rightarrow> pack_budget \<Rightarrow> disposition list
     \<Rightarrow> dispatch_decision list
     \<Rightarrow> (slot_inventory \<times> disposition list \<times> dispatch_decision list \<times> pack_outcome) option" where
  "pack candidates jobs iv budget disp decs =
     (if length candidates \<le> length disp
      then pack_loop 0 candidates jobs iv budget disp decs pack_outcome_default
      else None)"

section \<open>What a pass does\<close>

text \<open>Charging a list of decisions in order, each at the request of its job.\<close>

fun allocate_all :: "job arena \<Rightarrow> slot_inventory \<Rightarrow> dispatch_decision list \<Rightarrow> slot_inventory option" where
  "allocate_all jobs iv [] = Some iv"
| "allocate_all jobs iv (d # ds) =
     (case arena_get jobs (dec_job d) of
        None \<Rightarrow> None
      | Some j \<Rightarrow>
          (case try_allocate iv (dec_slot d) (request j) of
             Inl e \<Rightarrow> None
           | Inr iv' \<Rightarrow> allocate_all jobs iv' ds))"

text \<open>Every live candidate's request may be placed safely on the inventory.\<close>

definition all_sound :: "job arena \<Rightarrow> slot_inventory \<Rightarrow> ready_entry list \<Rightarrow> bool" where
  "all_sound jobs iv es \<longleftrightarrow>
     (\<forall>e\<in>set es. \<forall>j. arena_get jobs (entry_job e) = Some j \<longrightarrow> alloc_sound iv (request j))"

lemma all_sound_allocate:
  "all_sound jobs iv es \<Longrightarrow> try_allocate iv w r = Inr iv' \<Longrightarrow> all_sound jobs iv' es"
  by (auto simp: all_sound_def intro: slots.alloc_sound)

lemma all_sound_tail: "all_sound jobs iv (e # es) \<Longrightarrow> all_sound jobs iv es"
  by (simp add: all_sound_def)

text \<open>
  The effect of a pass from position \<open>k\<close> on the candidates \<open>es\<close>: how dispositions, decisions and
  the head relate to the candidates.
\<close>

definition placed_jobs :: "nat \<Rightarrow> disposition list \<Rightarrow> ready_entry list \<Rightarrow> job_id list" where
  "placed_jobs k disp es =
     map (\<lambda>i. entry_job (es ! i)) (filter (\<lambda>i. disp ! (k + i) = Dispatched) [0..<length es])"

lemma placed_jobs_Cons:
  "placed_jobs k disp (e # es) =
     (if disp ! k = Dispatched then [entry_job e] else []) @ placed_jobs (Suc k) disp es"
proof -
  have "[0..<length (e # es)] = 0 # map Suc [0..<length es]"
    by (simp only: map_Suc_upt list.size upt_conv_Cons) simp
  then show ?thesis
    unfolding placed_jobs_def by (simp add: filter_map comp_def del: upt_Suc)
qed

lemma pack_loop_total:
  assumes "all_sound jobs iv es" and "k + length es \<le> length disp"
  shows "\<exists>r. pack_loop k es jobs iv budget disp decs out = Some r"
  using assms
proof (induction es arbitrary: k iv disp decs out)
  case (Cons e es)
  have k: "k < length disp" "Suc k + length es \<le> length (disp[k := d])" for d
    using Cons.prems(2) by simp_all
  note tail = all_sound_tail [OF Cons.prems(1)]
  show ?case
  proof (cases "arena_get jobs (entry_job e)")
    case None
    then show ?thesis using Cons.IH [OF tail k(2)] k(1) by simp
  next
    case (Some j)
    with Cons.prems(1) have "alloc_sound iv (request j)" by (simp add: all_sound_def)
    then show ?thesis
    proof (cases rule: slots.fit_cases)
      case (placed w iv')
      from Cons.IH [OF all_sound_allocate [OF tail placed(2)] k(2)] Some placed k(1) show ?thesis
        by (simp add: Let_def)
    next
      case refused
      with Some show ?thesis by (simp add: Let_def)
    qed
  qed
qed simp

text \<open>
  The cases of one round, shared by the facts below. Each fact is about a pass that returned,
  which a pass on a sound inventory does.
\<close>

lemma pack_loop_cases:
  assumes "pack_loop k (e # es) jobs iv budget disp decs out = Some (iv', disp', decs', out')"
  obtains (stop) "iv' = iv" "disp' = disp" "decs' = decs" "out' = out\<lparr>po_budget_exhausted := True\<rparr>"
  | (stale) "arena_get jobs (entry_job e) = None" "k < length disp"
      "pack_loop (Suc k) es jobs iv budget (disp[k := Dropped]) decs out = Some (iv', disp', decs', out')"
  | (head) j where "arena_get jobs (entry_job e) = Some j" "first_fit iv (request j) = Some None"
      "iv' = iv" "disp' = disp" "decs' = decs"
      "out' = out\<lparr>po_scanned := po_scanned out + 1, po_head := Some k\<rparr>"
  | (place) j w iv1 where "arena_get jobs (entry_job e) = Some j"
      "first_fit iv (request j) = Some (Some w)" "try_allocate iv w (request j) = Inr iv1"
      "k < length disp"
      "pack_loop (Suc k) es jobs iv1 budget (disp[k := Dispatched])
         (decs @ [\<lparr>dec_job = entry_job e, dec_slot = w\<rparr>])
         (out\<lparr>po_scanned := po_scanned out + 1, po_dispatched := po_dispatched out + 1\<rparr>)
       = Some (iv', disp', decs', out')"
proof (cases "po_dispatched out \<ge> max_decisions budget \<or> po_scanned out \<ge> max_scanned budget")
  case True
  with assms show thesis by (intro stop) simp_all
next
  case False
  show thesis
  proof (cases "arena_get jobs (entry_job e)")
    case None
    with False assms show thesis by (intro stale) (simp_all add: vec_set_Some_iff)
  next
    case (Some j)
    show thesis
    proof (cases "first_fit iv (request j)")
      case None
      with False Some assms show thesis by (simp add: Let_def)
    next
      case fit: (Some f)
      show thesis
      proof (cases f)
        case None
        with False Some fit assms show thesis by (intro head [OF Some]) (simp_all add: Let_def)
      next
        case slot: (Some w)
        show thesis
        proof (cases "try_allocate iv w (request j)")
          case (Inl err)
          with False Some fit slot assms show thesis by (simp add: Let_def)
        next
          case (Inr iv1)
          with False Some fit slot assms have "k < length disp \<and>
            pack_loop (Suc k) es jobs iv1 budget (disp[k := Dispatched])
              (decs @ [\<lparr>dec_job = entry_job e, dec_slot = w\<rparr>])
              (out\<lparr>po_scanned := po_scanned out + 1, po_dispatched := po_dispatched out + 1\<rparr>)
            = Some (iv', disp', decs', out')"
            by (simp add: Let_def vec_set_Some_iff)
          then show thesis using fit slot by (intro place [OF Some _ Inr]) simp_all
        qed
      qed
    qed
  qed
qed

lemma pack_loop_frame:
  "pack_loop k es jobs iv budget disp decs out = Some (iv', disp', decs', out') \<Longrightarrow>
     length disp' = length disp \<and> (\<forall>i < k. disp' ! i = disp ! i)"
proof (induction es arbitrary: k iv disp decs out)
  case (Cons e es)
  from Cons.prems show ?case
  proof (cases rule: pack_loop_cases)
    case stale
    from Cons.IH [OF stale(3)] show ?thesis by simp
  next
    case (place j w iv1)
    from Cons.IH [OF place(5)] show ?thesis by simp
  qed simp_all
qed simp

lemma pack_loop_decisions:
  "pack_loop k es jobs iv budget disp decs out = Some (iv', disp', decs', out') \<Longrightarrow>
     \<exists>new. decs' = decs @ new \<and> allocate_all jobs iv new = Some iv'
       \<and> po_dispatched out' = po_dispatched out + length new"
proof (induction es arbitrary: k iv disp decs out)
  case (Cons e es)
  from Cons.prems show ?case
  proof (cases rule: pack_loop_cases)
    case stale
    from Cons.IH [OF stale(3)] show ?thesis by simp
  next
    case (place j w iv1)
    from Cons.IH [OF place(5)] obtain new where
      "decs' = decs @ \<lparr>dec_job = entry_job e, dec_slot = w\<rparr> # new" "allocate_all jobs iv1 new = Some iv'"
      "po_dispatched out' = po_dispatched out + 1 + length new" by auto
    with place(1,3) show ?thesis
      by (intro exI [of _ "\<lparr>dec_job = entry_job e, dec_slot = w\<rparr> # new"]) simp
  qed simp_all
qed simp

lemma pack_loop_dispositions:
  "pack_loop k es jobs iv budget disp decs out = Some (iv', disp', decs', out') \<Longrightarrow> i < length es \<Longrightarrow>
     disp' ! (k + i) = disp ! (k + i)
     \<or> disp' ! (k + i) = Dropped \<and> arena_get jobs (entry_job (es ! i)) = None
     \<or> disp' ! (k + i) = Dispatched \<and> arena_get jobs (entry_job (es ! i)) \<noteq> None"
proof (induction es arbitrary: k iv disp decs out i)
  case (Cons e es)
  from Cons.prems(1) show ?case
  proof (cases rule: pack_loop_cases)
    case stale
    note IH = Cons.IH [OF stale(3)] and fr = pack_loop_frame [OF stale(3)]
    from stale(1,2) IH [of "i - 1"] fr Cons.prems(2) show ?thesis by (cases i) auto
  next
    case (place j w iv1)
    note IH = Cons.IH [OF place(5)] and fr = pack_loop_frame [OF place(5)]
    from place(1,4) IH [of "i - 1"] fr Cons.prems(2) show ?thesis by (cases i) auto
  qed simp_all
qed simp

lemma pack_loop_placed:
  "pack_loop k es jobs iv budget disp decs out = Some (iv', disp', decs', out') \<Longrightarrow>
     \<forall>i < length es. disp ! (k + i) = Pending \<Longrightarrow>
     map dec_job decs' = map dec_job decs @ placed_jobs k disp' es"
proof (induction es arbitrary: k iv disp decs out)
  case Nil
  then show ?case by (simp add: placed_jobs_def)
next
  case (Cons e es)
  have none: "placed_jobs k disp (e # es) = []"
    unfolding placed_jobs_def map_is_Nil_conv filter_empty_conv using Cons.prems(2) by auto
  have tail: "\<forall>i < length es. disp[k := d] ! (Suc k + i) = Pending" for d
    using Cons.prems(2) by auto
  from Cons.prems(1) show ?case
  proof (cases rule: pack_loop_cases)
    case stale
    from Cons.IH [OF stale(3) tail] pack_loop_frame [OF stale(3)] stale(2) show ?thesis
      by (simp add: placed_jobs_Cons)
  next
    case (place j w iv1)
    from Cons.IH [OF place(5) tail] pack_loop_frame [OF place(5)] place(4) show ?thesis
      by (simp add: placed_jobs_Cons)
  qed (simp_all add: none)
qed

lemma pack_loop_head:
  "pack_loop k es jobs iv budget disp decs out = Some (iv', disp', decs', out') \<Longrightarrow>
     po_head out = None \<Longrightarrow> po_head out' = Some h \<Longrightarrow>
     k \<le> h \<and> h < k + length es
     \<and> (\<exists>j. arena_get jobs (entry_job (es ! (h - k))) = Some j \<and> first_fit iv' (request j) = Some None)
     \<and> (\<forall>i. k \<le> i \<longrightarrow> i < h \<longrightarrow> disp' ! i \<noteq> Pending)
     \<and> (\<forall>i. h \<le> i \<longrightarrow> i < k + length es \<longrightarrow> disp' ! i = disp ! i)"
proof (induction es arbitrary: k iv disp decs out)
  case (Cons e es)
  have lift: "k \<le> h \<and> h < k + length (e # es)
     \<and> (\<exists>j. arena_get jobs (entry_job ((e # es) ! (h - k))) = Some j \<and> first_fit iv' (request j) = Some None)
     \<and> (\<forall>i. k \<le> i \<longrightarrow> i < h \<longrightarrow> disp' ! i \<noteq> Pending)
     \<and> (\<forall>i. h \<le> i \<longrightarrow> i < k + length (e # es) \<longrightarrow> disp' ! i = disp ! i)"
    if "Suc k \<le> h \<and> h < Suc k + length es
     \<and> (\<exists>j. arena_get jobs (entry_job (es ! (h - Suc k))) = Some j \<and> first_fit iv' (request j) = Some None)
     \<and> (\<forall>i. Suc k \<le> i \<longrightarrow> i < h \<longrightarrow> disp' ! i \<noteq> Pending)
     \<and> (\<forall>i. h \<le> i \<longrightarrow> i < Suc k + length es \<longrightarrow> disp' ! i = disp[k := d] ! i)"
      and "disp' ! k = d" "d \<noteq> Pending" for d
  proof -
    from that(1) have "(e # es) ! (h - k) = es ! (h - Suc k)" by (simp add: nth_Cons')
    moreover have "disp' ! i \<noteq> Pending" if "k \<le> i" "i < h" for i
      using that \<open>disp' ! k = d\<close> \<open>d \<noteq> Pending\<close> \<open>Suc k \<le> h \<and> _\<close> by (cases "i = k") auto
    ultimately show ?thesis using that(1) by auto
  qed
  from Cons.prems(1) show ?case
  proof (cases rule: pack_loop_cases)
    case stop
    with Cons.prems show ?thesis by simp
  next
    case stale
    show ?thesis
      by (rule lift [OF Cons.IH [OF stale(3) Cons.prems(2,3)]])
        (use pack_loop_frame [OF stale(3)] stale(2) in simp_all)
  next
    case (head j)
    with Cons.prems have "h = k" by simp
    with head show ?thesis by auto
  next
    case (place j w iv1)
    have "po_head (out\<lparr>po_scanned := po_scanned out + 1, po_dispatched := po_dispatched out + 1\<rparr>) = None"
      using Cons.prems(2) by simp
    then show ?thesis
      by (rule lift [OF Cons.IH [OF place(5) _ Cons.prems(3)]])
        (use pack_loop_frame [OF place(5)] place(4) in simp_all)
  qed
qed simp

lemma pack_loop_done:
  "pack_loop k es jobs iv budget disp decs out = Some (iv', disp', decs', out') \<Longrightarrow>
     po_head out' = None \<Longrightarrow> \<not> po_budget_exhausted out' \<Longrightarrow> i < length es \<Longrightarrow> disp' ! (k + i) \<noteq> Pending"
proof (induction es arbitrary: k iv disp decs out i)
  case (Cons e es)
  from Cons.prems(1) show ?case
  proof (cases rule: pack_loop_cases)
    case stale
    from Cons.IH [OF stale(3) Cons.prems(2,3), of "i - 1"] pack_loop_frame [OF stale(3)] stale(2)
      Cons.prems(4) show ?thesis by (cases i) auto
  next
    case (place j w iv1)
    from Cons.IH [OF place(5) Cons.prems(2,3), of "i - 1"] pack_loop_frame [OF place(5)] place(4)
      Cons.prems(4) show ?thesis by (cases i) auto
  qed (use Cons.prems in simp_all)
qed simp

lemma run_all_sound:
  assumes "inventory_run iv"
    and "\<forall>e\<in>set es. \<forall>j. arena_get jobs (entry_job e) = Some j \<longrightarrow> request j \<noteq> ZERO"
  shows "all_sound jobs iv es"
  using assms inventory_run_drained drained_or_within_sound by (fastforce simp: all_sound_def)

lemma allocate_all_run:
  "inventory_run iv \<Longrightarrow> allocate_all jobs iv ds = Some iv' \<Longrightarrow> inventory_run iv'"
  by (induction ds arbitrary: iv) (auto split: option.splits sum.splits intro: run_allocate)

section \<open>Properties\<close>

definition zero_job :: job where
  "zero_job = job_new 0 Normal 0 ZERO 1"

definition pack_arena :: "job arena" where
  "pack_arena = (case arena_insert arena_new (job_new 0 Normal 0 sample_request 1) of
     Some (a, i) \<Rightarrow> a | None \<Rightarrow> arena_new)"

definition zero_arena :: "job arena" where
  "zero_arena = (case arena_insert arena_new zero_job of Some (a, i) \<Rightarrow> a | None \<Rightarrow> arena_new)"

definition sample_candidates :: "ready_entry list" where
  "sample_candidates = [\<lparr>entry_class = Normal, entry_job = 0, entry_score = 7\<rparr>,
     \<lparr>entry_class = Normal, entry_job = 0, entry_score = 5\<rparr>]"

text \<open>
  C24. Packing never panics when every live candidate asks for something, on any inventory the
  daemon can reach. The decisions it appends are the dispatched candidates in candidate order,
  and charging them in that order gives the resulting inventory. Only stale handles are dropped.
  If it names a head, that candidate fits nowhere in the resulting inventory, everything before
  it was settled and everything from it on is still pending; if it names none and the budget was
  not exhausted, every candidate was settled.
\<close>

theorem pack_places_in_order:
  assumes "inventory_run iv"
    and "\<forall>e\<in>set es. \<forall>j. arena_get jobs (entry_job e) = Some j \<longrightarrow> request j \<noteq> ZERO"
  shows "\<exists>iv' disp new out.
     pack es jobs iv budget (replicate (length es) Pending) decs = Some (iv', disp, decs @ new, out)
     \<and> allocate_all jobs iv new = Some iv' \<and> inventory_run iv'
     \<and> map dec_job new = placed_jobs 0 disp es
     \<and> (\<forall>i < length es. disp ! i = Dropped \<longrightarrow> arena_get jobs (entry_job (es ! i)) = None)
     \<and> (po_head out = None \<longrightarrow> po_budget_exhausted out \<or> (\<forall>i < length es. disp ! i \<noteq> Pending))
     \<and> (\<forall>h. po_head out = Some h \<longrightarrow> h < length es
          \<and> (\<exists>j. arena_get jobs (entry_job (es ! h)) = Some j
               \<and> (\<forall>s\<in>set (inv_slots iv'). \<not> fits_within (request j) (slot_free s)))
          \<and> (\<forall>i < h. disp ! i \<noteq> Pending) \<and> (\<forall>i. h \<le> i \<longrightarrow> i < length es \<longrightarrow> disp ! i = Pending))"
proof -
  let ?disp = "replicate (length es) Pending"
  from pack_loop_total [OF run_all_sound [OF assms], where k = 0 and disp = ?disp
      and budget = budget and decs = decs and out = pack_outcome_default]
  obtain iv' disp decs' out where
    run: "pack_loop 0 es jobs iv budget ?disp decs pack_outcome_default = Some (iv', disp, decs', out)"
    by auto
  from pack_loop_decisions [OF run] obtain new where
    new: "decs' = decs @ new" "allocate_all jobs iv new = Some iv'" by auto
  from pack_loop_placed [OF run] new(1) have placed: "map dec_job new = placed_jobs 0 disp es" by simp
  from pack_loop_dispositions [OF run] have
    drop: "\<forall>i < length es. disp ! i = Dropped \<longrightarrow> arena_get jobs (entry_job (es ! i)) = None" by fastforce
  from pack_loop_done [OF run] have
    done_: "po_head out = None \<longrightarrow> po_budget_exhausted out \<or> (\<forall>i < length es. disp ! i \<noteq> Pending)"
    by auto
  have head: "h < length es
      \<and> (\<exists>j. arena_get jobs (entry_job (es ! h)) = Some j
           \<and> (\<forall>s\<in>set (inv_slots iv'). \<not> fits_within (request j) (slot_free s)))
      \<and> (\<forall>i < h. disp ! i \<noteq> Pending) \<and> (\<forall>i. h \<le> i \<longrightarrow> i < length es \<longrightarrow> disp ! i = Pending)"
    if "po_head out = Some h" for h
    using pack_loop_head [OF run _ that] by (simp add: pack_outcome_default_def first_fit_None)
  show ?thesis
    using run new allocate_all_run [OF assms(1) new(2)] placed drop done_ head
    by (intro exI [of _ iv'] exI [of _ disp] exI [of _ new] exI [of _ out]) (simp add: pack_def)
qed

theorem pack_places_in_order_witness:
  "\<exists>iv' disp new out. pack sample_candidates pack_arena sample_inventory pack_budget_default
       (replicate (length sample_candidates) Pending) [] = Some (iv', disp, [] @ new, out)
     \<and> allocate_all pack_arena sample_inventory new = Some iv'"
proof -
  have "inventory_run sample_inventory"
    unfolding sample_inventory_def by (rule run_capacities) simp
  moreover have "\<forall>e\<in>set sample_candidates.
      \<forall>j. arena_get pack_arena (entry_job e) = Some j \<longrightarrow> request j \<noteq> ZERO"
  proof -
    have "arena_get pack_arena 0 = Some (job_new 0 Normal 0 sample_request 1)" by code_simp
    then show ?thesis by (simp add: sample_candidates_def job_new_def sample_request_def ZERO_def)
  qed
  ultimately show ?thesis
    using pack_places_in_order [of sample_inventory sample_candidates pack_arena] by blast
qed


end
