(* ===== verification/Backfill.thy ===== *)
theory Backfill
  imports Pack
begin

text \<open>
  EASY backfill (\<open>policy/backfill.rs\<close>): the head job gets a reservation, the earliest time it can
  start if every running job keeps its slot until its deadline; jobs behind it may start now if
  they do not push that time later. The reusable buffers of \<open>BackfillScratch\<close> are emptied before
  every use and carry nothing from call to call, so they are local values here.
\<close>

section \<open>State and operations\<close>

record running_job =
  run_job :: job_id
  run_slot :: slot_index
  run_resources :: resources
  run_ends_at :: virtual_time

text \<open>
  The completions of one slot, earliest first. The code sorts unstably; \<open>sort_key\<close> is one order
  it may produce, and \<open>replay_order_irrelevant\<close> below shows that any other gives the same answer.
\<close>

definition slot_completions :: "running_job list \<Rightarrow> slot_index \<Rightarrow> (virtual_time \<times> resources) list" where
  "slot_completions running slot =
     sort_key fst (map (\<lambda>r. (run_ends_at r, run_resources r)) (filter (\<lambda>r. run_slot r = slot) running))"

fun replay_completions ::
  "resources \<Rightarrow> resources \<Rightarrow> (virtual_time \<times> resources) list \<Rightarrow> virtual_time option" where
  "replay_completions req free [] = None"
| "replay_completions req free ((ends_at, resources) # cs) =
     (let free = res_saturating_add free resources
      in if fits_within req free then Some ends_at else replay_completions req free cs)"

fun reservation_loop ::
  "slot_index list \<Rightarrow> resources \<Rightarrow> slot_inventory \<Rightarrow> running_job list \<Rightarrow> virtual_time
     \<Rightarrow> virtual_time option \<Rightarrow> virtual_time option" where
  "reservation_loop [] req iv running now earliest = earliest"
| "reservation_loop (slot_index # ws) req iv running now earliest =
     (case inv_slot iv slot_index of
        None \<Rightarrow> None
      | Some slot \<Rightarrow>
          if \<not> fits_within req (capacity slot)
          then reservation_loop ws req iv running now earliest
          else if fits_within req (slot_free slot) then Some now
          else case replay_completions req (slot_free slot) (slot_completions running slot_index) of
              None \<Rightarrow> reservation_loop ws req iv running now earliest
            | Some ends_at \<Rightarrow> reservation_loop ws req iv running now
                (Some (case earliest of Some current \<Rightarrow> min current ends_at | None \<Rightarrow> ends_at)))"

definition reservation_time ::
  "resources \<Rightarrow> slot_inventory \<Rightarrow> running_job list \<Rightarrow> virtual_time \<Rightarrow> virtual_time option option" where
  "reservation_time req iv running now =
     do { len \<leftarrow> inv_len iv;
          Some (reservation_loop (map of_nat [0..<unat len]) req iv running now None) }"

record backfill_outcome =
  bo_considered :: nat
  bo_backfilled :: nat
  bo_reservation :: "virtual_time option"

definition backfill_outcome_default :: backfill_outcome where
  "backfill_outcome_default = \<lparr>bo_considered = 0, bo_backfilled = 0, bo_reservation = None\<rparr>"

text \<open>
  Whether a candidate that fits on \<open>slot\<close> may start, and the inventory afterwards: charged if it
  may, as before if it may not. This is the body of the loop from \<open>let harmless\<close> to the second
  allocation.
\<close>

definition try_backfill ::
  "job_id \<Rightarrow> job \<Rightarrow> slot_index \<Rightarrow> slot_inventory \<Rightarrow> running_job list \<Rightarrow> virtual_time \<Rightarrow> resources
     \<Rightarrow> virtual_time \<Rightarrow> (bool \<times> slot_inventory) option" where
  "try_backfill job_id j slot iv running now head_request reservation =
     (let ends_at = time_saturating_add now (walltime_limit j)
      in if ends_at \<le> reservation
         then (case try_allocate iv slot (request j) of Inl err \<Rightarrow> None | Inr iv \<Rightarrow> Some (True, iv))
         else case try_allocate iv slot (request j) of
             Inl err \<Rightarrow> None
           | Inr iv \<Rightarrow>
               do { recomputed \<leftarrow> reservation_time head_request iv
                      (running @ [\<lparr>run_job = job_id, run_slot = slot, run_resources = request j,
                                   run_ends_at = ends_at\<rparr>]) now;
                    if (case recomputed of Some at \<Rightarrow> at \<le> reservation | None \<Rightarrow> False)
                    then Some (True, iv)
                    else case release iv slot (request j) of
                        Inl err \<Rightarrow> None
                      | Inr iv \<Rightarrow> Some (False, iv) })"

fun backfill_loop ::
  "nat \<Rightarrow> ready_entry list \<Rightarrow> job arena \<Rightarrow> slot_inventory \<Rightarrow> running_job list \<Rightarrow> virtual_time
     \<Rightarrow> pack_budget \<Rightarrow> resources \<Rightarrow> virtual_time \<Rightarrow> disposition list \<Rightarrow> dispatch_decision list
     \<Rightarrow> backfill_outcome
     \<Rightarrow> (slot_inventory \<times> disposition list \<times> dispatch_decision list \<times> backfill_outcome) option" where
  "backfill_loop index [] jobs iv running now budget head_request reservation disp decs out =
     Some (iv, disp, decs, out)"
| "backfill_loop index (e # es) jobs iv running now budget head_request reservation disp decs out =
     (if bo_backfilled out \<ge> max_decisions budget \<or> bo_considered out \<ge> max_scanned budget
      then Some (iv, disp, decs, out)
      else case arena_get jobs (entry_job e) of
        None \<Rightarrow>
          do { disp \<leftarrow> vec_set disp index Dropped;
               backfill_loop (index + 1) es jobs iv running now budget head_request reservation
                 disp decs out }
      | Some j \<Rightarrow>
          let out = out\<lparr>bo_considered := bo_considered out + 1\<rparr>
          in do { fit \<leftarrow> first_fit iv (request j);
               case fit of
                 None \<Rightarrow> backfill_loop (index + 1) es jobs iv running now budget head_request
                           reservation disp decs out
               | Some slot \<Rightarrow>
                   do { (harmless, iv) \<leftarrow> try_backfill (entry_job e) j slot iv running now
                          head_request reservation;
                        if \<not> harmless
                        then backfill_loop (index + 1) es jobs iv running now budget head_request
                               reservation disp decs out
                        else do { disp \<leftarrow> vec_set disp index Dispatched;
                                  backfill_loop (index + 1) es jobs iv running now budget
                                    head_request reservation disp
                                    (decs @ [\<lparr>dec_job = entry_job e, dec_slot = slot\<rparr>])
                                    (out\<lparr>bo_backfilled := bo_backfilled out + 1\<rparr>) } } })"

definition easy_backfill ::
  "ready_entry list \<Rightarrow> nat \<Rightarrow> job arena \<Rightarrow> slot_inventory \<Rightarrow> running_job list \<Rightarrow> virtual_time
     \<Rightarrow> pack_budget \<Rightarrow> disposition list \<Rightarrow> dispatch_decision list
     \<Rightarrow> (slot_inventory \<times> disposition list \<times> dispatch_decision list \<times> backfill_outcome) option" where
  "easy_backfill candidates head_index jobs iv running now budget disp decs =
     (if length candidates \<le> length disp \<and> head_index < length candidates
      then case arena_get jobs (entry_job (candidates ! head_index)) of
          None \<Rightarrow> Some (iv, disp, decs, backfill_outcome_default)
        | Some head_job \<Rightarrow>
            do { reservation \<leftarrow> reservation_time (request head_job) iv running now;
                 let out = backfill_outcome_default\<lparr>bo_reservation := reservation\<rparr>
                 in case reservation of
                     None \<Rightarrow> Some (iv, disp, decs, out)
                   | Some reservation \<Rightarrow>
                       backfill_loop (head_index + 1) (drop (head_index + 1) candidates) jobs iv
                         running now budget (request head_job) reservation disp decs out }
      else None)"

section \<open>The reservation of a request\<close>

abbreviation res_total :: "resources \<Rightarrow> resources list \<Rightarrow> resources" where
  "res_total \<equiv> foldl res_saturating_add"

lemma fits_total_prefix:
  assumes "fits_within req free"
  shows "fits_within req (res_total free rs)"
  unfolding fits_foldl_add_iff using assms by (auto simp: fits_within_dims intro: trans_le_add1)

lemma replay_le_iff:
  assumes "sorted (map fst cs)" and "\<not> fits_within req free"
  shows "(\<exists>at. replay_completions req free cs = Some at \<and> at \<le> t)
     \<longleftrightarrow> fits_within req (res_total free (map snd (filter (\<lambda>c. fst c \<le> t) cs)))"
  using assms
proof (induction cs arbitrary: free)
  case (Cons c cs)
  obtain e r where c: "c = (e, r)" by (cases c)
  have none: "filter (\<lambda>c. fst c \<le> t) cs = []" if "\<not> e \<le> t"
    using Cons.prems(1) that by (auto simp: c filter_empty_conv)
  show ?case
  proof (cases "fits_within req (res_saturating_add free r)")
    case True
    then show ?thesis using none fits_total_prefix [OF True] Cons.prems(2) by (auto simp: c)
  next
    case False
    with Cons.IH [OF _ False] Cons.prems none show ?thesis by (auto simp: c Let_def)
  qed
qed simp

lemma option_le_ext:
  fixes a b :: "'a::linorder option"
  assumes "\<And>t. (\<exists>x. a = Some x \<and> x \<le> t) \<longleftrightarrow> (\<exists>x. b = Some x \<and> x \<le> t)"
  shows "a = b"
proof (cases a)
  case None
  with assms show ?thesis by (cases b) auto
next
  case (Some x)
  with assms [of x] obtain y where y: "b = Some y" "y \<le> x" by auto
  with assms [of y] Some show ?thesis by auto
qed

lemma sum_list_mset_cong:
  fixes f :: "'a \<Rightarrow> nat"
  assumes "mset xs = mset ys"
  shows "(\<Sum>x\<leftarrow>xs. f x) = (\<Sum>y\<leftarrow>ys. f y)"
  using assms by (metis mset_map sum_mset_sum_list)

lemma replay_order_irrelevant:
  assumes "\<not> fits_within req free" and "mset cs = mset cs'"
    and "sorted (map fst cs)" and "sorted (map fst cs')"
  shows "replay_completions req free cs = replay_completions req free cs'"
proof (rule option_le_ext)
  fix t :: virtual_time
  let ?in = "\<lambda>cs. map snd (filter (\<lambda>c. fst c \<le> t) cs)"
  have "(\<Sum>r\<leftarrow>?in cs. dim_of d r) = (\<Sum>r\<leftarrow>?in cs'. dim_of d r)" for d
    by (rule sum_list_mset_cong) (simp add: assms(2))
  then show "(\<exists>x. replay_completions req free cs = Some x \<and> x \<le> t)
      \<longleftrightarrow> (\<exists>x. replay_completions req free cs' = Some x \<and> x \<le> t)"
    by (simp add: replay_le_iff [OF assms(3,1)] replay_le_iff [OF assms(4,1)] fits_foldl_add_iff)
qed

text \<open>What slot \<open>w\<close> has free once every running job with a deadline up to \<open>t\<close> has left it.\<close>

definition freed_by :: "running_job list \<Rightarrow> virtual_time \<Rightarrow> slot_index \<Rightarrow> resources list" where
  "freed_by running t w = map run_resources (filter (\<lambda>r. run_slot r = w \<and> run_ends_at r \<le> t) running)"

definition holds_now :: "resources \<Rightarrow> slot_inventory \<Rightarrow> slot_index \<Rightarrow> bool" where
  "holds_now req iv w \<longleftrightarrow> (\<exists>f. inv_free iv w = Some f \<and> fits_within req f)"

definition holds_by ::
  "resources \<Rightarrow> slot_inventory \<Rightarrow> running_job list \<Rightarrow> virtual_time \<Rightarrow> slot_index \<Rightarrow> bool" where
  "holds_by req iv running t w \<longleftrightarrow>
     (\<exists>s. inv_slot iv w = Some s \<and> fits_within req (capacity s)
        \<and> fits_within req (res_total (slot_free s) (freed_by running t w)))"


lemma freed_by_completions:
  "mset (map snd (filter (\<lambda>c. fst c \<le> t) (slot_completions running w))) = mset (freed_by running t w)"
  by (simp add: slot_completions_def freed_by_def filter_mset_image_mset filter_filter_mset
      image_mset.compositionality comp_def conj_commute)

lemma holds_by_replay:
  assumes "inv_slot iv w = Some s" and "\<not> fits_within req (slot_free s)"
    and "fits_within req (capacity s)"
  shows "(\<exists>at. replay_completions req (slot_free s) (slot_completions running w) = Some at \<and> at \<le> t)
     \<longleftrightarrow> holds_by req iv running t w"
proof -
  let ?in = "map snd (filter (\<lambda>c. fst c \<le> t) (slot_completions running w))"
  have "(\<Sum>r\<leftarrow>?in. dim_of d r) = (\<Sum>r\<leftarrow>freed_by running t w. dim_of d r)" for d
    by (rule sum_list_mset_cong [OF freed_by_completions])
  moreover have "sorted (map fst (slot_completions running w))" by (simp add: slot_completions_def)
  ultimately show ?thesis
    using assms by (simp add: replay_le_iff holds_by_def fits_foldl_add_iff)
qed

lemma holds_now_slot:
  assumes "inv_slot iv w = Some s"
  shows "holds_now req iv w \<longleftrightarrow> fits_within req (slot_free s)"
  using assms by (simp add: holds_now_def inv_slot_def inv_free_def)

lemma free_within_capacity: "fits_within req (slot_free s) \<Longrightarrow> fits_within req (capacity s)"
  unfolding slot_free_def by (rule fits_within_trans [OF _ saturating_sub_fits])

lemma reservation_loop_le_iff:
  assumes "\<forall>w\<in>set ws. inv_slot iv w \<noteq> None"
  shows "(\<exists>at. reservation_loop ws req iv running now e = Some at \<and> at \<le> t) \<longleftrightarrow>
     (if \<exists>w\<in>set ws. holds_now req iv w then now \<le> t
      else (\<exists>c. e = Some c \<and> c \<le> t) \<or> (\<exists>w\<in>set ws. holds_by req iv running t w))"
  using assms
proof (induction ws arbitrary: e)
  case (Cons w ws)
  obtain s where s: "inv_slot iv w = Some s" using Cons.prems by auto
  note IH = Cons.IH
  have ws: "\<forall>w\<in>set ws. inv_slot iv w \<noteq> None" using Cons.prems by simp
  show ?case
  proof (cases "fits_within req (slot_free s)")
    case True
    then show ?thesis by (simp add: s holds_now_slot [OF s] free_within_capacity)
  next
    case unfit: False
    then have now: "\<not> holds_now req iv w" by (simp add: holds_now_slot [OF s])
    show ?thesis
    proof (cases "fits_within req (capacity s)")
      case False
      then have "\<not> holds_by req iv running t w" by (simp add: holds_by_def s)
      with False now show ?thesis by (simp add: s IH [OF ws])
    next
      case True
      note hb = holds_by_replay [OF s unfit True, of running t]
      show ?thesis
      proof (cases "replay_completions req (slot_free s) (slot_completions running w)")
        case None
        with hb have "\<not> holds_by req iv running t w" by simp
        with None True unfit now show ?thesis by (simp add: s IH [OF ws])
      next
        case (Some at)
        with hb have "holds_by req iv running t w \<longleftrightarrow> at \<le> t" by simp
        with Some True unfit now show ?thesis
          by (simp add: s IH [OF ws] min_le_iff_disj disj_ac split: option.split)
      qed
    qed
  qed
qed simp

lemma inv_len_Some: "length (inv_slots iv) < 2 ^ 32 \<Longrightarrow> inv_len iv = Some (of_nat (length (inv_slots iv)))"
  by (simp add: inv_len_def expect_u32_def)

lemma set_slot_indices:
  assumes "length (inv_slots iv) < 2 ^ 32"
  shows "set (map of_nat [0..<unat (of_nat (length (inv_slots iv)) :: slot_index)])
     = {w :: slot_index. inv_slot iv w \<noteq> None}"
proof -
  have "w \<in> of_nat ` {0..<length (inv_slots iv)}" if "unat w < length (inv_slots iv)" for w :: slot_index
    using that by (intro image_eqI [of _ _ "unat w"]) simp_all
  moreover have "unat (of_nat n :: slot_index) < length (inv_slots iv)" if "n < length (inv_slots iv)" for n
    using that assms by (simp add: unat_of_nat)
  ultimately show ?thesis using assms by (auto simp: inv_slot_def vec_get_def unat_of_nat)
qed

lemma reservation_total:
  "length (inv_slots iv) < 2 ^ 32 \<Longrightarrow> \<exists>r. reservation_time req iv running now = Some r"
  by (simp add: reservation_time_def inv_len_Some)

text \<open>
  The meaning of a reservation: it is at most \<open>t\<close> exactly if the request fits somewhere now and
  \<open>now\<close> is at most \<open>t\<close>, or it fits nowhere now and some slot that is large enough has room once
  the running jobs with a deadline up to \<open>t\<close> have left.
\<close>

lemma reservation_le_iff:
  assumes "length (inv_slots iv) < 2 ^ 32"
  shows "(\<exists>at. reservation_time req iv running now = Some (Some at) \<and> at \<le> t) \<longleftrightarrow>
     (if \<exists>w. holds_now req iv w then now \<le> t else \<exists>w. holds_by req iv running t w)"
proof -
  let ?ws = "map of_nat [0..<unat (of_nat (length (inv_slots iv)) :: slot_index)] :: slot_index list"
  note ws = set_slot_indices [OF assms]
  have "\<forall>w\<in>set ?ws. inv_slot iv w \<noteq> None" unfolding ws by simp
  from reservation_loop_le_iff [OF this, of req running now None t]
  have "(\<exists>at. reservation_time req iv running now = Some (Some at) \<and> at \<le> t) \<longleftrightarrow>
     (if \<exists>w\<in>set ?ws. holds_now req iv w then now \<le> t else \<exists>w\<in>set ?ws. holds_by req iv running t w)"
    by (simp add: reservation_time_def inv_len_Some [OF assms])
  moreover have "(\<exists>w\<in>set ?ws. holds_now req iv w) \<longleftrightarrow> (\<exists>w. holds_now req iv w)"
    unfolding ws by (metis (mono_tags, lifting) holds_now_def inv_free_def inv_slot_def mem_Collect_eq
        option.map_disc_iff option.distinct(1))
  moreover have "(\<exists>w\<in>set ?ws. holds_by req iv running t w) \<longleftrightarrow> (\<exists>w. holds_by req iv running t w)"
    unfolding ws by (auto simp: holds_by_def)
  ultimately show ?thesis by simp
qed


section \<open>Admitting a candidate does not delay the head\<close>

lemma try_allocate_free:
  assumes "try_allocate iv w r = Inr iv'"
  shows "\<exists>s s'. inv_slot iv w = Some s \<and> inv_slot iv' w = Some s' \<and> capacity s' = capacity s
     \<and> (\<forall>d. dim_of d (slot_free s) = dim_of d (slot_free s') + dim_of d r)"
  using assms
proof (cases rule: try_allocate_Inr)
  case (1 n)
  let ?s = "inv_slots iv ! unat w"
  have "dim_of d (slot_free ?s) = dim_of d (slot_free (?s\<lparr>allocated := n\<rparr>)) + dim_of d r" for d
  proof -
    have "dim_of d n \<le> dim_of d (capacity ?s)" using 1(3) by (simp add: fits_within_dims)
    then show ?thesis
      using dim_of_checked_add [OF 1(2), of d] by (simp add: slot_free_def dim_of_saturating_sub)
  qed
  with 1 show ?thesis by (simp add: inv_slot_def vec_get_def)
qed

lemma try_allocate_other:
  assumes "try_allocate iv w r = Inr iv'" and "x \<noteq> w"
  shows "inv_slot iv' x = inv_slot iv x"
  using assms(1)
proof (cases rule: try_allocate_Inr)
  case (1 n)
  from assms(2) have "unat w \<noteq> unat x" by (metis unsigned_word_eqI)
  with 1 show ?thesis by (auto simp: inv_slot_def vec_get_def)
qed

lemma holds_now_allocate:
  assumes "try_allocate iv w r = Inr iv'" and "holds_now req iv' x"
  shows "holds_now req iv x"
proof (cases "x = w")
  case False
  with assms(2) slots.alloc_frame [OF assms(1) False] show ?thesis by (simp add: holds_now_def)
next
  case True
  from assms(1) obtain s s' where s: "inv_slot iv w = Some s" "inv_slot iv' w = Some s'"
    "\<forall>d. dim_of d (slot_free s) = dim_of d (slot_free s') + dim_of d r"
    using try_allocate_free by blast
  with assms(2) True show ?thesis
    by (auto simp: holds_now_slot [OF s(1)] holds_now_slot [OF s(2)] fits_within_dims intro: trans_le_add1)
qed

lemma freed_by_append: "freed_by (rs @ rs') t w = freed_by rs t w @ freed_by rs' t w"
  by (simp add: freed_by_def)

lemma holds_by_more:
  assumes "holds_by req iv rs t w" and "\<And>d. (\<Sum>r\<leftarrow>freed_by rs t w. dim_of d r) \<le> (\<Sum>r\<leftarrow>freed_by rs' t w. dim_of d r)"
  shows "holds_by req iv rs' t w"
proof -
  from assms(1) obtain s where s: "inv_slot iv w = Some s" "fits_within req (capacity s)"
    "\<And>d. dim_of d req \<le> dim_of d (slot_free s) + (\<Sum>r\<leftarrow>freed_by rs t w. dim_of d r)"
    by (auto simp: holds_by_def fits_foldl_add_iff)
  have "dim_of d req \<le> dim_of d (slot_free s) + (\<Sum>r\<leftarrow>freed_by rs' t w. dim_of d r)" for d
    using s(3) [of d] assms(2) [of d] by linarith
  with s(1,2) show ?thesis by (simp add: holds_by_def fits_foldl_add_iff)
qed

text \<open>A job that ends by \<open>t\<close> takes from its slot only what it has given back by then.\<close>

lemma holds_by_allocate_short:
  assumes "try_allocate iv w (run_resources c) = Inr iv'" and "run_slot c = w" and "run_ends_at c \<le> t"
    and "holds_by req iv rs t x"
  shows "holds_by req iv' (rs @ [c]) t x"
proof (cases "x = w")
  case False
  from assms(4) have "holds_by req iv' rs t x"
    by (simp add: holds_by_def try_allocate_other [OF assms(1) False])
  then show ?thesis by (rule holds_by_more) (simp add: freed_by_append)
next
  case True
  from assms(1) obtain s s' where s: "inv_slot iv w = Some s" "inv_slot iv' w = Some s'"
    "capacity s' = capacity s"
    "\<forall>d. dim_of d (slot_free s) = dim_of d (slot_free s') + dim_of d (run_resources c)"
    using try_allocate_free by blast
  from assms(2,3) have "freed_by (rs @ [c]) t w = freed_by rs t w @ [run_resources c]"
    by (simp add: freed_by_def)
  with assms(4) True s show ?thesis
    by (auto simp: holds_by_def fits_foldl_add_iff ac_simps simp del: foldl_append)
qed

lemma holds_now_imp_by: "holds_now req iv w \<Longrightarrow> holds_by req iv rs t w"
  by (auto simp: holds_now_def holds_by_def inv_free_def inv_slot_def free_within_capacity
      fits_total_prefix)

text \<open>
  The invariant of the pass: no slot holds the head now unless the reservation is not before now,
  and some slot holds it by the reservation.
\<close>

definition reserved ::
  "resources \<Rightarrow> slot_inventory \<Rightarrow> running_job list \<Rightarrow> virtual_time \<Rightarrow> virtual_time \<Rightarrow> bool" where
  "reserved req iv rs now t \<longleftrightarrow>
     (\<exists>at. reservation_time req iv rs now = Some (Some at) \<and> at \<le> t)"

lemma reserved_iff:
  assumes "length (inv_slots iv) < 2 ^ 32"
  shows "reserved req iv rs now t \<longleftrightarrow>
     ((\<exists>w. holds_now req iv w) \<longrightarrow> now \<le> t) \<and> (\<exists>w. holds_by req iv rs t w)"
  unfolding reserved_def reservation_le_iff [OF assms] by (metis holds_now_imp_by)

lemma reserved_allocate_short:
  assumes "length (inv_slots iv) < 2 ^ 32" and "reserved req iv rs now t"
    and "try_allocate iv w (run_resources c) = Inr iv'" and "run_slot c = w" and "run_ends_at c \<le> t"
  shows "reserved req iv' (rs @ [c]) now t"
proof -
  have len: "length (inv_slots iv') < 2 ^ 32" using assms(1) try_allocate_length [OF assms(3)] by simp
  show ?thesis
    using assms(2) holds_now_allocate [OF assms(3)] holds_by_allocate_short [OF assms(3,4,5)]
    unfolding reserved_iff [OF assms(1)] reserved_iff [OF len] by blast
qed

lemma reserved_more:
  assumes "length (inv_slots iv) < 2 ^ 32" and "reserved req iv (rs @ [c]) now t"
  shows "reserved req iv (rs @ adm @ [c]) now t"
proof -
  have "holds_by req iv (rs @ adm @ [c]) t w" if "holds_by req iv (rs @ [c]) t w" for w
    using that by (rule holds_by_more) (simp add: freed_by_append)
  with assms show ?thesis unfolding reserved_iff [OF assms(1)] by blast
qed


section \<open>A pass\<close>

definition started_job :: "job_id \<Rightarrow> job \<Rightarrow> slot_index \<Rightarrow> virtual_time \<Rightarrow> running_job" where
  "started_job i j w now = \<lparr>run_job = i, run_slot = w, run_resources = request j,
     run_ends_at = time_saturating_add now (walltime_limit j)\<rparr>"

lemma started_job_simps [simp]:
  "run_slot (started_job i j w now) = w" "run_resources (started_job i j w now) = request j"
  "run_ends_at (started_job i j w now) = time_saturating_add now (walltime_limit j)"
  by (simp_all add: started_job_def)

text \<open>The running jobs a list of decisions starts.\<close>

definition started_jobs :: "job arena \<Rightarrow> virtual_time \<Rightarrow> dispatch_decision list \<Rightarrow> running_job list" where
  "started_jobs jobs now ds = concat (map (\<lambda>d. case arena_get jobs (dec_job d) of
     None \<Rightarrow> [] | Some j \<Rightarrow> [started_job (dec_job d) j (dec_slot d) now]) ds)"

lemma try_backfill_spec:
  assumes "alloc_sound iv (request j)" and "first_fit iv (request j) = Some (Some w)"
    and len: "length (inv_slots iv) < 2 ^ 32" and "reserved req iv (running @ adm) now t"
  shows "(\<exists>iv'. try_backfill i j w iv running now req t = Some (True, iv')
            \<and> try_allocate iv w (request j) = Inr iv'
            \<and> reserved req iv' (running @ adm @ [started_job i j w now]) now t)
       \<or> try_backfill i j w iv running now req t = Some (False, iv)"
proof -
  let ?c = "started_job i j w now"
  from slots.fit_alloc [OF assms(1,2)] obtain iv' where a: "try_allocate iv w (request j) = Inr iv'" by blast
  have len': "length (inv_slots iv') < 2 ^ 32" using len try_allocate_length [OF a] by simp
  show ?thesis
  proof (cases "run_ends_at ?c \<le> t")
    case True
    with a have "try_backfill i j w iv running now req t = Some (True, iv')"
      by (simp add: try_backfill_def Let_def)
    moreover from a True have "reserved req iv' ((running @ adm) @ [?c]) now t"
      by (intro reserved_allocate_short [OF len assms(4)]) simp_all
    ultimately show ?thesis using a by simp
  next
    case False
    from reservation_total [OF len'] obtain rc where
      rc: "reservation_time req iv' (running @ [?c]) now = Some rc" by blast
    show ?thesis
    proof (cases "\<exists>at. rc = Some at \<and> at \<le> t")
      case True
      with rc have "reserved req iv' (running @ [?c]) now t" by (auto simp: reserved_def)
      from reserved_more [OF len' this] False True rc a show ?thesis
        by (auto simp: try_backfill_def Let_def started_job_def)
    next
      case late: False
      with False rc a allocate_then_release [OF a] show ?thesis
        by (auto simp: try_backfill_def Let_def started_job_def split: option.splits)
    qed
  qed
qed

text \<open>One round of the loop, on a sound inventory with the head still reserved.\<close>

lemma backfill_round:
  assumes "all_sound jobs iv (e # es)" and "k < length disp"
    and "length (inv_slots iv) < 2 ^ 32" and "reserved req iv (running @ adm) now t"
  obtains (stop) "backfill_loop k (e # es) jobs iv running now budget req t disp decs out
      = Some (iv, disp, decs, out)"
  | (stale) "arena_get jobs (entry_job e) = None"
      "backfill_loop k (e # es) jobs iv running now budget req t disp decs out
      = backfill_loop (Suc k) es jobs iv running now budget req t (disp[k := Dropped]) decs out"
  | (skip) out1 where "bo_reservation out1 = bo_reservation out"
      "backfill_loop k (e # es) jobs iv running now budget req t disp decs out
      = backfill_loop (Suc k) es jobs iv running now budget req t disp decs out1"
  | (admit) j w iv1 out1 where "arena_get jobs (entry_job e) = Some j"
      "try_allocate iv w (request j) = Inr iv1"
      "reserved req iv1 (running @ adm @ [started_job (entry_job e) j w now]) now t"
      "bo_reservation out1 = bo_reservation out"
      "backfill_loop k (e # es) jobs iv running now budget req t disp decs out
      = backfill_loop (Suc k) es jobs iv1 running now budget req t (disp[k := Dispatched])
          (decs @ [\<lparr>dec_job = entry_job e, dec_slot = w\<rparr>]) out1"
proof (cases "bo_backfilled out \<ge> max_decisions budget \<or> bo_considered out \<ge> max_scanned budget")
  case True
  then show thesis by (intro stop) simp
next
  case False
  show thesis
  proof (cases "arena_get jobs (entry_job e)")
    case None
    with False assms(2) show thesis by (intro stale) simp_all
  next
    case (Some j)
    let ?out = "out\<lparr>bo_considered := bo_considered out + 1\<rparr>"
    from assms(1) Some have snd: "alloc_sound iv (request j)" by (simp add: all_sound_def)
    from slots.fit_total [OF snd] obtain f where f: "first_fit iv (request j) = Some f" by blast
    show thesis
    proof (cases f)
      case None
      with False Some f show thesis by (intro skip [of ?out]) simp_all
    next
      case w: (Some w)
      with f have "first_fit iv (request j) = Some (Some w)" by simp
      from try_backfill_spec [OF snd this assms(3,4), of "entry_job e"] show thesis
      proof (elim disjE exE conjE)
        fix iv1
        assume a: "try_backfill (entry_job e) j w iv running now req t = Some (True, iv1)"
          "try_allocate iv w (request j) = Inr iv1"
          "reserved req iv1 (running @ adm @ [started_job (entry_job e) j w now]) now t"
        show thesis
          by (rule admit [OF Some a(2,3), of "?out\<lparr>bo_backfilled := bo_backfilled ?out + 1\<rparr>"])
            (use False Some f w a(1) assms(2) in \<open>simp_all add: Let_def\<close>)
      next
        assume "try_backfill (entry_job e) j w iv running now req t = Some (False, iv)"
        with False Some f w show thesis by (intro skip [of ?out]) (simp_all add: Let_def)
      qed
    qed
  qed
qed


text \<open>
  What a pass over the candidates \<open>es\<close> at positions \<open>k\<close> on does: the decisions it appends are
  charged in order, a candidate is dropped only when its handle is stale and dispatched only when
  it is live, and nothing else changes. Packing and backfill both have such an effect.
\<close>

definition settled :: "job arena \<Rightarrow> ready_entry \<Rightarrow> disposition \<Rightarrow> disposition \<Rightarrow> bool" where
  "settled jobs e d d' \<longleftrightarrow> d' = d
     \<or> d' = Dropped \<and> arena_get jobs (entry_job e) = None
     \<or> d' = Dispatched \<and> arena_get jobs (entry_job e) \<noteq> None"

definition pass_effect ::
  "job arena \<Rightarrow> nat \<Rightarrow> ready_entry list \<Rightarrow> slot_inventory \<Rightarrow> disposition list \<Rightarrow> slot_inventory
     \<Rightarrow> disposition list \<Rightarrow> dispatch_decision list \<Rightarrow> bool" where
  "pass_effect jobs k es iv disp iv' disp' new \<longleftrightarrow>
     allocate_all jobs iv new = Some iv' \<and> length disp' = length disp
     \<and> (\<forall>i < length disp. i < k \<or> k + length es \<le> i \<longrightarrow> disp' ! i = disp ! i)
     \<and> (\<forall>i < length es. settled jobs (es ! i) (disp ! (k + i)) (disp' ! (k + i)))
     \<and> ((\<forall>i < length es. disp ! (k + i) = Pending) \<longrightarrow> map dec_job new = placed_jobs k disp' es)"

lemma placed_jobs_none: "\<forall>i < length es. disp ! (k + i) = Pending \<Longrightarrow> placed_jobs k disp es = []"
  unfolding placed_jobs_def map_is_Nil_conv filter_empty_conv by auto

lemma pass_effect_stop: "pass_effect jobs k es iv disp iv disp []"
  by (simp add: pass_effect_def settled_def placed_jobs_none)

lemma pass_effect_Cons:
  assumes "pass_effect jobs (Suc k) es iv1 (disp[k := d]) iv' disp' new"
    and "k < length disp" and "settled jobs e (disp ! k) d"
    and "allocate_all jobs iv (ds @ new) = Some iv'"
    and "disp ! k = Pending \<Longrightarrow> map dec_job ds = (if d = Dispatched then [entry_job e] else [])"
  shows "pass_effect jobs k (e # es) iv disp iv' disp' (ds @ new)"
proof -
  note eff = assms(1) [unfolded pass_effect_def]
  have len: "length disp' = length disp" using eff by simp
  have out: "disp' ! i = disp ! i" if "i < length disp" "i < k \<or> k + length (e # es) \<le> i" for i
    using eff that by auto
  have at: "disp' ! k = d" using eff assms(2) by auto
  have in_: "settled jobs ((e # es) ! i) (disp ! (k + i)) (disp' ! (k + i))" if "i < length (e # es)" for i
  proof (cases i)
    case 0
    with at assms(3) show ?thesis by simp
  next
    case (Suc i')
    with that eff have "settled jobs (es ! i') (disp[k := d] ! (Suc k + i')) (disp' ! (Suc k + i'))" by simp
    with Suc show ?thesis by simp
  qed
  have "map dec_job (ds @ new) = placed_jobs k disp' (e # es)"
    if pend: "\<forall>i < length (e # es). disp ! (k + i) = Pending"
  proof -
    from pend have "disp ! k = Pending" "\<forall>i < length es. disp[k := d] ! (Suc k + i) = Pending"
      by force+
    with eff assms(5) show ?thesis by (simp add: placed_jobs_Cons at)
  qed
  with len out in_ assms(4) show ?thesis unfolding pass_effect_def by simp
qed

lemma pass_effect_keep:
  assumes "pass_effect jobs (Suc k) es iv disp iv' disp' new" and "k < length disp"
  shows "pass_effect jobs k (e # es) iv disp iv' disp' new"
proof -
  have "pass_effect jobs k (e # es) iv disp iv' disp' ([] @ new)"
    by (rule pass_effect_Cons [of jobs k es iv disp "disp ! k"])
      (use assms in \<open>simp_all add: settled_def\<close>, simp add: pass_effect_def)
  then show ?thesis by simp
qed

lemma pass_effect_stale:
  assumes "pass_effect jobs (Suc k) es iv (disp[k := Dropped]) iv' disp' new" and "k < length disp"
    and "arena_get jobs (entry_job e) = None"
  shows "pass_effect jobs k (e # es) iv disp iv' disp' new"
proof -
  have "pass_effect jobs k (e # es) iv disp iv' disp' ([] @ new)"
    by (rule pass_effect_Cons [OF assms(1,2)]) (use assms in \<open>simp_all add: settled_def pass_effect_def\<close>)
  then show ?thesis by simp
qed

lemma pass_effect_place:
  assumes "pass_effect jobs (Suc k) es iv1 (disp[k := Dispatched]) iv' disp' new"
    and "k < length disp" and "arena_get jobs (entry_job e) = Some j"
    and "try_allocate iv w (request j) = Inr iv1"
  shows "pass_effect jobs k (e # es) iv disp iv' disp' (\<lparr>dec_job = entry_job e, dec_slot = w\<rparr> # new)"
proof -
  have "pass_effect jobs k (e # es) iv disp iv' disp' ([\<lparr>dec_job = entry_job e, dec_slot = w\<rparr>] @ new)"
    by (rule pass_effect_Cons [OF assms(1,2)])
      (use assms in \<open>simp_all add: settled_def pass_effect_def\<close>)
  then show ?thesis by simp
qed

lemma started_jobs_Cons:
  assumes "arena_get jobs i = Some j"
  shows "started_jobs jobs now (\<lparr>dec_job = i, dec_slot = w\<rparr> # ds) = started_job i j w now # started_jobs jobs now ds"
  using assms by (simp add: started_jobs_def)

lemma backfill_loop_spec:
  assumes "all_sound jobs iv es" and "k + length es \<le> length disp"
    and "length (inv_slots iv) < 2 ^ 32" and "reserved req iv (running @ adm) now t"
  shows "\<exists>iv' disp' new out'.
     backfill_loop k es jobs iv running now budget req t disp decs out = Some (iv', disp', decs @ new, out')
     \<and> pass_effect jobs k es iv disp iv' disp' new
     \<and> reserved req iv' (running @ adm @ started_jobs jobs now new) now t
     \<and> bo_reservation out' = bo_reservation out"
  using assms
proof (induction es arbitrary: k iv disp decs out adm)
  case Nil
  then show ?case by (auto simp: pass_effect_stop started_jobs_def intro!: exI [of _ disp] exI [of _ "[]"])
next
  case (Cons e es)
  have k: "k < length disp" "Suc k + length es \<le> length (disp[k := d])" "Suc k + length es \<le> length disp" for d
    using Cons.prems(2) by simp_all
  note tail = all_sound_tail [OF Cons.prems(1)]
  from Cons.prems(1) k(1) Cons.prems(3,4) show ?case
  proof (cases rule: backfill_round [where decs = decs and out = out and budget = budget])
    case stop
    with Cons.prems(4) show ?thesis
      by (intro exI [of _ iv] exI [of _ disp] exI [of _ "[]"] exI [of _ out])
        (simp add: pass_effect_stop started_jobs_def)
  next
    case stale
    from Cons.IH [OF tail k(2) Cons.prems(3,4)] obtain iv' disp' new out' where
      "backfill_loop (Suc k) es jobs iv running now budget req t (disp[k := Dropped]) decs out
         = Some (iv', disp', decs @ new, out')"
      "pass_effect jobs (Suc k) es iv (disp[k := Dropped]) iv' disp' new"
      "reserved req iv' (running @ adm @ started_jobs jobs now new) now t"
      "bo_reservation out' = bo_reservation out" by blast
    with stale pass_effect_stale [OF _ k(1) stale(1)] show ?thesis
      by (intro exI [of _ iv'] exI [of _ disp'] exI [of _ new] exI [of _ out']) simp
  next
    case (skip out1)
    from Cons.IH [OF tail k(3) Cons.prems(3,4)] obtain iv' disp' new out' where
      "backfill_loop (Suc k) es jobs iv running now budget req t disp decs out1
         = Some (iv', disp', decs @ new, out')"
      "pass_effect jobs (Suc k) es iv disp iv' disp' new"
      "reserved req iv' (running @ adm @ started_jobs jobs now new) now t"
      "bo_reservation out' = bo_reservation out1" by blast
    with skip pass_effect_keep [OF _ k(1)] show ?thesis
      by (intro exI [of _ iv'] exI [of _ disp'] exI [of _ new] exI [of _ out']) simp
  next
    case (admit j w iv1 out1)
    let ?d = "\<lparr>dec_job = entry_job e, dec_slot = w\<rparr>"
    have len: "length (inv_slots iv1) < 2 ^ 32"
      using Cons.prems(3) try_allocate_length [OF admit(2)] by simp
    from Cons.IH [OF all_sound_allocate [OF tail admit(2)] k(2) len,
        of "adm @ [started_job (entry_job e) j w now]"] admit(3)
    obtain iv' disp' new out' where
      "backfill_loop (Suc k) es jobs iv1 running now budget req t (disp[k := Dispatched]) (decs @ [?d]) out1
         = Some (iv', disp', (decs @ [?d]) @ new, out')"
      "pass_effect jobs (Suc k) es iv1 (disp[k := Dispatched]) iv' disp' new"
      "reserved req iv' (running @ (adm @ [started_job (entry_job e) j w now]) @ started_jobs jobs now new) now t"
      "bo_reservation out' = bo_reservation out1" by (metis append.assoc)
    with admit pass_effect_place [OF _ k(1) admit(1,2)] started_jobs_Cons [OF admit(1)] show ?thesis
      by (intro exI [of _ iv'] exI [of _ disp'] exI [of _ "?d # new"] exI [of _ out']) simp
  qed
qed


lemma all_sound_drop: "all_sound jobs iv es \<Longrightarrow> all_sound jobs iv (drop n es)"
  by (auto simp: all_sound_def dest: in_set_dropD)

lemma easy_backfill_spec:
  assumes "all_sound jobs iv es" and "length es \<le> length disp" and "h < length es"
    and "length (inv_slots iv) < 2 ^ 32"
  shows "\<exists>iv' disp' new out.
     easy_backfill es h jobs iv running now budget disp decs = Some (iv', disp', decs @ new, out)
     \<and> pass_effect jobs (Suc h) (drop (Suc h) es) iv disp iv' disp' new
     \<and> (bo_reservation out = None \<longrightarrow> new = [])
     \<and> (\<forall>t j. bo_reservation out = Some t \<longrightarrow> arena_get jobs (entry_job (es ! h)) = Some j \<longrightarrow>
          reservation_time (request j) iv running now = Some (Some t)
          \<and> reserved (request j) iv' (running @ started_jobs jobs now new) now t)"
proof (cases "arena_get jobs (entry_job (es ! h))")
  case None
  with assms(2,3) show ?thesis
    by (auto simp: easy_backfill_def backfill_outcome_default_def
        intro!: pass_effect_stop exI [of _ "[]"])
next
  case (Some j)
  from reservation_total [OF assms(4)] obtain r where
    r: "reservation_time (request j) iv running now = Some r" by blast
  show ?thesis
  proof (cases r)
    case None
    with Some r assms(2,3) show ?thesis
      by (auto simp: easy_backfill_def Let_def intro!: pass_effect_stop exI [of _ "[]"])
  next
    case t: (Some t)
    let ?out = "backfill_outcome_default\<lparr>bo_reservation := Some t\<rparr>"
    from r t have "reserved (request j) iv (running @ []) now t" by (simp add: reserved_def)
    moreover have "Suc h + length (drop (Suc h) es) \<le> length disp" using assms(2,3) by simp
    ultimately obtain iv' disp' new out' where
      "backfill_loop (Suc h) (drop (Suc h) es) jobs iv running now budget (request j) t disp decs ?out
         = Some (iv', disp', decs @ new, out')"
      "pass_effect jobs (Suc h) (drop (Suc h) es) iv disp iv' disp' new"
      "reserved (request j) iv' (running @ started_jobs jobs now new) now t"
      "bo_reservation out' = Some t"
      using backfill_loop_spec [OF all_sound_drop [OF assms(1), of "Suc h"] _ assms(4),
          where k = "Suc h" and disp = disp and decs = decs and out = ?out and budget = budget
            and adm = "[]" and t = t and req = "request j" and now = now and running = running]
      by auto
    with Some r t assms(2,3) show ?thesis
      by (intro exI [of _ iv'] exI [of _ disp'] exI [of _ new] exI [of _ out'])
        (simp add: easy_backfill_def Let_def)
  qed
qed

section \<open>Properties\<close>

definition full_inventory :: slot_inventory where
  "full_inventory = (case try_allocate sample_inventory 1 sample_request of
     Inr iv \<Rightarrow> iv | Inl e \<Rightarrow> sample_inventory)"

definition sample_running :: "running_job list" where
  "sample_running = [\<lparr>run_job = 9, run_slot = 1, run_resources = sample_request, run_ends_at = 100\<rparr>]"

lemma full_inventory_run: "inventory_run full_inventory"
proof -
  have "inventory_run sample_inventory"
    unfolding sample_inventory_def by (rule run_capacities) simp
  moreover have "try_allocate sample_inventory 1 sample_request = Inr full_inventory" by code_simp
  ultimately show ?thesis by (rule run_allocate)
qed

text \<open>
  C16. The reservation is the earliest start: computing it does not panic, and it is at most \<open>t\<close>
  exactly if the request fits some slot now and now is at most \<open>t\<close>, or it fits no slot now and
  some slot large enough has room once the running jobs with a deadline up to \<open>t\<close> have left.
\<close>

theorem reservation_is_earliest:
  assumes "length (inv_slots iv) < 2 ^ 32"
  shows "\<exists>r. reservation_time req iv running now = Some r
     \<and> (\<forall>t. (\<exists>at. r = Some at \<and> at \<le> t) \<longleftrightarrow>
          (if \<exists>w. holds_now req iv w then now \<le> t else \<exists>w. holds_by req iv running t w))"
proof -
  from reservation_total [OF assms] obtain r where r: "reservation_time req iv running now = Some r"
    by blast
  with reservation_le_iff [OF assms, of req running now] show ?thesis by simp
qed

theorem reservation_is_earliest_witness:
  "reservation_time sample_request full_inventory sample_running 5 = Some (Some 100)
   \<and> (\<exists>r. reservation_time sample_request full_inventory sample_running 5 = Some r
      \<and> (\<forall>t. (\<exists>at. r = Some at \<and> at \<le> t) \<longleftrightarrow>
          (if \<exists>w. holds_now sample_request full_inventory w then 5 \<le> t
           else \<exists>w. holds_by sample_request full_inventory sample_running t w)))"
proof
  show "reservation_time sample_request full_inventory sample_running 5 = Some (Some 100)" by code_simp
  have "length (inv_slots full_inventory) = 2" by code_simp
  then show "\<exists>r. reservation_time sample_request full_inventory sample_running 5 = Some r
      \<and> (\<forall>t. (\<exists>at. r = Some at \<and> at \<le> t) \<longleftrightarrow>
          (if \<exists>w. holds_now sample_request full_inventory w then 5 \<le> t
           else \<exists>w. holds_by sample_request full_inventory sample_running t w))"
    by (intro reservation_is_earliest) simp
qed

text \<open>
  C6. Backfill never delays the head. On any inventory the daemon can reach, with live candidates
  that ask for something, the pass does not panic; it starts only candidates behind the head,
  charging each; and if the head had a reservation, then recomputing it with every job the pass
  started gives a reservation that is not later. Without a reservation nothing is started.
\<close>

theorem backfill_keeps_reservation:
  assumes "inventory_run iv" and "length (inv_slots iv) < 2 ^ 32"
    and "\<forall>e\<in>set es. \<forall>j. arena_get jobs (entry_job e) = Some j \<longrightarrow> request j \<noteq> ZERO"
    and "length disp = length es" and "h < length es"
    and "arena_get jobs (entry_job (es ! h)) = Some head"
  shows "\<exists>iv' disp' new out.
     easy_backfill es h jobs iv running now budget disp decs = Some (iv', disp', decs @ new, out)
     \<and> pass_effect jobs (Suc h) (drop (Suc h) es) iv disp iv' disp' new \<and> inventory_run iv'
     \<and> (bo_reservation out = None \<longrightarrow> new = [])
     \<and> (\<forall>t. bo_reservation out = Some t \<longrightarrow>
          reservation_time (request head) iv running now = Some (Some t)
          \<and> (\<exists>at. reservation_time (request head) iv' (running @ started_jobs jobs now new) now
                    = Some (Some at) \<and> at \<le> t))"
proof -
  have "length es \<le> length disp" using assms(4) by simp
  from easy_backfill_spec [OF run_all_sound [OF assms(1,3)] this assms(5,2),
      where running = running and now = now and budget = budget and decs = decs]
  obtain iv' disp' new out where
    a: "easy_backfill es h jobs iv running now budget disp decs = Some (iv', disp', decs @ new, out)"
      "pass_effect jobs (Suc h) (drop (Suc h) es) iv disp iv' disp' new"
      "bo_reservation out = None \<longrightarrow> new = []"
      "\<forall>t j. bo_reservation out = Some t \<longrightarrow> arena_get jobs (entry_job (es ! h)) = Some j \<longrightarrow>
          reservation_time (request j) iv running now = Some (Some t)
          \<and> reserved (request j) iv' (running @ started_jobs jobs now new) now t"
    by (elim exE conjE) (rule that)
  from a(2) have "inventory_run iv'"
    using allocate_all_run [OF assms(1)] by (auto simp: pass_effect_def)
  with a assms(6) show ?thesis
    by (intro exI [of _ iv'] exI [of _ disp'] exI [of _ new] exI [of _ out])
      (simp add: reserved_def)
qed

theorem backfill_keeps_reservation_witness:
  "\<exists>iv' disp' new out. easy_backfill sample_candidates 0 pack_arena full_inventory sample_running 5
       pack_budget_default [Pending, Pending] [] = Some (iv', disp', [] @ new, out)
     \<and> inventory_run iv'"
proof -
  let ?j = "job_new 0 Normal 0 sample_request 1"
  have j: "arena_get pack_arena 0 = Some ?j" by code_simp
  have "length (inv_slots full_inventory) = 2" by code_simp
  then have len: "length (inv_slots full_inventory) < 2 ^ 32" by simp
  have req: "\<forall>e\<in>set sample_candidates.
      \<forall>j. arena_get pack_arena (entry_job e) = Some j \<longrightarrow> request j \<noteq> ZERO"
    using j by (simp add: sample_candidates_def job_new_def sample_request_def ZERO_def)
  have "length [Pending, Pending] = length sample_candidates" "0 < length sample_candidates"
    "arena_get pack_arena (entry_job (sample_candidates ! 0)) = Some ?j"
    using j by (simp_all add: sample_candidates_def)
  from backfill_keeps_reservation [OF full_inventory_run len req this, of sample_running 5
      pack_budget_default "[]"] show ?thesis by blast
qed

end
