(* ===== verification/Preempt.thy ===== *)
theory Preempt
  imports Backfill
begin

text \<open>
  Planning a preemption (\<open>policy/preempt.rs\<close>): when the head of a cycle fits nowhere, choose
  running jobs of strictly lower class on one slot whose eviction makes room for it.
\<close>

section \<open>State and operations\<close>

record preempt_config =
  min_class :: "priority_class option"
  max_preemptions :: u8
  grace :: virtual_duration

definition preempt_config_default :: preempt_config where
  "preempt_config_default = \<lparr>min_class = None, max_preemptions = 3, grace = from_secs 5\<rparr>"

record eviction =
  ev_job :: job_id
  ev_slot :: slot_index

record victim =
  v_class :: priority_class
  v_started :: virtual_time
  v_job :: job_id
  v_resources :: resources

text \<open>The victim a running job makes, if it may be evicted for the head.\<close>

definition victim_of :: "job \<Rightarrow> job arena \<Rightarrow> preempt_config \<Rightarrow> running_job \<Rightarrow> victim option" where
  "victim_of head jobs config r =
     (case arena_get jobs (run_job r) of
        None \<Rightarrow> None
      | Some j \<Rightarrow>
          if state j = Running \<and> priority_class j < priority_class head \<and> preemptions j < max_preemptions config
          then Some \<lparr>v_class = priority_class j,
                     v_started = saturating_sub (run_ends_at r) (walltime_limit j),
                     v_job = run_job r, v_resources = run_resources r\<rparr>
          else None)"

text \<open>Lowest class first, then the youngest; the sort is stable.\<close>

definition victim_rank :: "victim \<Rightarrow> priority_class \<times> int" where
  "victim_rank v = (v_class v, - uint (v_started v))"

definition slot_victims ::
  "job \<Rightarrow> running_job list \<Rightarrow> job arena \<Rightarrow> preempt_config \<Rightarrow> slot_index \<Rightarrow> victim list" where
  "slot_victims head running jobs config slot =
     sort_key victim_rank
       (List.map_filter (victim_of head jobs config) (filter (\<lambda>r. run_slot r = slot) running))"

fun evict_prefix ::
  "resources \<Rightarrow> virtual_time \<Rightarrow> victim list \<Rightarrow> resources \<Rightarrow> u64 \<Rightarrow> nat \<Rightarrow> resources \<times> u64 \<times> nat" where
  "evict_prefix req now [] freed lost n = (freed, lost, n)"
| "evict_prefix req now (v # vs) freed lost n =
     (if fits_within req freed then (freed, lost, n)
      else evict_prefix req now vs (res_saturating_add freed (v_resources v))
             (saturating_add lost (saturating_sub_time now (v_started v))) (n + 1))"

text \<open>The plan one slot offers: its candidates, the lost runtime, and how many of them it takes.\<close>

definition slot_plan ::
  "job \<Rightarrow> running_job list \<Rightarrow> job arena \<Rightarrow> slot_inventory \<Rightarrow> virtual_time \<Rightarrow> preempt_config \<Rightarrow> slot_index
     \<Rightarrow> (victim list \<times> u64 \<times> nat) option" where
  "slot_plan head running jobs iv now config slot =
     (case inv_slot iv slot of
        None \<Rightarrow> None
      | Some entry \<Rightarrow>
          if \<not> fits_within (request head) (capacity entry) then None
          else let candidates = slot_victims head running jobs config slot;
                   (freed, lost, n) = evict_prefix (request head) now candidates (slot_free entry) 0 0
               in if n = 0 \<or> \<not> fits_within (request head) freed then None
                  else Some (candidates, lost, n))"

fun plan_loop ::
  "slot_index list \<Rightarrow> job \<Rightarrow> running_job list \<Rightarrow> job arena \<Rightarrow> slot_inventory \<Rightarrow> virtual_time
     \<Rightarrow> preempt_config \<Rightarrow> (slot_index \<times> nat \<times> u64) option \<Rightarrow> victim list
     \<Rightarrow> (slot_index \<times> nat \<times> u64) option \<times> victim list" where
  "plan_loop [] head running jobs iv now config best chosen = (best, chosen)"
| "plan_loop (slot # ws) head running jobs iv now config best chosen =
     (case slot_plan head running jobs iv now config slot of
        None \<Rightarrow> plan_loop ws head running jobs iv now config best chosen
      | Some (candidates, lost, n) \<Rightarrow>
          if (case best of None \<Rightarrow> True | Some (_, m, l) \<Rightarrow> n < m \<or> n = m \<and> lost < l)
          then plan_loop ws head running jobs iv now config (Some (slot, n, lost)) (take n candidates)
          else plan_loop ws head running jobs iv now config best chosen)"

definition plan_preemption ::
  "job \<Rightarrow> running_job list \<Rightarrow> job arena \<Rightarrow> slot_inventory \<Rightarrow> virtual_time \<Rightarrow> preempt_config
     \<Rightarrow> eviction list \<Rightarrow> (eviction list \<times> slot_index option) option" where
  "plan_preemption head running jobs iv now config out =
     (case min_class config of
        None \<Rightarrow> Some (out, None)
      | Some lowest \<Rightarrow>
          if priority_class head < lowest then Some (out, None)
          else if list_ex (\<lambda>r. case arena_get jobs (run_job r) of
                                  None \<Rightarrow> False | Some j \<Rightarrow> state j = Preempted) running
          then Some (out, None)
          else do { len \<leftarrow> inv_len iv;
                    case plan_loop (map of_nat [0..<unat len]) head running jobs iv now config None [] of
                      (None, chosen) \<Rightarrow> Some (out, None)
                    | (Some (slot, _, _), chosen) \<Rightarrow>
                        Some (out @ map (\<lambda>v. \<lparr>ev_job = v_job v, ev_slot = slot\<rparr>) chosen, Some slot) })"

section \<open>The plan of one slot\<close>

lemma evict_prefix_spec:
  assumes "evict_prefix req now vs freed lost n = (freed', lost', n')"
  shows "n \<le> n' \<and> n' - n \<le> length vs
     \<and> freed' = res_total freed (map v_resources (take (n' - n) vs))
     \<and> (n' - n < length vs \<longrightarrow> fits_within req freed')
     \<and> (\<forall>m < n' - n. \<not> fits_within req (res_total freed (map v_resources (take m vs))))"
  using assms
proof (induction vs arbitrary: freed lost n)
  case (Cons v vs)
  show ?case
  proof (cases "fits_within req freed")
    case True
    with Cons.prems show ?thesis by simp
  next
    case False
    with Cons.prems have "evict_prefix req now vs (res_saturating_add freed (v_resources v))
        (saturating_add lost (saturating_sub_time now (v_started v))) (n + 1) = (freed', lost', n')"
      by simp
    from Cons.IH [OF this] obtain m where m: "n' = Suc n + m" "m \<le> length vs"
      "freed' = res_total (res_saturating_add freed (v_resources v)) (map v_resources (take m vs))"
      "m < length vs \<longrightarrow> fits_within req freed'"
      "\<forall>i < m. \<not> fits_within req (res_total (res_saturating_add freed (v_resources v))
          (map v_resources (take i vs)))"
      by (metis Suc_eq_plus1 le_add_diff_inverse)
    have "\<not> fits_within req (res_total freed (map v_resources (take i (v # vs))))" if "i < Suc m" for i
      using that m(5) False by (cases i) simp_all
    with m show ?thesis by simp
  qed
qed simp

lemma slot_plan_Some:
  assumes "slot_plan head running jobs iv now config w = Some (vs, lost, n)"
  shows "vs = slot_victims head running jobs config w \<and> 0 < n \<and> n \<le> length vs
     \<and> (\<exists>s. inv_slot iv w = Some s \<and> fits_within (request head) (capacity s)
          \<and> fits_within (request head) (res_total (slot_free s) (map v_resources (take n vs)))
          \<and> (\<forall>m < n. \<not> fits_within (request head) (res_total (slot_free s) (map v_resources (take m vs)))))"
proof -
  from assms obtain s where s: "inv_slot iv w = Some s" by (auto simp: slot_plan_def split: option.splits)
  let ?vs = "slot_victims head running jobs config w"
  obtain f l k where e: "evict_prefix (request head) now ?vs (slot_free s) 0 0 = (f, l, k)"
    by (metis prod_cases3)
  from assms s e have "fits_within (request head) (capacity s)" "vs = ?vs" "lost = l" "n = k" "0 < k"
    "fits_within (request head) f"
    by (auto simp: slot_plan_def Let_def split: if_splits)
  with evict_prefix_spec [OF e] s show ?thesis by simp
qed

lemma slot_plan_None:
  assumes "slot_plan head running jobs iv now config w = None" and "inv_slot iv w = Some s"
    and "fits_within (request head) (capacity s)" and "\<not> fits_within (request head) (slot_free s)"
  shows "\<not> fits_within (request head)
     (res_total (slot_free s) (map v_resources (slot_victims head running jobs config w)))"
proof -
  let ?vs = "slot_victims head running jobs config w"
  obtain f l k where e: "evict_prefix (request head) now ?vs (slot_free s) 0 0 = (f, l, k)"
    by (metis prod_cases3)
  note spec = evict_prefix_spec [OF e]
  show ?thesis
  proof (cases "k = 0")
    case True
    with spec assms(4) show ?thesis by (cases ?vs) auto
  next
    case False
    with assms e have "\<not> fits_within (request head) f"
      by (auto simp: slot_plan_def Let_def split: if_splits)
    with spec show ?thesis by (metis diff_zero le_neq_implies_less take_all_iff order_refl)
  qed
qed

lemma slot_victims_eligible:
  assumes "v \<in> set (slot_victims head running jobs config w)"
  shows "\<exists>r j. r \<in> set running \<and> run_slot r = w \<and> run_job r = v_job v \<and> run_resources r = v_resources v
     \<and> arena_get jobs (v_job v) = Some j \<and> state j = Running \<and> priority_class j < priority_class head
     \<and> preemptions j < max_preemptions config"
proof -
  have "\<exists>x\<in>set xs. f x = Some v" if "v \<in> set (List.map_filter f xs)" for f :: "running_job \<Rightarrow> victim option" and xs
    using that by (auto simp: map_filter_def)
  with assms obtain r where "r \<in> set running" "run_slot r = w" "victim_of head jobs config r = Some v"
    by (fastforce simp: slot_victims_def)
  then show ?thesis by (auto simp: victim_of_def split: option.splits if_splits)
qed

section \<open>The choice among the slots\<close>

text \<open>The order of plans: fewer victims, then less lost runtime.\<close>

definition cost :: "victim list \<times> u64 \<times> nat \<Rightarrow> nat \<times> u64" where
  "cost p = (snd (snd p), fst (snd p))"

definition best_of ::
  "(slot_index \<Rightarrow> (victim list \<times> u64 \<times> nat) option) \<Rightarrow> slot_index set
     \<Rightarrow> (slot_index \<times> nat \<times> u64) option \<times> victim list \<Rightarrow> bool" where
  "best_of plan W bc \<longleftrightarrow>
     (case fst bc of
        None \<Rightarrow> (\<forall>w\<in>W. plan w = None)
      | Some (w, n, l) \<Rightarrow> w \<in> W
          \<and> (\<exists>vs. plan w = Some (vs, l, n) \<and> snd bc = take n vs)
          \<and> (\<forall>w'\<in>W. \<forall>p. plan w' = Some p \<longrightarrow> (n, l) \<le> cost p))"

lemma plan_loop_best:
  assumes "best_of (slot_plan head running jobs iv now config) W (best, chosen)"
  shows "best_of (slot_plan head running jobs iv now config) (W \<union> set ws)
     (plan_loop ws head running jobs iv now config best chosen)"
  using assms
proof (induction ws arbitrary: W best chosen)
  case (Cons w ws)
  let ?plan = "slot_plan head running jobs iv now config"
  have step: "best_of ?plan (insert w W \<union> set ws) (plan_loop ws head running jobs iv now config b c)"
    if "best_of ?plan (insert w W) (b, c)" for b c
    using Cons.IH [OF that] .
  show ?case
  proof (cases "?plan w")
    case None
    with Cons.prems have "best_of ?plan (insert w W) (best, chosen)"
      by (auto simp: best_of_def split: option.splits)
    from step [OF this] None show ?thesis by simp
  next
    case (Some p)
    obtain vs l n where p: "p = (vs, l, n)" by (cases p)
    let ?better = "case best of None \<Rightarrow> True | Some (_, m, l') \<Rightarrow> n < m \<or> n = m \<and> l < l'"
    show ?thesis
    proof (cases ?better)
      case True
      have "(n, l) \<le> cost q" if "w' \<in> W" "?plan w' = Some q" for w' q
      proof (cases best)
        case None
        with Cons.prems that show ?thesis by (simp add: best_of_def)
      next
        case (Some b)
        obtain a m l' where b: "b = (a, m, l')" by (cases b)
        from True Some b have "(n, l) \<le> (m, l')" by auto
        also from Cons.prems Some b that have "(m, l') \<le> cost q"
          by (cases q) (simp add: best_of_def)
        finally show ?thesis .
      qed
      with Some p have "best_of ?plan (insert w W) (Some (w, n, l), take n vs)"
        by (simp add: best_of_def) (simp add: cost_def)
      from step [OF this] True Some p show ?thesis by simp
    next
      case False
      with Cons.prems Some p have "best_of ?plan (insert w W) (best, chosen)"
        by (cases best) (auto simp: best_of_def cost_def less_eq_prod_def not_less)
      from step [OF this] False Some p show ?thesis by simp
    qed
  qed
qed simp


definition may_preempt :: "job \<Rightarrow> running_job list \<Rightarrow> job arena \<Rightarrow> preempt_config \<Rightarrow> bool" where
  "may_preempt head running jobs config \<longleftrightarrow>
     (\<exists>lowest. min_class config = Some lowest \<and> lowest \<le> priority_class head)
     \<and> (\<forall>r\<in>set running. \<forall>j. arena_get jobs (run_job r) = Some j \<longrightarrow> state j \<noteq> Preempted)"

text \<open>The three ways a call ends.\<close>

lemma plan_preemption_cases:
  assumes "length (inv_slots iv) < 2 ^ 32"
  obtains (off) "\<not> may_preempt head running jobs config"
      "plan_preemption head running jobs iv now config out = Some (out, None)"
  | (no_plan) "may_preempt head running jobs config"
      "plan_preemption head running jobs iv now config out = Some (out, None)"
      "\<And>w. slot_plan head running jobs iv now config w = None"
  | (plan) w vs l n where "may_preempt head running jobs config"
      "plan_preemption head running jobs iv now config out
         = Some (out @ map (\<lambda>v. \<lparr>ev_job = v_job v, ev_slot = w\<rparr>) (take n vs), Some w)"
      "slot_plan head running jobs iv now config w = Some (vs, l, n)"
      "\<And>w' p. slot_plan head running jobs iv now config w' = Some p \<Longrightarrow> (n, l) \<le> cost p"
proof (cases "may_preempt head running jobs config")
  case False
  then have "plan_preemption head running jobs iv now config out = Some (out, None)"
    by (auto simp: may_preempt_def plan_preemption_def list_ex_iff not_le split: option.splits)
  with False show thesis by (rule off)
next
  case True
  let ?plan = "slot_plan head running jobs iv now config"
  let ?ws = "map of_nat [0..<unat (of_nat (length (inv_slots iv)) :: slot_index)] :: slot_index list"
  let ?bc = "plan_loop ?ws head running jobs iv now config None []"
  have in_ws: "w \<in> set ?ws" if "?plan w \<noteq> None" for w
    using that unfolding set_slot_indices [OF assms] by (auto simp: slot_plan_def split: option.splits)
  have "best_of ?plan {} (None, [])" by (simp add: best_of_def)
  from plan_loop_best [OF this, of ?ws] have best: "best_of ?plan (set ?ws) ?bc" by simp
  have eq: "plan_preemption head running jobs iv now config out = (case ?bc of
      (None, chosen) \<Rightarrow> Some (out, None)
    | (Some (slot, _, _), chosen) \<Rightarrow>
        Some (out @ map (\<lambda>v. \<lparr>ev_job = v_job v, ev_slot = slot\<rparr>) chosen, Some slot))"
    using True
    by (auto simp: plan_preemption_def may_preempt_def inv_len_Some [OF assms] list_ex_iff
        split: option.splits)
  show thesis
  proof (cases "fst ?bc")
    case None
    with best in_ws have "?plan w = None" for w by (fastforce simp: best_of_def)
    moreover from eq None have "plan_preemption head running jobs iv now config out = Some (out, None)"
      by (simp add: case_prod_unfold)
    ultimately show thesis using no_plan True by blast
  next
    case (Some b)
    obtain w n l where b: "b = (w, n, l)" by (cases b)
    with best Some obtain vs where vs: "?plan w = Some (vs, l, n)" "snd ?bc = take n vs"
      by (auto simp: best_of_def)
    have "(n, l) \<le> cost p" if "?plan w' = Some p" for w' p
      using best Some b that in_ws [of w'] by (cases p) (auto simp: best_of_def)
    moreover from eq Some b vs(2) have "plan_preemption head running jobs iv now config out
        = Some (out @ map (\<lambda>v. \<lparr>ev_job = v_job v, ev_slot = w\<rparr>) (take n vs), Some w)"
      by (simp add: case_prod_unfold)
    ultimately show thesis using plan True vs(1) by blast
  qed
qed

section \<open>Properties\<close>

definition victim_arena :: "job arena" where
  "victim_arena = (case arena_insert arena_new
     ((job_new 0 Low 0 sample_request 100)\<lparr>state := Running\<rparr>) of Some (a, i) \<Rightarrow> a | None \<Rightarrow> arena_new)"

definition urgent_head :: job where
  "urgent_head = job_new 1 Urgent 0 sample_request 50"

definition victim_running :: "running_job list" where
  "victim_running = [\<lparr>run_job = 0, run_slot = 1, run_resources = sample_request, run_ends_at = 100\<rparr>]"

definition preempt_config_on :: preempt_config where
  "preempt_config_on = preempt_config_default\<lparr>min_class := Some High\<rparr>"

text \<open>
  C17. A plan evicts only what it may and makes room: planning never panics; it chooses victims
  only when the head's class allows preemption and no eviction is in flight, and then every victim
  is a running job of strictly lower class, not yet evicted too often, on the slot it returns;
  what is free there plus what the victims hold covers the head, and without the last victim it
  would not. If it returns no slot, it asks for no eviction.
\<close>

theorem preemption_plan_sound:
  assumes "length (inv_slots iv) < 2 ^ 32"
  shows "\<exists>out' r. plan_preemption head running jobs iv now config out = Some (out', r)
     \<and> (r = None \<longrightarrow> out' = out)
     \<and> (\<forall>w. r = Some w \<longrightarrow> may_preempt head running jobs config
          \<and> (\<exists>(vs :: victim list) s. vs \<noteq> [] \<and> out' = out @ map (\<lambda>v. \<lparr>ev_job = v_job v, ev_slot = w\<rparr>) vs
             \<and> (\<forall>v\<in>set vs. \<exists>x j. x \<in> set running \<and> run_slot x = w \<and> run_job x = v_job v
                  \<and> run_resources x = v_resources v \<and> arena_get jobs (v_job v) = Some j
                  \<and> state j = Running \<and> priority_class j < priority_class head
                  \<and> preemptions j < max_preemptions config)
             \<and> inv_slot iv w = Some s
             \<and> fits_within (request head) (res_total (slot_free s) (map v_resources vs))
             \<and> \<not> fits_within (request head) (res_total (slot_free s) (map v_resources (butlast vs)))))"
  using assms
proof (cases rule: plan_preemption_cases [where head = head and running = running and jobs = jobs
      and now = now and config = config and out = out])
  case (plan w vs l n)
  from slot_plan_Some [OF plan(3)] obtain s where s: "inv_slot iv w = Some s"
    "vs = slot_victims head running jobs config w" "0 < n" "n \<le> length vs"
    "fits_within (request head) (res_total (slot_free s) (map v_resources (take n vs)))"
    "\<forall>m < n. \<not> fits_within (request head) (res_total (slot_free s) (map v_resources (take m vs)))"
    by blast
  have bl: "butlast (take n vs) = take (n - 1) vs" using s(3,4) by (simp add: butlast_take)
  have ok: "\<forall>v\<in>set (take n vs). \<exists>x j. x \<in> set running \<and> run_slot x = w \<and> run_job x = v_job v
      \<and> run_resources x = v_resources v \<and> arena_get jobs (v_job v) = Some j
      \<and> state j = Running \<and> priority_class j < priority_class head
      \<and> preemptions j < max_preemptions config"
    using slot_victims_eligible by (auto simp: s(2) dest!: in_set_takeD)
  have "take n vs \<noteq> []" using s(3,4) by auto
  moreover have "\<not> fits_within (request head)
      (res_total (slot_free s) (map v_resources (butlast (take n vs))))"
    unfolding bl using s(3,6) by simp
  ultimately have "\<exists>(vs' :: victim list) s. vs' \<noteq> [] \<and> map (\<lambda>v. \<lparr>ev_job = v_job v, ev_slot = w\<rparr>) (take n vs)
      = map (\<lambda>v. \<lparr>ev_job = v_job v, ev_slot = w\<rparr>) vs'
      \<and> (\<forall>v\<in>set vs'. \<exists>x j. x \<in> set running \<and> run_slot x = w \<and> run_job x = v_job v
          \<and> run_resources x = v_resources v \<and> arena_get jobs (v_job v) = Some j
          \<and> state j = Running \<and> priority_class j < priority_class head
          \<and> preemptions j < max_preemptions config)
      \<and> inv_slot iv w = Some s
      \<and> fits_within (request head) (res_total (slot_free s) (map v_resources vs'))
      \<and> \<not> fits_within (request head) (res_total (slot_free s) (map v_resources (butlast vs')))"
    using s(1,5) ok by (intro exI [of _ "take n vs"] exI [of _ s] conjI) (assumption | rule refl)+
  with plan(1,2) show ?thesis by simp
qed simp_all

theorem preemption_plan_sound_witness:
  "\<exists>out'. plan_preemption urgent_head victim_running victim_arena full_inventory 5 preempt_config_on []
       = Some (out', Some 1)
     \<and> (\<exists>out' r. plan_preemption urgent_head victim_running victim_arena full_inventory 5
          preempt_config_on [] = Some (out', r) \<and> (r = None \<longrightarrow> out' = []))"
proof -
  have "plan_preemption urgent_head victim_running victim_arena full_inventory 5 preempt_config_on []
      = Some ([\<lparr>ev_job = 0, ev_slot = 1\<rparr>], Some 1)" by code_simp
  moreover have "length (inv_slots full_inventory) = 2" by code_simp
  then have "length (inv_slots full_inventory) < 2 ^ 32" by simp
  from preemption_plan_sound [OF this, of urgent_head victim_running victim_arena 5
      preempt_config_on "[]"]
  have "\<exists>out' r. plan_preemption urgent_head victim_running victim_arena full_inventory 5
      preempt_config_on [] = Some (out', r) \<and> (r = None \<longrightarrow> out' = [])" by blast
  ultimately show ?thesis by blast
qed



end
