(* ===== verification/Eligibility.thy ===== *)
theory Eligibility
  imports Job_Model
begin

text \<open>
  Dependency eligibility (\<open>policy/eligibility.rs\<close>): side tables indexed by arena index, with the
  reverse edges that wake dependents when a job completes and cancel them when it does not.
\<close>

section \<open>State\<close>

definition NO_OWNER :: job_id where
  "NO_OWNER = - 1"

datatype readiness = Readiness_Ready | Readiness_Blocked | Readiness_Cancelled

datatype dependency_error = DependencyError (err_job: job_id) (err_dependency: job_id)

record dependency_tracker =
  dt_owner :: "job_id list"
  dt_unsatisfied :: "u32 list"
  dt_dependents :: "job_id list list"
  dt_stack :: "job_id list"

section \<open>Operations\<close>

definition tracker_new :: dependency_tracker where
  "tracker_new = \<lparr>dt_owner = [], dt_unsatisfied = [], dt_dependents = [], dt_stack = []\<rparr>"

definition tracker_reserve_slots :: "dependency_tracker \<Rightarrow> nat \<Rightarrow> dependency_tracker" where
  "tracker_reserve_slots t n =
     (if length (dt_owner t) < n
      then t\<lparr>dt_owner := vec_resize (dt_owner t) n NO_OWNER,
             dt_unsatisfied := vec_resize (dt_unsatisfied t) n 0,
             dt_dependents := vec_resize (dt_dependents t) n []\<rparr>
      else t)"

definition tracker_with_slots :: "nat \<Rightarrow> dependency_tracker" where
  "tracker_with_slots n = tracker_reserve_slots tracker_new n"

definition is_tracked :: "dependency_tracker \<Rightarrow> job_id \<Rightarrow> bool" where
  "is_tracked t i \<longleftrightarrow> vec_get (dt_owner t) (unat (job_index i)) = Some i"

definition unsatisfied :: "dependency_tracker \<Rightarrow> job_id \<Rightarrow> u32 option option" where
  "unsatisfied t i =
     (if is_tracked t i then map_option Some (vec_index (dt_unsatisfied t) (unat (job_index i)))
      else Some None)"

definition clear_index :: "dependency_tracker \<Rightarrow> nat \<Rightarrow> dependency_tracker option" where
  "clear_index t n =
     do { ow \<leftarrow> vec_set (dt_owner t) n NO_OWNER;
          un \<leftarrow> vec_set (dt_unsatisfied t) n 0;
          ds \<leftarrow> vec_set (dt_dependents t) n [];
          Some (t\<lparr>dt_owner := ow, dt_unsatisfied := un, dt_dependents := ds\<rparr>) }"

fun classify_loop ::
  "job_id \<Rightarrow> job arena \<Rightarrow> job_id list \<Rightarrow> u32 \<Rightarrow> dependency_error + readiness" where
  "classify_loop i jobs [] pending =
     Inr (if pending = 0 then Readiness_Ready else Readiness_Blocked)"
| "classify_loop i jobs (dep # ds) pending =
     (if dep = i then Inl (DependencyError i dep)
      else case arena_get jobs dep of
             None \<Rightarrow> Inl (DependencyError i dep)
           | Some target \<Rightarrow>
               (case state target of
                  Completed \<Rightarrow> classify_loop i jobs ds pending
                | Failed \<Rightarrow> Inr Readiness_Cancelled
                | Cancelled \<Rightarrow> Inr Readiness_Cancelled
                | _ \<Rightarrow> classify_loop i jobs ds (pending + 1)))"

definition classify :: "job_id \<Rightarrow> job \<Rightarrow> job arena \<Rightarrow> dependency_error + readiness" where
  "classify i j jobs = classify_loop i jobs (deps j) 0"

definition dep_pending :: "job arena \<Rightarrow> job_id \<Rightarrow> bool" where
  "dep_pending jobs d \<longleftrightarrow>
     (case arena_get jobs d of None \<Rightarrow> False | Some t \<Rightarrow> \<not> is_terminal (state t))"

text \<open>
  One round of the commit loop of \<open>register\<close> for a pending dependency: grow the tables, adopt the
  dependency if it does not own its index, and push the reverse edge.
\<close>

definition add_edge ::
  "dependency_tracker \<Rightarrow> job_id \<Rightarrow> job_id \<Rightarrow> dependency_tracker option" where
  "add_edge t dep i =
     (let t = tracker_reserve_slots t (unat (job_index dep) + 1);
          n = unat (job_index dep)
      in do { ow \<leftarrow> vec_index (dt_owner t) n;
              t \<leftarrow> (if ow \<noteq> dep then
                      do { t \<leftarrow> clear_index t n; ow' \<leftarrow> vec_set (dt_owner t) n dep;
                           Some (t\<lparr>dt_owner := ow'\<rparr>) }
                    else Some t);
              ds0 \<leftarrow> vec_index (dt_dependents t) n;
              dd \<leftarrow> vec_set (dt_dependents t) n (ds0 @ [i]);
              Some (t\<lparr>dt_dependents := dd\<rparr>) })"

fun register_loop ::
  "job_id \<Rightarrow> job arena \<Rightarrow> job_id list \<Rightarrow> dependency_tracker \<Rightarrow> u32 \<Rightarrow> (dependency_tracker \<times> u32) option"
where
  "register_loop i jobs [] t pending = Some (t, pending)"
| "register_loop i jobs (dep # ds) t pending =
     (if \<not> dep_pending jobs dep then register_loop i jobs ds t pending
      else do { t \<leftarrow> add_edge t dep i; register_loop i jobs ds t (pending + 1) })"

definition register ::
  "dependency_tracker \<Rightarrow> job_id \<Rightarrow> job \<Rightarrow> job arena
     \<Rightarrow> (dependency_tracker \<times> (dependency_error + readiness)) option" where
  "register t i j jobs =
     (case classify i j jobs of
        Inl e \<Rightarrow> Some (t, Inl e)
      | Inr r \<Rightarrow>
          (if r = Readiness_Cancelled then Some (t, Inr r)
           else
             let n = unat (job_index i);
                 t = tracker_reserve_slots t (n + 1)
             in do { t \<leftarrow> clear_index t n;
                     ow \<leftarrow> vec_set (dt_owner t) n i;
                     (t, pending) \<leftarrow> register_loop i jobs (deps j) (t\<lparr>dt_owner := ow\<rparr>) 0;
                     un \<leftarrow> vec_set (dt_unsatisfied t) n pending;
                     Some (t\<lparr>dt_unsatisfied := un\<rparr>, Inr r) }))"

text \<open>The loop of \<open>on_completed\<close> over the dependents of the completed job.\<close>

fun satisfy_loop ::
  "job_id list \<Rightarrow> dependency_tracker \<Rightarrow> job_id list \<Rightarrow> (dependency_tracker \<times> job_id list) option" where
  "satisfy_loop [] t promoted = Some (t, promoted)"
| "satisfy_loop (x # xs) t promoted =
     do { ow \<leftarrow> vec_index (dt_owner t) (unat (job_index x));
          if ow \<noteq> x then satisfy_loop xs t promoted
          else do {
            n \<leftarrow> vec_index (dt_unsatisfied t) (unat (job_index x));
            if n > 0 then do {
              un \<leftarrow> vec_set (dt_unsatisfied t) (unat (job_index x)) (n - 1);
              satisfy_loop xs (t\<lparr>dt_unsatisfied := un\<rparr>) (if n - 1 = 0 then promoted @ [x] else promoted) }
            else satisfy_loop xs t promoted } }"

definition deps_on_completed ::
  "dependency_tracker \<Rightarrow> job_id \<Rightarrow> job_id list \<Rightarrow> (dependency_tracker \<times> job_id list) option" where
  "deps_on_completed t i promoted =
     (if \<not> is_tracked t i then Some (t, promoted)
      else do { ds \<leftarrow> vec_index (dt_dependents t) (unat (job_index i));
                (t, promoted) \<leftarrow> satisfy_loop ds t promoted;
                t \<leftarrow> clear_index t (unat (job_index i));
                Some (t, promoted) })"

definition edge_total :: "dependency_tracker \<Rightarrow> nat" where
  "edge_total t = sum_list (map length (dt_dependents t))"

lemma edge_total_clear:
  assumes "clear_index t n = Some t'" and "vec_index (dt_dependents t) n = Some ds"
  shows "edge_total t' + length ds = edge_total t"
proof -
  from assms have n: "n < length (dt_dependents t)" "ds = dt_dependents t ! n"
    and t': "dt_dependents t' = (dt_dependents t)[n := []]"
    by (auto simp: clear_index_def vec_set_Some_iff vec_index_Some_iff)
  from n have "map length (dt_dependents t) ! n = length ds" by simp
  moreover have "map length (dt_dependents t') = (map length (dt_dependents t))[n := 0]"
    by (simp add: t' map_update)
  ultimately show ?thesis
    using n elem_le_sum_list [of n "map length (dt_dependents t)"]
    by (simp add: edge_total_def sum_list_update)
qed

text \<open>
  The work stack of \<open>on_terminated\<close>; the top is the last element. Every round pops one entry and
  either drops it or moves the reverse edges of its index onto the stack.
\<close>

function cascade_loop ::
  "job_id \<Rightarrow> job_id list \<Rightarrow> dependency_tracker \<Rightarrow> job_id list
     \<Rightarrow> (dependency_tracker \<times> job_id list) option" where
  "cascade_loop i stack t cascade =
     (if stack = [] then Some (t\<lparr>dt_stack := []\<rparr>, cascade)
      else
        let current = last stack; stack = butlast stack; n = unat (job_index current) in
        if vec_get (dt_owner t) n \<noteq> Some current then cascade_loop i stack t cascade
        else
          let cascade = (if current \<noteq> i then cascade @ [current] else cascade) in
          do { ds \<leftarrow> vec_index (dt_dependents t) n;
               t' \<leftarrow> clear_index t n;
               cascade_loop i (stack @ ds) t' cascade })"
  by auto
termination
proof (relation "measure (\<lambda>(i, stack, t, cascade). length stack + edge_total t)", goal_cases)
  case (3 i stack t cascade current stack' n cascade' ds t')
  then have "edge_total t' + length ds = edge_total t" "length stack = Suc (length stack')"
    by (auto intro!: edge_total_clear)
  then show ?case by simp
qed auto

declare cascade_loop.simps [simp del]

definition on_terminated ::
  "dependency_tracker \<Rightarrow> job_id \<Rightarrow> job_id list \<Rightarrow> (dependency_tracker \<times> job_id list) option" where
  "on_terminated t i cascade = cascade_loop i [i] t cascade"

definition retire :: "dependency_tracker \<Rightarrow> job_id \<Rightarrow> dependency_tracker option" where
  "retire t i = (if is_tracked t i then clear_index t (unat (job_index i)) else Some t)"

section \<open>The tracker read as a graph\<close>

abbreviation dep_ix :: "job_id \<Rightarrow> nat" where
  "dep_ix j \<equiv> unat (job_index j)"

definition tr_deps :: "dependency_tracker \<Rightarrow> job_id \<Rightarrow> job_id list" where
  "tr_deps t i = (if is_tracked t i then dt_dependents t ! dep_ix i else [])"

definition tr_unsat :: "dependency_tracker \<Rightarrow> job_id \<Rightarrow> nat" where
  "tr_unsat t i = (if is_tracked t i then unat (dt_unsatisfied t ! dep_ix i) else 0)"

text \<open>
  The tables are parallel, every edge points into them, and the index of the sentinel handle is
  out of range.
\<close>

definition tracker_wf :: "dependency_tracker \<Rightarrow> bool" where
  "tracker_wf t \<longleftrightarrow> length (dt_owner t) < 2 ^ 32 \<and> length (dt_unsatisfied t) = length (dt_owner t)
     \<and> length (dt_dependents t) = length (dt_owner t)
     \<and> (\<forall>ds\<in>set (dt_dependents t). \<forall>x\<in>set ds. dep_ix x < length (dt_owner t))"

lemma is_tracked_iff: "is_tracked t i \<longleftrightarrow> dep_ix i < length (dt_owner t) \<and> dt_owner t ! dep_ix i = i"
  by (simp add: is_tracked_def)

lemma is_tracked_inj: "is_tracked t i \<Longrightarrow> is_tracked t j \<Longrightarrow> dep_ix i = dep_ix j \<Longrightarrow> i = j"
  by (auto simp: is_tracked_iff)

lemma tracker_wf_edges:
  "tracker_wf t \<Longrightarrow> x \<in> set (tr_deps t i) \<Longrightarrow> dep_ix x < length (dt_owner t)"
  by (auto simp: tracker_wf_def tr_deps_def is_tracked_iff split: if_splits)

lemma tracker_new_wf: "tracker_wf tracker_new" "\<not> is_tracked tracker_new i"
  by (simp_all add: tracker_wf_def tracker_new_def is_tracked_def vec_get_def)

lemma dep_ix_NO_OWNER: "dep_ix NO_OWNER = 2 ^ 32 - 1"
proof -
  have "job_index NO_OWNER = - 1" by code_simp
  then show ?thesis by (simp add: unat_minus_one_word_eq)
qed

lemma NO_OWNER_untracked: "tracker_wf t \<Longrightarrow> \<not> is_tracked t NO_OWNER"
  by (simp add: is_tracked_iff dep_ix_NO_OWNER tracker_wf_def)

lemma reserve_tracker:
  assumes wf: "tracker_wf t" and n: "n < 2 ^ 32"
  defines "t' \<equiv> tracker_reserve_slots t n"
  shows "tracker_wf t'" and "n \<le> length (dt_owner t')" and "length (dt_owner t) \<le> length (dt_owner t')"
    and "is_tracked t' j \<longleftrightarrow> is_tracked t j" and "tr_deps t' j = tr_deps t j"
    and "tr_unsat t' j = tr_unsat t j"
proof -
  have len: "length (dt_unsatisfied t) = length (dt_owner t)" "length (dt_dependents t) = length (dt_owner t)"
    using wf by (simp_all add: tracker_wf_def)
  show "n \<le> length (dt_owner t')" "length (dt_owner t) \<le> length (dt_owner t')"
    by (auto simp: t'_def tracker_reserve_slots_def)
  show wf': "tracker_wf t'"
  proof (cases "length (dt_owner t) < n")
    case True
    then have "dt_dependents t' = dt_dependents t @ replicate (n - length (dt_owner t)) []"
      using len by (simp add: t'_def tracker_reserve_slots_def vec_resize_def)
    with wf n True show ?thesis
      by (auto simp: tracker_wf_def t'_def tracker_reserve_slots_def intro: less_trans)
  qed (use wf in \<open>simp add: t'_def tracker_reserve_slots_def\<close>)
  show tr: "is_tracked t' j \<longleftrightarrow> is_tracked t j"
    using NO_OWNER_untracked [OF wf'] NO_OWNER_untracked [OF wf]
    by (auto simp: t'_def tracker_reserve_slots_def is_tracked_iff nth_vec_resize split: if_splits)
  have same: "dt_dependents t' ! i = dt_dependents t ! i" "dt_unsatisfied t' ! i = dt_unsatisfied t ! i"
    if "i < length (dt_owner t)" for i
    using that len by (auto simp: t'_def tracker_reserve_slots_def nth_vec_resize)
  show "tr_deps t' j = tr_deps t j" "tr_unsat t' j = tr_unsat t j"
    using tr same by (auto simp: tr_deps_def tr_unsat_def is_tracked_iff)
qed

lemma clear_index_Some:
  assumes "tracker_wf t" and "n < length (dt_owner t)"
  defines "t' \<equiv> t\<lparr>dt_owner := (dt_owner t)[n := NO_OWNER], dt_unsatisfied := (dt_unsatisfied t)[n := 0],
              dt_dependents := (dt_dependents t)[n := []]\<rparr>"
  shows "clear_index t n = Some t'" and "tracker_wf t'"
proof -
  show "clear_index t n = Some t'"
    using assms by (simp add: clear_index_def tracker_wf_def)
  show "tracker_wf t'"
    using assms(1) unfolding tracker_wf_def t'_def
    by (auto dest!: set_update_subset_insert [THEN subsetD])
qed

lemma clear_index_tracked:
  assumes wf: "tracker_wf t" and tr: "is_tracked t i"
  shows "\<exists>t'. clear_index t (dep_ix i) = Some t' \<and> tracker_wf t'
    \<and> length (dt_owner t') = length (dt_owner t)
    \<and> (\<forall>j. is_tracked t' j \<longleftrightarrow> is_tracked t j \<and> j \<noteq> i)
    \<and> (\<forall>j. tr_deps t' j = (if j = i then [] else tr_deps t j))
    \<and> (\<forall>j. tr_unsat t' j = (if j = i then 0 else tr_unsat t j))"
proof -
  let ?n = "dep_ix i"
  let ?t = "t\<lparr>dt_owner := (dt_owner t)[?n := NO_OWNER], dt_unsatisfied := (dt_unsatisfied t)[?n := 0],
              dt_dependents := (dt_dependents t)[?n := []]\<rparr>"
  have n: "?n < length (dt_owner t)" "dt_owner t ! ?n = i" using tr by (auto simp: is_tracked_iff)
  have c: "clear_index t ?n = Some ?t" "tracker_wf ?t" using clear_index_Some [OF wf n(1)] by auto
  have tr': "is_tracked ?t j \<longleftrightarrow> is_tracked t j \<and> j \<noteq> i" for j
  proof (cases "dep_ix j = ?n")
    case True
    then have "is_tracked ?t j \<longleftrightarrow> j = NO_OWNER \<and> is_tracked ?t j"
      using n(1) by (auto simp: is_tracked_iff)
    with NO_OWNER_untracked [OF c(2)] have "\<not> is_tracked ?t j" by blast
    moreover have "is_tracked t j \<longrightarrow> j = i" using True n by (auto simp: is_tracked_iff)
    ultimately show ?thesis by blast
  next
    case False
    then show ?thesis by (auto simp: is_tracked_iff)
  qed
  have ne: "dep_ix j \<noteq> ?n" if "is_tracked t j" "j \<noteq> i" for j
    using that tr is_tracked_inj by blast
  have d: "tr_deps ?t j = (if j = i then [] else tr_deps t j)"
    "tr_unsat ?t j = (if j = i then 0 else tr_unsat t j)" for j
    using tr' [of j] ne [of j] by (auto simp: tr_deps_def tr_unsat_def)
  show ?thesis using c tr' d by (intro exI [of _ ?t]) simp
qed

section \<open>The cascade\<close>

definition dep_rel :: "dependency_tracker \<Rightarrow> (job_id \<times> job_id) set" where
  "dep_rel t = {(a, b). b \<in> set (tr_deps t a) \<and> is_tracked t b}"

definition dep_reach :: "dependency_tracker \<Rightarrow> job_id set \<Rightarrow> job_id set" where
  "dep_reach t S = {x. \<exists>s\<in>S. is_tracked t s \<and> (s, x) \<in> (dep_rel t)\<^sup>*}"

lemma dep_reach_tracked: "x \<in> dep_reach t S \<Longrightarrow> is_tracked t x"
  by (auto simp: dep_reach_def dep_rel_def elim: rtranclE)

lemma dep_reach_empty [simp]: "dep_reach t {} = {}"
  by (simp add: dep_reach_def)

lemma dep_reach_self: "s \<in> S \<Longrightarrow> is_tracked t s \<Longrightarrow> s \<in> dep_reach t S"
  by (auto simp: dep_reach_def)

lemma dep_reach_step:
  "x \<in> dep_reach t S \<Longrightarrow> y \<in> set (tr_deps t x) \<Longrightarrow> is_tracked t y \<Longrightarrow> y \<in> dep_reach t S"
  by (auto simp: dep_reach_def dep_rel_def intro: rtrancl_into_rtrancl)

lemma dep_reach_induct [consumes 1, case_names base step]:
  assumes "x \<in> dep_reach t S" and "\<And>s. s \<in> S \<Longrightarrow> is_tracked t s \<Longrightarrow> P s"
    and "\<And>y z. y \<in> dep_reach t S \<Longrightarrow> P y \<Longrightarrow> z \<in> set (tr_deps t y) \<Longrightarrow> is_tracked t z \<Longrightarrow> P z"
  shows "P x"
proof -
  from assms(1) obtain s where s: "s \<in> S" "is_tracked t s" "(s, x) \<in> (dep_rel t)\<^sup>*"
    by (auto simp: dep_reach_def)
  from s(3) show ?thesis
  proof (induction rule: rtrancl_induct)
    case (step y z)
    moreover from step(1) s have "y \<in> dep_reach t S" by (auto simp: dep_reach_def)
    ultimately show ?case using assms(3) [of y z] by (auto simp: dep_rel_def)
  qed (use s assms(2) in blast)
qed

lemma dep_reach_untracked: "\<not> is_tracked t c \<Longrightarrow> dep_reach t (insert c S) = dep_reach t S"
  by (auto simp: dep_reach_def)

lemma dep_reach_visit:
  assumes "is_tracked t c"
    and tr: "\<forall>j. is_tracked t' j \<longleftrightarrow> is_tracked t j \<and> j \<noteq> c"
    and de: "\<forall>j. tr_deps t' j = (if j = c then [] else tr_deps t j)"
  shows "dep_reach t (insert c S) = insert c (dep_reach t' (S \<union> set (tr_deps t c)))" (is "?l = ?r")
proof (intro equalityI subsetI)
  fix x assume "x \<in> ?l"
  then show "x \<in> ?r"
  proof (induction rule: dep_reach_induct)
    case (base s)
    then show ?case using tr by (auto intro: dep_reach_self)
  next
    case (step y z)
    show ?case
    proof (cases "z = c")
      case False
      with step tr have z: "is_tracked t' z" by simp
      show ?thesis
      proof (cases "y = c")
        case True
        with step z show ?thesis by (auto intro: dep_reach_self)
      next
        case False
        with step z de show ?thesis using dep_reach_step [of y t' _ z] by auto
      qed
    qed simp
  qed
next
  fix x assume "x \<in> ?r"
  then consider "x = c" | "x \<in> dep_reach t' (S \<union> set (tr_deps t c))" by blast
  then show "x \<in> ?l"
  proof cases
    case 2
    then show ?thesis
    proof (induction rule: dep_reach_induct)
      case (base s)
      with tr have "is_tracked t s" by simp
      moreover have "c \<in> dep_reach t (insert c S)" using assms(1) by (simp add: dep_reach_self)
      ultimately show ?case using base by (auto intro: dep_reach_self dep_reach_step)
    next
      case (step y z)
      then show ?case using tr de by (auto intro: dep_reach_step split: if_splits)
    qed
  qed (use assms(1) in \<open>simp add: dep_reach_self\<close>)
qed

lemma cascade_loop_spec:
  assumes "tracker_wf t"
  shows "\<exists>t' out. cascade_loop i stack t cas = Some (t', cas @ out) \<and> tracker_wf t'
    \<and> length (dt_owner t') = length (dt_owner t) \<and> distinct out
    \<and> set out = dep_reach t (set stack) - {i}
    \<and> (\<forall>j. is_tracked t' j \<longleftrightarrow> is_tracked t j \<and> j \<notin> dep_reach t (set stack))
    \<and> (\<forall>j. is_tracked t' j \<longrightarrow> tr_deps t' j = tr_deps t j \<and> tr_unsat t' j = tr_unsat t j)"
  using assms
proof (induction i stack t cas rule: cascade_loop.induct)
  case (1 i stack t cas)
  note wf = "1.prems"
  show ?case
  proof (cases "stack = []")
    case True
    then have "cascade_loop i stack t cas = Some (t\<lparr>dt_stack := []\<rparr>, cas)"
      by (simp add: cascade_loop.simps)
    with wf True show ?thesis
      by (auto simp: tracker_wf_def is_tracked_def tr_deps_def tr_unsat_def)
  next
    case False
    let ?c = "last stack" and ?s = "butlast stack"
    have set: "set stack = insert ?c (set ?s)"
      using False by (metis append_butlast_last_id list.set(1,2) set_append Un_commute Un_insert_left
        sup_bot.left_neutral)
    show ?thesis
    proof (cases "is_tracked t ?c")
      case untracked: False
      then have "cascade_loop i stack t cas = cascade_loop i ?s t cas"
        using False by (subst cascade_loop.simps) (simp add: is_tracked_def Let_def)
      moreover have "dep_reach t (set stack) = dep_reach t (set ?s)"
        unfolding set by (rule dep_reach_untracked [OF untracked])
      ultimately show ?thesis
        using "1.IH"(1) [OF False refl refl refl _ wf] untracked by (simp add: is_tracked_def)
    next
      case tracked: True
      from clear_index_tracked [OF wf tracked] obtain t1 where t1:
        "clear_index t (dep_ix ?c) = Some t1" "tracker_wf t1"
        "length (dt_owner t1) = length (dt_owner t)"
        "\<forall>j. is_tracked t1 j \<longleftrightarrow> is_tracked t j \<and> j \<noteq> ?c"
        "\<forall>j. tr_deps t1 j = (if j = ?c then [] else tr_deps t j)"
        "\<forall>j. tr_unsat t1 j = (if j = ?c then 0 else tr_unsat t j)" by auto
      have ds: "vec_index (dt_dependents t) (dep_ix ?c) = Some (tr_deps t ?c)"
        using tracked wf by (simp add: tr_deps_def is_tracked_iff tracker_wf_def)
      let ?cas = "if ?c \<noteq> i then cas @ [?c] else cas"
      have step: "cascade_loop i stack t cas = cascade_loop i (?s @ tr_deps t ?c) t1 ?cas"
        using False tracked ds t1(1) by (subst cascade_loop.simps) (simp add: is_tracked_def Let_def)
      have reach: "dep_reach t (set stack) = insert ?c (dep_reach t1 (set (?s @ tr_deps t ?c)))"
        unfolding set using dep_reach_visit [OF tracked t1(4,5)] by simp
      have nc: "?c \<notin> dep_reach t1 S" for S using dep_reach_tracked [of ?c t1 S] t1(4) by auto
      from "1.IH"(2) [OF False refl refl refl _ refl ds t1(1) t1(2)] tracked
      obtain t' out where o: "cascade_loop i (?s @ tr_deps t ?c) t1 ?cas = Some (t', ?cas @ out)"
        "tracker_wf t'" "length (dt_owner t') = length (dt_owner t1)" "distinct out"
        "set out = dep_reach t1 (set (?s @ tr_deps t ?c)) - {i}"
        "\<forall>j. is_tracked t' j \<longleftrightarrow> is_tracked t1 j \<and> j \<notin> dep_reach t1 (set (?s @ tr_deps t ?c))"
        "\<forall>j. is_tracked t' j \<longrightarrow> tr_deps t' j = tr_deps t1 j \<and> tr_unsat t' j = tr_unsat t1 j"
        by (auto simp: is_tracked_def)
      let ?out = "if ?c \<noteq> i then ?c # out else out"
      have "?cas @ out = cas @ ?out" by simp
      with step o(1) have "cascade_loop i stack t cas = Some (t', cas @ ?out)" by simp
      moreover have "distinct ?out" using o(4,5) nc by auto
      moreover have "set ?out = dep_reach t (set stack) - {i}" using reach o(5) by auto
      moreover have "is_tracked t' j \<longleftrightarrow> is_tracked t j \<and> j \<notin> dep_reach t (set stack)" for j
        using reach o(6) t1(4) by auto
      moreover have "is_tracked t' j \<longrightarrow> tr_deps t' j = tr_deps t j \<and> tr_unsat t' j = tr_unsat t j" for j
        using o(6,7) t1(4-6) by auto
      ultimately show ?thesis using o(2,3) t1(3) by (intro exI [of _ t'] exI [of _ ?out]) simp
    qed
  qed
qed

section \<open>Satisfying dependents\<close>

lemma satisfy_loop_spec:
  assumes "tracker_wf t" and "\<forall>x\<in>set xs. dep_ix x < length (dt_owner t)"
  shows "\<exists>t' out. satisfy_loop xs t pr = Some (t', pr @ out) \<and> tracker_wf t'
    \<and> dt_owner t' = dt_owner t \<and> dt_dependents t' = dt_dependents t
    \<and> (\<forall>j. tr_unsat t' j = tr_unsat t j - count_list xs j) \<and> distinct out
    \<and> set out = {x. is_tracked t x \<and> 0 < tr_unsat t x \<and> tr_unsat t x \<le> count_list xs x}"
  using assms
proof (induction xs arbitrary: t pr)
  case (Cons x xs)
  let ?n = "dep_ix x"
  have ix: "?n < length (dt_owner t)" "\<forall>y\<in>set xs. dep_ix y < length (dt_owner t)"
    "?n < length (dt_unsatisfied t)" using Cons.prems by (auto simp: tracker_wf_def)
  show ?case
  proof (cases "is_tracked t x \<and> 0 < tr_unsat t x")
    case False
    then have "satisfy_loop (x # xs) t pr = satisfy_loop xs t pr"
      using ix by (auto simp: is_tracked_iff tr_unsat_def word_gt_0 unat_eq_0)
    moreover have "tr_unsat t j - count_list (x # xs) j = tr_unsat t j - count_list xs j" for j
      using False by (auto simp: tr_unsat_def)
    moreover have "is_tracked t y \<and> 0 < tr_unsat t y \<and> tr_unsat t y \<le> count_list (x # xs) y
      \<longleftrightarrow> is_tracked t y \<and> 0 < tr_unsat t y \<and> tr_unsat t y \<le> count_list xs y" for y
      using False by auto
    ultimately show ?thesis using Cons.IH [OF Cons.prems(1) ix(2), of pr] by simp
  next
    case True
    then have ow: "dt_owner t ! ?n = x" and un: "0 < dt_unsatisfied t ! ?n"
      by (auto simp: is_tracked_iff tr_unsat_def word_gt_0 unat_eq_0)
    let ?w = "dt_unsatisfied t ! ?n - 1"
    let ?t = "t\<lparr>dt_unsatisfied := (dt_unsatisfied t)[?n := ?w]\<rparr>"
    let ?pr = "if ?w = 0 then pr @ [x] else pr"
    have wf: "tracker_wf ?t" using Cons.prems(1) by (simp add: tracker_wf_def)
    have w: "unat ?w = tr_unsat t x - 1" using True un by (simp add: tr_unsat_def unat_minus_one)
    have tr: "is_tracked ?t j \<longleftrightarrow> is_tracked t j" for j by (simp add: is_tracked_def)
    have us: "tr_unsat ?t j = (if j = x then tr_unsat t x - 1 else tr_unsat t j)" for j
      using True w ix tr is_tracked_inj [of t x j]
      by (auto simp: tr_unsat_def nth_list_update)
    have step: "satisfy_loop (x # xs) t pr = satisfy_loop xs ?t ?pr"
      using ix ow un by simp
    from Cons.IH [OF wf, of ?pr] ix(2) obtain t' out where o: "satisfy_loop xs ?t ?pr = Some (t', ?pr @ out)"
      "tracker_wf t'" "dt_owner t' = dt_owner t" "dt_dependents t' = dt_dependents t"
      "\<forall>j. tr_unsat t' j = tr_unsat ?t j - count_list xs j" "distinct out"
      "set out = {y. is_tracked ?t y \<and> 0 < tr_unsat ?t y \<and> tr_unsat ?t y \<le> count_list xs y}" by auto
    let ?out = "if ?w = 0 then x # out else out"
    have w0: "?w = 0 \<longleftrightarrow> tr_unsat t x = 1" using w True by (metis Suc_pred One_nat_def diff_self_eq_0
      unat_eq_0)
    have eq: "?pr @ out = pr @ ?out" by simp
    have "satisfy_loop (x # xs) t pr = Some (t', pr @ ?out)" using trans [OF step o(1)] unfolding eq .
    moreover have "tr_unsat t' j = tr_unsat t j - count_list (x # xs) j" for j
      using o(5) us by simp
    moreover have "distinct ?out" using o(6,7) us w0 by auto
    moreover have "set ?out = {y. is_tracked t y \<and> 0 < tr_unsat t y \<and> tr_unsat t y \<le> count_list (x # xs) y}"
      using o(7) us w0 tr True by auto
    ultimately show ?thesis using o(2-4) by (intro exI [of _ t'] exI [of _ ?out]) simp
  qed
qed (use assms in \<open>auto\<close>)

lemma deps_on_completed_spec:
  assumes wf: "tracker_wf t" and tr: "is_tracked t i"
  shows "\<exists>t' out. deps_on_completed t i pr = Some (t', pr @ out) \<and> tracker_wf t'
    \<and> (\<forall>j. is_tracked t' j \<longleftrightarrow> is_tracked t j \<and> j \<noteq> i)
    \<and> (\<forall>j. tr_deps t' j = (if j = i then [] else tr_deps t j))
    \<and> (\<forall>j. tr_unsat t' j = (if j = i then 0 else tr_unsat t j - count_list (tr_deps t i) j))
    \<and> distinct out
    \<and> set out = {x. is_tracked t x \<and> 0 < tr_unsat t x \<and> tr_unsat t x \<le> count_list (tr_deps t i) x}"
proof -
  have ds: "vec_index (dt_dependents t) (dep_ix i) = Some (tr_deps t i)"
    using tr wf by (simp add: tr_deps_def is_tracked_iff tracker_wf_def)
  from satisfy_loop_spec [OF wf, of "tr_deps t i" pr] tracker_wf_edges [OF wf]
  obtain t1 out where t1: "satisfy_loop (tr_deps t i) t pr = Some (t1, pr @ out)" "tracker_wf t1"
    "dt_owner t1 = dt_owner t" "dt_dependents t1 = dt_dependents t"
    "\<forall>j. tr_unsat t1 j = tr_unsat t j - count_list (tr_deps t i) j" "distinct out"
    "set out = {x. is_tracked t x \<and> 0 < tr_unsat t x \<and> tr_unsat t x \<le> count_list (tr_deps t i) x}"
    by blast
  have tr1: "is_tracked t1 j \<longleftrightarrow> is_tracked t j" and de1: "tr_deps t1 j = tr_deps t j" for j
    using t1(3,4) by (simp_all add: is_tracked_def tr_deps_def)
  from clear_index_tracked [OF t1(2), of i] tr tr1 obtain t2 where t2:
    "clear_index t1 (dep_ix i) = Some t2" "tracker_wf t2"
    "\<forall>j. is_tracked t2 j \<longleftrightarrow> is_tracked t1 j \<and> j \<noteq> i"
    "\<forall>j. tr_deps t2 j = (if j = i then [] else tr_deps t1 j)"
    "\<forall>j. tr_unsat t2 j = (if j = i then 0 else tr_unsat t1 j)" by auto
  have "deps_on_completed t i pr = Some (t2, pr @ out)"
    using tr ds t1(1) t2(1) by (simp add: deps_on_completed_def)
  then show ?thesis using t1(5-7) t2(2-5) tr1 de1 by (intro exI [of _ t2] exI [of _ out]) simp
qed

section \<open>Registration\<close>

lemma classify_loop_accepts:
  assumes "classify_loop i jobs ds p = Inr r" and "r \<noteq> Readiness_Cancelled"
  shows "(\<forall>d\<in>set ds. d \<noteq> i \<and> (\<exists>t. arena_get jobs d = Some t \<and> state t \<noteq> Failed \<and> state t \<noteq> Cancelled))
    \<and> r = (if p + word_of_nat (length (filter (dep_pending jobs) ds)) = 0
            then Readiness_Ready else Readiness_Blocked)"
  using assms
proof (induction ds arbitrary: p)
  case (Cons d ds)
  from Cons.prems obtain t where t: "d \<noteq> i" "arena_get jobs d = Some t" "state t \<noteq> Failed"
    "state t \<noteq> Cancelled"
    by (auto split: if_splits option.splits job_state.splits)
  show ?case
  proof (cases "state t = Completed")
    case True
    with t Cons.prems have "classify_loop i jobs ds p = Inr r" by simp
    from Cons.IH [OF this Cons.prems(2)] t True show ?thesis by (auto simp: dep_pending_def)
  next
    case False
    with t Cons.prems have "classify_loop i jobs ds (p + 1) = Inr r"
      by (auto split: job_state.splits)
    moreover from t False have "dep_pending jobs d"
      by (cases "state t") (auto simp: dep_pending_def)
    ultimately show ?thesis
      using Cons.IH [OF _ Cons.prems(2), of "p + 1"] t by (auto simp: add.assoc)
  qed
qed auto

lemma classify_loop_rejects:
  "classify_loop i jobs ds p = Inl e
    \<Longrightarrow> err_job e = i \<and> err_dependency e \<in> set ds
      \<and> (err_dependency e = i \<or> arena_get jobs (err_dependency e) = None)"
  by (induction ds arbitrary: p) (auto split: if_splits option.splits job_state.splits)

lemma classify_loop_dooms:
  "classify_loop i jobs ds p = Inr Readiness_Cancelled
    \<Longrightarrow> \<exists>d\<in>set ds. \<exists>t. arena_get jobs d = Some t \<and> (state t = Failed \<or> state t = Cancelled)"
  by (induction ds arbitrary: p) (auto split: if_splits option.splits job_state.splits)

text \<open>Adopting a handle that does not own its index, and pushing one edge.\<close>

lemma adopt_spec:
  assumes wf: "tracker_wf t" and n: "dep_ix d < length (dt_owner t)" and new: "\<not> is_tracked t d"
    and own: "\<forall>j. is_tracked t j \<longrightarrow> dep_ix j = dep_ix d \<longrightarrow> j = d"
  defines "t' \<equiv> t\<lparr>dt_owner := (dt_owner t)[dep_ix d := d],
            dt_unsatisfied := (dt_unsatisfied t)[dep_ix d := 0],
            dt_dependents := (dt_dependents t)[dep_ix d := []]\<rparr>"
  shows "tracker_wf t'" and "is_tracked t' j \<longleftrightarrow> is_tracked t j \<or> j = d"
    and "tr_deps t' j = tr_deps t j" and "tr_unsat t' j = tr_unsat t j"
proof -
  show "tracker_wf t'"
    using wf unfolding tracker_wf_def t'_def by (auto dest!: set_update_subset_insert [THEN subsetD])
  have lens: "dep_ix d < length (dt_unsatisfied t)" "dep_ix d < length (dt_dependents t)"
    using wf n by (simp_all add: tracker_wf_def)
  have same: "is_tracked t j \<Longrightarrow> dep_ix j \<noteq> dep_ix d" using own new by metis
  show tr: "is_tracked t' j \<longleftrightarrow> is_tracked t j \<or> j = d"
  proof (cases "dep_ix j = dep_ix d")
    case True
    then have "is_tracked t' j \<longleftrightarrow> j = d" using n by (auto simp: t'_def is_tracked_iff)
    with same True show ?thesis by blast
  next
    case False
    then have "is_tracked t' j \<longleftrightarrow> is_tracked t j" by (auto simp: t'_def is_tracked_iff)
    with False show ?thesis by auto
  qed
  have "tr_deps t' j = tr_deps t j \<and> tr_unsat t' j = tr_unsat t j"
  proof (cases "j = d")
    case True
    with tr new lens show ?thesis by (simp add: tr_deps_def tr_unsat_def) (simp add: t'_def)
  next
    case False
    then have "is_tracked t' j \<longleftrightarrow> is_tracked t j" using tr by simp
    with same show ?thesis by (auto simp: tr_deps_def tr_unsat_def) (auto simp: t'_def)
  qed
  then show "tr_deps t' j = tr_deps t j" and "tr_unsat t' j = tr_unsat t j" by auto
qed

lemma push_edge_spec:
  assumes wf: "tracker_wf t" and tr: "is_tracked t d" and i: "dep_ix i < length (dt_owner t)"
  defines "t' \<equiv> t\<lparr>dt_dependents := (dt_dependents t)[dep_ix d := dt_dependents t ! dep_ix d @ [i]]\<rparr>"
  shows "tracker_wf t'" and "is_tracked t' j \<longleftrightarrow> is_tracked t j" and "tr_unsat t' j = tr_unsat t j"
    and "tr_deps t' j = tr_deps t j @ (if j = d then [i] else [])"
proof -
  have n: "dep_ix d < length (dt_dependents t)"
    using tr wf by (simp add: is_tracked_iff tracker_wf_def)
  then have "dt_dependents t ! dep_ix d \<in> set (dt_dependents t)" by simp
  with wf i show "tracker_wf t'" unfolding tracker_wf_def t'_def
    by (auto dest!: set_update_subset_insert [THEN subsetD])
  show tr': "is_tracked t' j \<longleftrightarrow> is_tracked t j" by (simp add: t'_def is_tracked_def)
  then show "tr_unsat t' j = tr_unsat t j" by (simp add: tr_unsat_def) (simp add: t'_def)
  show "tr_deps t' j = tr_deps t j @ (if j = d then [i] else [])"
    using tr' n tr is_tracked_inj [OF tr, of j]
    by (cases "j = d") (auto simp: tr_deps_def, auto simp: t'_def nth_list_update)
qed

lemma add_edge_spec:
  assumes wf: "tracker_wf t" and i: "dep_ix i < length (dt_owner t)" and d: "dep_ix d < 2 ^ 32 - 1"
    and own: "\<forall>j. is_tracked t j \<longrightarrow> dep_ix j = dep_ix d \<longrightarrow> j = d"
  shows "\<exists>t'. add_edge t d i = Some t' \<and> tracker_wf t' \<and> length (dt_owner t) \<le> length (dt_owner t')
    \<and> (\<forall>j. is_tracked t' j \<longleftrightarrow> is_tracked t j \<or> j = d)
    \<and> (\<forall>j. tr_deps t' j = tr_deps t j @ (if j = d then [i] else []))
    \<and> (\<forall>j. tr_unsat t' j = tr_unsat t j)"
proof -
  define t1 where "t1 = tracker_reserve_slots t (dep_ix d + 1)"
  let ?n = "dep_ix d"
  have "?n + 1 < 2 ^ 32" using d by simp
  note res = reserve_tracker [OF wf this, folded t1_def]
  have len: "?n < length (dt_owner t1)" using res(2) by simp
  define t2 where "t2 = (if is_tracked t1 d then t1
    else t1\<lparr>dt_owner := (dt_owner t1)[?n := d], dt_unsatisfied := (dt_unsatisfied t1)[?n := 0],
            dt_dependents := (dt_dependents t1)[?n := []]\<rparr>)"
  have own1: "\<forall>j. is_tracked t1 j \<longrightarrow> dep_ix j = ?n \<longrightarrow> j = d" using own res(4) by simp
  have t2: "tracker_wf t2" "is_tracked t2 j \<longleftrightarrow> is_tracked t j \<or> j = d" "tr_deps t2 j = tr_deps t j"
    "tr_unsat t2 j = tr_unsat t j" "length (dt_owner t2) = length (dt_owner t1)" for j
    using adopt_spec(1) [OF res(1) len _ own1] adopt_spec(2-4) [OF res(1) len _ own1, of j] res(1,4-6)
    by (cases "is_tracked t1 d"; auto simp: t2_def)+
  have lens: "?n < length (dt_dependents t2)" using t2(1,5) len by (simp add: tracker_wf_def)
  define t3 where "t3 = t2\<lparr>dt_dependents := (dt_dependents t2)[?n := dt_dependents t2 ! ?n @ [i]]\<rparr>"
  have "is_tracked t2 d" "dep_ix i < length (dt_owner t2)" using t2(2,5) i res(3) by auto
  note t3 = push_edge_spec [OF t2(1) this, folded t3_def]
  have t1_Suc: "tracker_reserve_slots t (Suc ?n) = t1" by (simp add: t1_def)
  have "add_edge t d i = Some t3"
    using len lens clear_index_Some(1) [OF res(1) len]
    by (cases "is_tracked t1 d")
      (simp_all add: add_edge_def t1_Suc Let_def t2_def t3_def is_tracked_iff)
  then show ?thesis
    using t2 t3 res(3) by (intro exI [of _ t3]) (simp add: arg_cong [OF t3_def, of dt_owner])
qed

lemma register_loop_spec:
  assumes "tracker_wf t" and "dep_ix i < length (dt_owner t)" and "inj_on dep_ix L"
    and "\<forall>j. is_tracked t j \<longrightarrow> j \<in> L"
    and "\<forall>d\<in>set (filter (dep_pending jobs) ds). d \<in> L \<and> dep_ix d < 2 ^ 32 - 1"
  shows "\<exists>t'. register_loop i jobs ds t p
      = Some (t', p + word_of_nat (length (filter (dep_pending jobs) ds)))
    \<and> tracker_wf t' \<and> length (dt_owner t) \<le> length (dt_owner t')
    \<and> (\<forall>j. is_tracked t' j \<longleftrightarrow> is_tracked t j \<or> j \<in> set (filter (dep_pending jobs) ds))
    \<and> (\<forall>j. tr_deps t' j
           = tr_deps t j @ replicate (count_list (filter (dep_pending jobs) ds) j) i)
    \<and> (\<forall>j. tr_unsat t' j = tr_unsat t j)"
  using assms
proof (induction ds arbitrary: t p)
  case (Cons d ds)
  show ?case
  proof (cases "dep_pending jobs d")
    case False
    with Cons.IH [OF Cons.prems(1-4), of p] Cons.prems(5) show ?thesis by simp
  next
    case True
    with Cons.prems(5) have d: "d \<in> L" "dep_ix d < 2 ^ 32 - 1" by auto
    have own: "\<forall>j. is_tracked t j \<longrightarrow> dep_ix j = dep_ix d \<longrightarrow> j = d"
      using Cons.prems(3,4) d(1) by (auto dest: inj_onD)
    from add_edge_spec [OF Cons.prems(1,2) d(2) own] obtain t1 where t1:
      "add_edge t d i = Some t1" "tracker_wf t1" "length (dt_owner t) \<le> length (dt_owner t1)"
      "\<forall>j. is_tracked t1 j \<longleftrightarrow> is_tracked t j \<or> j = d"
      "\<forall>j. tr_deps t1 j = tr_deps t j @ (if j = d then [i] else [])"
      "\<forall>j. tr_unsat t1 j = tr_unsat t j" by blast
    have i1: "dep_ix i < length (dt_owner t1)" using Cons.prems(2) t1(3) by simp
    have L1: "\<forall>j. is_tracked t1 j \<longrightarrow> j \<in> L" using t1(4) Cons.prems(4) d(1) by auto
    from Cons.IH [OF t1(2) i1 Cons.prems(3) L1, of "p + 1"] Cons.prems(5) obtain t' where t':
      "register_loop i jobs ds t1 (p + 1)
        = Some (t', p + 1 + word_of_nat (length (filter (dep_pending jobs) ds)))"
      "tracker_wf t'" "length (dt_owner t1) \<le> length (dt_owner t')"
      "\<forall>j. is_tracked t' j \<longleftrightarrow> is_tracked t1 j \<or> j \<in> set (filter (dep_pending jobs) ds)"
      "\<forall>j. tr_deps t' j = tr_deps t1 j @ replicate (count_list (filter (dep_pending jobs) ds) j) i"
      "\<forall>j. tr_unsat t' j = tr_unsat t1 j" by auto
    have "tr_deps t' j = tr_deps t j @ replicate (count_list (filter (dep_pending jobs) (d # ds)) j) i" for j
      using t'(5) t1(5) True by simp
    moreover have "register_loop i jobs (d # ds) t p
        = Some (t', p + word_of_nat (length (filter (dep_pending jobs) (d # ds))))"
      using True t1(1) t'(1) by (simp add: add.assoc)
    ultimately show ?thesis
      using t'(2-4,6) t1(3,4,6) True by (intro exI [of _ t']) auto
  qed
qed simp

lemma register_spec:
  assumes wf: "tracker_wf t" and i: "i \<in> L" "dep_ix i < 2 ^ 32 - 1" "\<not> is_tracked t i"
    and L: "inj_on dep_ix L" "\<forall>j. is_tracked t j \<longrightarrow> j \<in> L"
      "\<forall>d\<in>set (filter (dep_pending jobs) (deps job)). d \<in> L \<and> dep_ix d < 2 ^ 32 - 1"
    and cl: "classify i job jobs = Inr r" "r \<noteq> Readiness_Cancelled"
    and n: "length (deps job) < 2 ^ 32"
  shows "\<exists>t'. register t i job jobs = Some (t', Inr r) \<and> tracker_wf t'
    \<and> (\<forall>j. is_tracked t' j \<longleftrightarrow> is_tracked t j \<or> j = i \<or> j \<in> set (filter (dep_pending jobs) (deps job)))
    \<and> (\<forall>j. tr_deps t' j
           = tr_deps t j @ replicate (count_list (filter (dep_pending jobs) (deps job)) j) i)
    \<and> (\<forall>j. tr_unsat t' j = (if j = i then length (filter (dep_pending jobs) (deps job)) else tr_unsat t j))"
proof -
  define t1 where "t1 = tracker_reserve_slots t (dep_ix i + 1)"
  let ?n = "dep_ix i" and ?ps = "filter (dep_pending jobs) (deps job)"
  have "?n + 1 < 2 ^ 32" using i(2) by simp
  note res = reserve_tracker [OF wf this, folded t1_def]
  have len: "?n < length (dt_owner t1)" using res(2) by simp
  define t2 where "t2 = t1\<lparr>dt_owner := (dt_owner t1)[?n := i], dt_unsatisfied := (dt_unsatisfied t1)[?n := 0],
            dt_dependents := (dt_dependents t1)[?n := []]\<rparr>"
  have own: "\<forall>j. is_tracked t1 j \<longrightarrow> dep_ix j = ?n \<longrightarrow> j = i"
    using L(1,2) i(1) res(4) by (auto dest: inj_onD)
  have new: "\<not> is_tracked t1 i" using i(3) res(4) by simp
  have t2: "tracker_wf t2" "is_tracked t2 j \<longleftrightarrow> is_tracked t j \<or> j = i" "tr_deps t2 j = tr_deps t j"
    "tr_unsat t2 j = tr_unsat t j" "length (dt_owner t2) = length (dt_owner t1)" for j
    using adopt_spec(1) [OF res(1) len new own] adopt_spec(2-4) [OF res(1) len new own, of j] res(4-6)
    by (simp_all add: t2_def)
  have "?n < length (dt_owner t2)" using len t2(5) by simp
  moreover have "\<forall>j. is_tracked t2 j \<longrightarrow> j \<in> L" using t2(2) L(2) i(1) by auto
  ultimately obtain t3 where t3:
    "register_loop i jobs (deps job) t2 0 = Some (t3, word_of_nat (length ?ps))" "tracker_wf t3"
    "length (dt_owner t2) \<le> length (dt_owner t3)"
    "\<forall>j. is_tracked t3 j \<longleftrightarrow> is_tracked t2 j \<or> j \<in> set ?ps"
    "\<forall>j. tr_deps t3 j = tr_deps t2 j @ replicate (count_list ?ps j) i"
    "\<forall>j. tr_unsat t3 j = tr_unsat t2 j"
    using register_loop_spec [OF t2(1) _ L(1) _ L(3), of i 0] by auto
  define t4 where "t4 = t3\<lparr>dt_unsatisfied := (dt_unsatisfied t3)[?n := word_of_nat (length ?ps)]\<rparr>"
  have n3: "?n < length (dt_unsatisfied t3)" using len t2(5) t3(2,3) by (simp add: tracker_wf_def)
  have t1_Suc: "tracker_reserve_slots t (Suc ?n) = t1" by (simp add: t1_def)
  have t2_alt: "t1\<lparr>dt_unsatisfied := (dt_unsatisfied t1)[?n := 0],
      dt_dependents := (dt_dependents t1)[?n := []], dt_owner := (dt_owner t1)[?n := i]\<rparr> = t2"
    by (cases t1) (simp add: t2_def)
  have "register t i job jobs = Some (t4, Inr r)"
    using cl len n3 t3(1) clear_index_Some(1) [OF res(1) len] t2_alt
    by (simp add: register_def Let_def t1_Suc t4_def)
  moreover have "tracker_wf t4" using t3(2) by (simp add: t4_def tracker_wf_def)
  moreover have tr4: "is_tracked t4 j \<longleftrightarrow> is_tracked t j \<or> j = i \<or> j \<in> set ?ps" for j
    using t3(4) t2(2) by (auto simp: t4_def is_tracked_def)
  moreover have "tr_deps t4 j = tr_deps t j @ replicate (count_list ?ps j) i" for j
  proof -
    have "tr_deps t4 j = tr_deps t3 j" by (simp add: t4_def tr_deps_def is_tracked_def)
    with t3(5) t2(3) show ?thesis by simp
  qed
  moreover have "tr_unsat t4 j = (if j = i then length ?ps else tr_unsat t j)" for j
  proof (cases "j = i")
    case True
    have "length ?ps < 2 ^ 32" using n length_filter_le [of "dep_pending jobs" "deps job"] by linarith
    then show ?thesis using True tr4 n3 by (simp add: tr_unsat_def) (simp add: t4_def)
  next
    case False
    have "is_tracked t4 j \<longleftrightarrow> is_tracked t3 j" by (simp add: t4_def is_tracked_def)
    moreover have "is_tracked t3 j \<Longrightarrow> dep_ix j \<noteq> ?n"
      using False t3(4) t2(2) is_tracked_inj [of t3 i j] by auto
    ultimately have "tr_unsat t4 j = tr_unsat t3 j" by (auto simp: tr_unsat_def t4_def)
    with False t3(6) t2(4) show ?thesis by simp
  qed
  ultimately show ?thesis by (intro exI [of _ t4]) simp
qed

lemma retire_spec:
  assumes "tracker_wf t"
  shows "\<exists>t'. retire t i = Some t' \<and> tracker_wf t'
    \<and> (\<forall>j. is_tracked t' j \<longleftrightarrow> is_tracked t j \<and> j \<noteq> i)
    \<and> (\<forall>j. tr_deps t' j = (if j = i then [] else tr_deps t j))
    \<and> (\<forall>j. tr_unsat t' j = (if j = i then 0 else tr_unsat t j))"
proof (cases "is_tracked t i")
  case True
  from clear_index_tracked [OF assms True] show ?thesis using True by (auto simp: retire_def)
next
  case False
  then show ?thesis using assms by (auto simp: retire_def tr_deps_def tr_unsat_def)
qed

lemma on_terminated_spec:
  assumes "tracker_wf t"
  shows "\<exists>t' out. on_terminated t i cas = Some (t', cas @ out) \<and> tracker_wf t'
    \<and> distinct out \<and> set out = dep_reach t {i} - {i}
    \<and> (\<forall>j. is_tracked t' j \<longleftrightarrow> is_tracked t j \<and> j \<notin> dep_reach t {i})
    \<and> (\<forall>j. is_tracked t' j \<longrightarrow> tr_deps t' j = tr_deps t j \<and> tr_unsat t' j = tr_unsat t j)"
  using cascade_loop_spec [OF assms, of i "[i]" cas] unfolding on_terminated_def by auto

section \<open>Properties\<close>

text \<open>A tracker with a diamond: job 0 is needed by 1 and 2, and both are needed by 3.\<close>

definition diamond :: dependency_tracker where
  "diamond = \<lparr>dt_owner = [0, 1, 2, 3], dt_unsatisfied = [0, 1, 1, 2],
     dt_dependents = [[1, 2], [3], [3], []], dt_stack = []\<rparr>"

lemma diamond_ix: "dep_ix 0 = 0" "dep_ix 1 = 1" "dep_ix 2 = 2" "dep_ix 3 = 3"
  by code_simp+

lemma diamond_wf: "tracker_wf diamond"
  by (auto simp: tracker_wf_def diamond_def diamond_ix)

text \<open>
  C19. The cascade is exactly the set of transitive dependents: it terminates and never panics,
  reports every tracked job reachable from the failed one through reverse edges, each once and
  the failed one not, retires all of them, and leaves the rest of the tables alone. A diamond
  of dependencies does not make a job appear twice.
\<close>

theorem cascade_is_reachable_set:
  assumes "tracker_wf t"
  shows "\<exists>t' out. on_terminated t i cas = Some (t', cas @ out) \<and> tracker_wf t'
    \<and> distinct out
    \<and> set out = {x. x \<noteq> i \<and> is_tracked t i \<and> (i, x) \<in> (dep_rel t)\<^sup>*}
    \<and> (\<forall>j. is_tracked t' j \<longleftrightarrow> is_tracked t j \<and> j \<noteq> i \<and> j \<notin> set out)
    \<and> (\<forall>j. is_tracked t' j \<longrightarrow> tr_deps t' j = tr_deps t j \<and> tr_unsat t' j = tr_unsat t j)"
proof -
  from on_terminated_spec [OF assms, of i cas] obtain t' out where o:
    "on_terminated t i cas = Some (t', cas @ out)" "tracker_wf t'" "distinct out"
    "set out = dep_reach t {i} - {i}"
    "\<forall>j. is_tracked t' j \<longleftrightarrow> is_tracked t j \<and> j \<notin> dep_reach t {i}"
    "\<forall>j. is_tracked t' j \<longrightarrow> tr_deps t' j = tr_deps t j \<and> tr_unsat t' j = tr_unsat t j" by blast
  have "set out = {x. x \<noteq> i \<and> is_tracked t i \<and> (i, x) \<in> (dep_rel t)\<^sup>*}"
    unfolding o(4) by (auto simp: dep_reach_def)
  moreover have "is_tracked t' j \<longleftrightarrow> is_tracked t j \<and> j \<noteq> i \<and> j \<notin> set out" for j
    using o(4,5) dep_reach_self [of i "{i}" t] by auto
  ultimately show ?thesis using o(1-3,6) by (intro exI [of _ t'] exI [of _ out]) simp
qed

theorem cascade_is_reachable_set_witness:
  "tracker_wf diamond \<and> map_option snd (on_terminated diamond 0 []) = Some [2, 3, 1]
   \<and> {x. x \<noteq> 0 \<and> is_tracked diamond 0 \<and> (0, x) \<in> (dep_rel diamond)\<^sup>*} = {1, 2, 3}"
proof -
  have run: "map_option snd (on_terminated diamond 0 []) = Some [2, 3, 1]" by code_simp
  from cascade_is_reachable_set [OF diamond_wf, of 0 "[]"] obtain t' out where
    o: "on_terminated diamond 0 [] = Some (t', [] @ out)"
    "set out = {x. x \<noteq> 0 \<and> is_tracked diamond 0 \<and> (0, x) \<in> (dep_rel diamond)\<^sup>*}" by blast
  from o(1) run have "out = [2, 3, 1]" by simp
  then have "set out = {1, 2, 3}" by auto
  with o(2) run diamond_wf show ?thesis by simp
qed

text \<open>
  Completing a job wakes exactly the jobs whose last dependency it was: for a tracked job
  the call does not panic, every dependent's count drops by the number of its edges from the
  job, the promoted jobs are those whose count was positive and reaches zero, each once, and
  only the completed job is retired.
\<close>

theorem completion_promotes_exactly:
  assumes "tracker_wf t" and "is_tracked t i"
  shows "\<exists>t' out. deps_on_completed t i pr = Some (t', pr @ out) \<and> tracker_wf t'
    \<and> (\<forall>j. is_tracked t' j \<longleftrightarrow> is_tracked t j \<and> j \<noteq> i)
    \<and> (\<forall>j. j \<noteq> i \<longrightarrow> tr_deps t' j = tr_deps t j
          \<and> tr_unsat t' j = tr_unsat t j - count_list (tr_deps t i) j)
    \<and> distinct out
    \<and> set out = {x. is_tracked t x \<and> 0 < tr_unsat t x \<and> tr_unsat t x \<le> count_list (tr_deps t i) x}"
  using deps_on_completed_spec [OF assms, of pr] by fastforce

theorem completion_promotes_exactly_witness:
  "tracker_wf diamond \<and> is_tracked diamond 0
   \<and> (\<exists>t' out. deps_on_completed diamond 0 [] = Some (t', out) \<and> out = [1, 2] \<and> tr_unsat t' 3 = 2)"
proof -
  have tr: "is_tracked diamond 0" by code_simp
  have run: "map_option snd (deps_on_completed diamond 0 []) = Some [1, 2]" by code_simp
  have v: "tr_unsat diamond 3 = 2" "count_list (tr_deps diamond 0) 3 = 0" by code_simp+
  from completion_promotes_exactly [OF diamond_wf tr, of "[]"] obtain t' out where
    "deps_on_completed diamond 0 [] = Some (t', out)"
    "\<forall>j. j \<noteq> 0 \<longrightarrow> tr_unsat t' j = tr_unsat diamond j - count_list (tr_deps diamond 0) j" by auto
  with run v tr diamond_wf show ?thesis by auto
qed

end
