(* ===== verification/Dependency_Graph.thy ===== *)
theory Dependency_Graph
  imports Eligibility
begin

text \<open>
  The dependency tracker against what it stands for. The scheduler's jobs, seen from the tracker,
  are a map from handles to a phase and a list of dependencies; \<open>graph_inv\<close> says that the tables
  describe this map exactly, and each operation of the tracker is shown to follow the map from one
  state to the next. The scheduler's proofs use these facts and never the tables.
\<close>

section \<open>Phases and views\<close>

datatype phase = New | Waiting | Active | Done | Dead

fun phase_of :: "job_state \<Rightarrow> phase" where
  "phase_of Submitted = New"
| "phase_of Blocked = Waiting"
| "phase_of Ready = Active"
| "phase_of Running = Active"
| "phase_of Preempted = Active"
| "phase_of Completed = Done"
| "phase_of Failed = Dead"
| "phase_of Cancelled = Dead"

type_synonym view = "job_id \<Rightarrow> (phase \<times> job_id list) option"

definition dep_view :: "job arena \<Rightarrow> view" where
  "dep_view jobs i = map_option (\<lambda>j. (phase_of (state j), deps j)) (arena_get jobs i)"

definition open_job :: "view \<Rightarrow> job_id \<Rightarrow> bool" where
  "open_job V i \<longleftrightarrow> (\<exists>p ds. V i = Some (p, ds) \<and> (p = Waiting \<or> p = Active))"

text \<open>
  The tracked handles are the open jobs; an open job is registered with each of its open
  dependencies as often as it names it, its count is the number of these, and it waits exactly
  while the count is not zero; no open job depends on a dead one.
\<close>

definition graph_inv :: "view \<Rightarrow> dependency_tracker \<Rightarrow> bool" where
  "graph_inv V t \<longleftrightarrow> tracker_wf t
     \<and> (\<forall>i. is_tracked t i \<longleftrightarrow> open_job V i)
     \<and> (\<forall>d i p ds. is_tracked t d \<longrightarrow> is_tracked t i \<longrightarrow> V i = Some (p, ds) \<longrightarrow>
          count_list (tr_deps t d) i = count_list ds d)
     \<and> (\<forall>i p ds. is_tracked t i \<longrightarrow> V i = Some (p, ds) \<longrightarrow>
          tr_unsat t i = length (filter (is_tracked t) ds) \<and> (p = Waiting \<longleftrightarrow> tr_unsat t i \<noteq> 0))
     \<and> (\<forall>i p ds d ds'. is_tracked t i \<longrightarrow> V i = Some (p, ds) \<longrightarrow> d \<in> set ds \<longrightarrow> V d \<noteq> Some (Dead, ds'))"

lemma graph_invD:
  assumes "graph_inv V t"
  shows "tracker_wf t" and "is_tracked t i \<longleftrightarrow> open_job V i"
    and "is_tracked t d \<Longrightarrow> is_tracked t i \<Longrightarrow> V i = Some (p, ds) \<Longrightarrow> count_list (tr_deps t d) i = count_list ds d"
    and "is_tracked t i \<Longrightarrow> V i = Some (p, ds) \<Longrightarrow> tr_unsat t i = length (filter (is_tracked t) ds)"
    and "is_tracked t i \<Longrightarrow> V i = Some (p, ds) \<Longrightarrow> p = Waiting \<longleftrightarrow> tr_unsat t i \<noteq> 0"
    and "is_tracked t i \<Longrightarrow> V i = Some (p, ds) \<Longrightarrow> d \<in> set ds \<Longrightarrow> V d \<noteq> Some (Dead, ds')"
  using assms unfolding graph_inv_def by blast+

lemma graph_invI:
  assumes "tracker_wf t" and "\<And>i. is_tracked t i \<longleftrightarrow> open_job V i"
    and "\<And>d i p ds. is_tracked t d \<Longrightarrow> is_tracked t i \<Longrightarrow> V i = Some (p, ds) \<Longrightarrow>
          count_list (tr_deps t d) i = count_list ds d"
    and "\<And>i p ds. is_tracked t i \<Longrightarrow> V i = Some (p, ds) \<Longrightarrow> tr_unsat t i = length (filter (is_tracked t) ds)"
    and "\<And>i p ds. is_tracked t i \<Longrightarrow> V i = Some (p, ds) \<Longrightarrow> p = Waiting \<longleftrightarrow> tr_unsat t i \<noteq> 0"
    and "\<And>i p ds d ds'. is_tracked t i \<Longrightarrow> V i = Some (p, ds) \<Longrightarrow> d \<in> set ds \<Longrightarrow> V d \<noteq> Some (Dead, ds')"
  shows "graph_inv V t"
  using assms unfolding graph_inv_def by blast

lemma count_list_pos: "0 < count_list xs x \<longleftrightarrow> x \<in> set xs"
  by (metis count_list_0_iff gr0I less_not_refl)

lemma length_filter_minus:
  "P i \<Longrightarrow> length (filter P xs) = length (filter (\<lambda>d. P d \<and> d \<noteq> i) xs) + count_list xs i"
  by (induction xs) auto

lemma count_list_filter: "count_list (filter P xs) d = (if P d then count_list xs d else 0)"
  by (induction xs) auto

lemma count_list_replicate [simp]: "count_list (replicate n x) y = (if x = y then n else 0)"
  by (induction n) auto

lemma graph_new: "graph_inv (\<lambda>_. None) tracker_new"
  using tracker_new_wf by (intro graph_invI) (auto simp: open_job_def)

section \<open>Completion\<close>

definition complete_view :: "view \<Rightarrow> job_id \<Rightarrow> job_id set \<Rightarrow> view" where
  "complete_view V i out x =
     (if x = i then map_option (\<lambda>(p, ds). (Done, ds)) (V x)
      else if x \<in> out then map_option (\<lambda>(p, ds). (Active, ds)) (V x) else V x)"

lemma complete_view_Some:
  "complete_view V i out x = Some (p, ds) \<longleftrightarrow>
     (\<exists>q. V x = Some (q, ds) \<and> p = (if x = i then Done else if x \<in> out then Active else q))"
  by (auto simp: complete_view_def)

lemma graph_complete:
  assumes inv: "graph_inv V t" and i: "V i = Some (Active, dsi)"
  shows "\<exists>t' out. deps_on_completed t i pr = Some (t', pr @ out) \<and> distinct out \<and> i \<notin> set out
     \<and> set out = {x. \<exists>ds. V x = Some (Waiting, ds) \<and> (\<forall>d\<in>set ds. open_job V d \<longrightarrow> d = i)}
     \<and> graph_inv (complete_view V i (set out)) t' \<and> (\<forall>d. set (tr_deps t' d) \<subseteq> set (tr_deps t d))"
proof -
  note D = graph_invD [OF inv]
  have tri: "is_tracked t i" using i by (simp add: D(2) open_job_def)
  from deps_on_completed_spec [OF D(1) tri, of pr] obtain t' out where
    run: "deps_on_completed t i pr = Some (t', pr @ out)" "tracker_wf t'" "distinct out"
    and tr': "\<And>j. is_tracked t' j \<longleftrightarrow> is_tracked t j \<and> j \<noteq> i"
    and de': "\<And>j. tr_deps t' j = (if j = i then [] else tr_deps t j)"
    and un': "\<And>j. tr_unsat t' j = (if j = i then 0 else tr_unsat t j - count_list (tr_deps t i) j)"
    and out: "set out = {x. is_tracked t x \<and> 0 < tr_unsat t x \<and> tr_unsat t x \<le> count_list (tr_deps t i) x}"
    by blast
  have trk: "is_tracked t' = (\<lambda>d. is_tracked t d \<and> d \<noteq> i)" by (rule ext) (rule tr')
  let ?V = "complete_view V i (set out)"
  have split: "tr_unsat t x = length (filter (\<lambda>d. is_tracked t d \<and> d \<noteq> i) ds) + count_list (tr_deps t i) x"
    if "is_tracked t x" "V x = Some (p, ds)" for x p ds
    using D(3) [OF tri that] D(4) [OF that] length_filter_minus [of "is_tracked t" i ds] tri by simp
  have wait: "\<exists>ds. V x = Some (Waiting, ds)" if "x \<in> set out" for x
    using that D(2) [of x] D(5) [of x] by (auto simp: out open_job_def)
  have "i \<notin> set out" using wait [of i] i by auto
  have out': "set out = {x. \<exists>ds. V x = Some (Waiting, ds) \<and> (\<forall>d\<in>set ds. open_job V d \<longrightarrow> d = i)}"
  proof (intro equalityI subsetI)
    fix x assume x: "x \<in> set out"
    from wait [OF x] obtain ds where ds: "V x = Some (Waiting, ds)" by blast
    have "filter (\<lambda>d. is_tracked t d \<and> d \<noteq> i) ds = []"
      using split [OF _ ds] x by (auto simp: out)
    then show "x \<in> {x. \<exists>ds. V x = Some (Waiting, ds) \<and> (\<forall>d\<in>set ds. open_job V d \<longrightarrow> d = i)}"
      using ds D(2) by (auto simp: filter_empty_conv)
  next
    fix x assume "x \<in> {x. \<exists>ds. V x = Some (Waiting, ds) \<and> (\<forall>d\<in>set ds. open_job V d \<longrightarrow> d = i)}"
    then obtain ds where ds: "V x = Some (Waiting, ds)" "\<forall>d\<in>set ds. open_job V d \<longrightarrow> d = i" by blast
    then have tr: "is_tracked t x" by (simp add: D(2) open_job_def)
    have "filter (\<lambda>d. is_tracked t d \<and> d \<noteq> i) ds = []" using ds(2) D(2) by (auto simp: filter_empty_conv)
    with split [OF tr ds(1)] D(5) [OF tr ds(1)] tr show "x \<in> set out" by (simp add: out)
  qed
  have "graph_inv ?V t'"
  proof (rule graph_invI)
    fix x
    show "is_tracked t' x \<longleftrightarrow> open_job ?V x"
      by (cases "V x") (use wait [of x] in \<open>auto simp: tr' D(2) open_job_def complete_view_def\<close>)
  next
    fix d x p ds assume "is_tracked t' d" "is_tracked t' x" "?V x = Some (p, ds)"
    then show "count_list (tr_deps t' d) x = count_list ds d"
      using D(3) [of d x] by (auto simp: tr' de' complete_view_Some)
  next
    fix x p ds assume x: "is_tracked t' x" "?V x = Some (p, ds)"
    then obtain q where q: "V x = Some (q, ds)" "is_tracked t x" "x \<noteq> i"
      "p = (if x \<in> set out then Active else q)" by (auto simp: tr' complete_view_Some)
    show "tr_unsat t' x = length (filter (is_tracked t') ds)"
      using split [OF q(2,1)] q(3) unfolding trk by (simp add: un')
    have "x \<in> set out \<longleftrightarrow> tr_unsat t x \<noteq> 0 \<and> tr_unsat t' x = 0" using q by (auto simp: out un')
    then show "p = Waiting \<longleftrightarrow> tr_unsat t' x \<noteq> 0"
      using q D(5) [OF q(2,1)] by (auto simp: un')
  next
    fix x p ds d ds' assume "is_tracked t' x" "?V x = Some (p, ds)" "d \<in> set ds"
    then show "?V d \<noteq> Some (Dead, ds')"
      using D(6) [of x _ ds d] by (auto simp: tr' complete_view_Some split: if_splits)
  qed (fact run(2))
  moreover have "\<forall>d. set (tr_deps t' d) \<subseteq> set (tr_deps t d)" by (simp add: de')
  ultimately show ?thesis
    using run(1,3) \<open>i \<notin> set out\<close> out'
    by (intro exI [of _ t'] exI [of _ out] conjI) assumption+
qed

section \<open>Termination\<close>

definition doomed_view :: "view \<Rightarrow> job_id set \<Rightarrow> view" where
  "doomed_view V S x = (if x \<in> S then map_option (\<lambda>(p, ds). (Dead, ds)) (V x) else V x)"

lemma doomed_view_Some:
  "doomed_view V S x = Some (p, ds) \<longleftrightarrow> (\<exists>q. V x = Some (q, ds) \<and> p = (if x \<in> S then Dead else q))"
  by (auto simp: doomed_view_def)

lemma graph_terminate:
  assumes inv: "graph_inv V t" and i: "open_job V i"
  shows "\<exists>t' out. on_terminated t i cas = Some (t', cas @ out) \<and> distinct out \<and> i \<notin> set out
     \<and> set out = {x. x \<noteq> i \<and> (i, x) \<in> (dep_rel t)\<^sup>*}
     \<and> (\<forall>x\<in>set out. \<exists>ds. V x = Some (Waiting, ds))
     \<and> graph_inv (doomed_view V (insert i (set out))) t' \<and> (\<forall>d. set (tr_deps t' d) \<subseteq> set (tr_deps t d))"
proof -
  note D = graph_invD [OF inv]
  have tri: "is_tracked t i" using i by (simp add: D(2))
  let ?R = "dep_reach t {i}"
  from on_terminated_spec [OF D(1), of i cas] obtain t' out where
    run: "on_terminated t i cas = Some (t', cas @ out)" "tracker_wf t'" "distinct out"
    and out: "set out = ?R - {i}" and tr': "\<And>j. is_tracked t' j \<longleftrightarrow> is_tracked t j \<and> j \<notin> ?R"
    and same: "\<And>j. is_tracked t' j \<Longrightarrow> tr_deps t' j = tr_deps t j \<and> tr_unsat t' j = tr_unsat t j"
    by blast
  have iR: "i \<in> ?R" using tri by (simp add: dep_reach_self)
  then have R: "insert i (set out) = ?R" by (auto simp: out)
  let ?V = "doomed_view V ?R"
  have edge: "z \<in> set (tr_deps t y) \<longleftrightarrow> y \<in> set ds"
    if "is_tracked t y" "is_tracked t z" "V z = Some (p, ds)" for y z p ds
    using D(3) [OF that] by (metis count_list_pos)
  have wait: "x = i \<or> (\<exists>ds. V x = Some (Waiting, ds))" if "x \<in> ?R" for x
    using that
  proof (induction rule: dep_reach_induct)
    case (step y z)
    from step.hyps(3) obtain p ds where ds: "V z = Some (p, ds)" by (auto simp: D(2) open_job_def)
    have "is_tracked t y" using step.hyps(1) by (rule dep_reach_tracked)
    with edge [OF this step.hyps(3) ds] step.hyps(2) have "y \<in> set (filter (is_tracked t) ds)" by simp
    then have "filter (is_tracked t) ds \<noteq> []" by (auto simp: filter_empty_conv)
    with D(4,5) [OF step.hyps(3) ds] ds show ?case by simp
  qed simp
  have apart: "d \<notin> ?R" if "is_tracked t x" "x \<notin> ?R" "V x = Some (p, ds)" "d \<in> set ds" for x p ds d
    using that edge [OF dep_reach_tracked that(1,3)] dep_reach_step by blast
  have "graph_inv ?V t'"
  proof (rule graph_invI)
    fix x
    show "is_tracked t' x \<longleftrightarrow> open_job ?V x"
      by (auto simp: tr' D(2) open_job_def doomed_view_Some)
  next
    fix d x p ds assume a: "is_tracked t' d" "is_tracked t' x" "?V x = Some (p, ds)"
    then show "count_list (tr_deps t' d) x = count_list ds d"
      using D(3) [of d x] same [OF a(1)] by (auto simp: tr' doomed_view_Some)
  next
    fix x p ds assume a: "is_tracked t' x" "?V x = Some (p, ds)"
    then have x: "is_tracked t x" "x \<notin> ?R" "V x = Some (p, ds)" by (auto simp: tr' doomed_view_Some)
    have "filter (is_tracked t') ds = filter (is_tracked t) ds"
      using apart [OF x] by (intro filter_cong) (auto simp: tr')
    with D(4,5) [OF x(1,3)] same [OF a(1)]
    show "tr_unsat t' x = length (filter (is_tracked t') ds)" "p = Waiting \<longleftrightarrow> tr_unsat t' x \<noteq> 0"
      by simp_all
  next
    fix x p ds d ds' assume a: "is_tracked t' x" "?V x = Some (p, ds)" "d \<in> set ds"
    then have x: "is_tracked t x" "x \<notin> ?R" "V x = Some (p, ds)" by (auto simp: tr' doomed_view_Some)
    from apart [OF x a(3)] D(6) [OF x(1,3) a(3)] show "?V d \<noteq> Some (Dead, ds')"
      by (auto simp: doomed_view_Some)
  qed (fact run(2))
  then have "graph_inv (doomed_view V (insert i (set out))) t'" unfolding R .
  moreover have "set out = {x. x \<noteq> i \<and> (i, x) \<in> (dep_rel t)\<^sup>*}"
    using tri by (auto simp: out dep_reach_def)
  moreover have "\<forall>x\<in>set out. \<exists>ds. V x = Some (Waiting, ds)" using wait by (auto simp: out)
  moreover have "i \<notin> set out" by (simp add: out)
  moreover have "\<forall>d. set (tr_deps t' d) \<subseteq> set (tr_deps t d)"
    using same by (metis empty_set empty_subsetI order_refl tr_deps_def)
  ultimately show ?thesis
    using run(1,3) by (intro exI [of _ t'] exI [of _ out] conjI) assumption+
qed


section \<open>Registration and removal\<close>

text \<open>A handle nobody mentions: what the arena gives to a new job.\<close>

definition fresh_handle :: "view \<Rightarrow> dependency_tracker \<Rightarrow> job_id \<Rightarrow> bool" where
  "fresh_handle V t i \<longleftrightarrow> V i = None \<and> (\<forall>d. i \<notin> set (tr_deps t d))
     \<and> (\<forall>x p ds. open_job V x \<longrightarrow> V x = Some (p, ds) \<longrightarrow> i \<notin> set ds)"

lemma filter_tracked_other:
  "i \<notin> set ds \<Longrightarrow> filter (\<lambda>x. P x \<or> x = i) ds = filter P ds"
  by (induction ds) auto

lemma graph_register:
  assumes inv: "graph_inv V t" and fresh: "fresh_handle V t i" and self: "i \<notin> set (deps j)"
    and i: "dep_ix i < 2 ^ 32 - 1" "i \<in> L" and L: "inj_on dep_ix L" "\<And>x. is_tracked t x \<Longrightarrow> x \<in> L \<and> dep_ix x < 2 ^ 32 - 1"
    and pend: "\<And>d. d \<in> set (deps j) \<Longrightarrow> dep_pending jobs d \<longleftrightarrow> is_tracked t d"
    and alive: "\<And>d ds. d \<in> set (deps j) \<Longrightarrow> V d \<noteq> Some (Dead, ds)"
    and cl: "classify i j jobs = Inr r" "r \<noteq> Readiness_Cancelled" and n: "length (deps j) < 2 ^ 32"
  shows "\<exists>t'. register t i j jobs = Some (t', Inr r)
     \<and> graph_inv (V(i \<mapsto> (if r = Readiness_Ready then Active else Waiting, deps j))) t'
     \<and> (\<forall>d. set (tr_deps t' d) \<subseteq> insert i (set (tr_deps t d)))"
proof -
  note D = graph_invD [OF inv]
  note F = fresh [unfolded fresh_handle_def]
  have untr: "\<not> is_tracked t i" using F by (simp add: D(2) open_job_def)
  have eq: "filter (dep_pending jobs) (deps j) = filter (is_tracked t) (deps j)"
    using pend by (intro filter_cong) auto
  let ?ds = "filter (is_tracked t) (deps j)"
  have "\<forall>d\<in>set (filter (dep_pending jobs) (deps j)). d \<in> L \<and> dep_ix d < 2 ^ 32 - 1"
    unfolding eq using L(2) by auto
  from register_spec [OF D(1) i(2,1) untr L(1) _ this cl n] L(2) obtain t' where
    run: "register t i j jobs = Some (t', Inr r)" "tracker_wf t'"
    and tr': "\<And>x. is_tracked t' x \<longleftrightarrow> is_tracked t x \<or> x = i"
    and de': "\<And>x. tr_deps t' x = tr_deps t x @ replicate (count_list ?ds x) i"
    and un': "\<And>x. tr_unsat t' x = (if x = i then length ?ds else tr_unsat t x)"
    unfolding eq by auto
  have trk: "is_tracked t' = (\<lambda>x. is_tracked t x \<or> x = i)" by (rule ext) (rule tr')
  have r: "r = (if word_of_nat (length ?ds) = (0 :: u32) then Readiness_Ready else Readiness_Blocked)"
    using classify_loop_accepts [OF cl(1) [unfolded classify_def] cl(2)] by (simp add: eq)
  have "length ?ds < 2 ^ 32" using n length_filter_le [of "is_tracked t" "deps j"] by linarith
  then have rr: "r = Readiness_Ready \<longleftrightarrow> length ?ds = 0"
    unfolding r by (simp add: word_eq_iff_unsigned [where ?'a = nat] unat_of_nat)
  let ?V = "V(i \<mapsto> (if r = Readiness_Ready then Active else Waiting, deps j))"
  note cnt = count_list_filter [of "is_tracked t" "deps j"]
  have "graph_inv ?V t'"
  proof (rule graph_invI)
    fix x show "is_tracked t' x \<longleftrightarrow> open_job ?V x"
      using untr by (auto simp: tr' D(2) open_job_def)
  next
    fix d x p ds assume a: "is_tracked t' d" "is_tracked t' x" "?V x = Some (p, ds)"
    show "count_list (tr_deps t' d) x = count_list ds d"
    proof (cases "x = i")
      case True
      have "count_list (tr_deps t d) i = 0" using F by (simp add: count_list_0_iff)
      moreover have "count_list (deps j) d = 0" if "d = i" using self that by (simp add: count_list_0_iff)
      ultimately show ?thesis using True a untr by (auto simp: de' tr' cnt)
    next
      case False
      with a have x: "is_tracked t x" "V x = Some (p, ds)" by (auto simp: tr')
      have "count_list ds i = 0" using F x by (simp add: count_list_0_iff D(2))
      moreover have "tr_deps t i = []" using untr by (simp add: tr_deps_def)
      ultimately show ?thesis using D(3) [OF _ x] a(1) untr False by (auto simp: de' tr')
    qed
  next
    fix x p ds assume a: "is_tracked t' x" "?V x = Some (p, ds)"
    show "tr_unsat t' x = length (filter (is_tracked t') ds)"
      using a D(2) [of x] D(4) [of x p ds] F self untr
      by (cases "x = i") (auto simp: un' trk filter_tracked_other)
    show "p = Waiting \<longleftrightarrow> tr_unsat t' x \<noteq> 0"
      using a D(5) [of x p ds] rr by (cases "x = i") (auto simp: un' tr')
  next
    fix x p ds d ds' assume a: "is_tracked t' x" "?V x = Some (p, ds)" "d \<in> set ds"
    show "?V d \<noteq> Some (Dead, ds')"
      using a D(6) [of x p ds d ds'] alive [of d ds']
      by (cases "x = i") (auto simp: tr' split: if_splits)
  qed (fact run(2))
  moreover have "set (tr_deps t' d) \<subseteq> insert i (set (tr_deps t d))" for d by (auto simp: de')
  ultimately show ?thesis using run(1) by blast
qed

lemma graph_inv_closed:
  assumes inv: "graph_inv V t" and i: "\<not> open_job V i"
    "\<And>x p ds ds'. open_job V x \<Longrightarrow> V x = Some (p, ds) \<Longrightarrow> i \<in> set ds \<Longrightarrow> e \<noteq> Some (Dead, ds')"
    and e: "\<not> open_job (V(i := e)) i"
  shows "graph_inv (V(i := e)) t"
proof -
  note D = graph_invD [OF inv]
  have untr: "\<not> is_tracked t i" using i(1) by (simp add: D(2))
  have open': "open_job (V(i := e)) x \<longleftrightarrow> open_job V x" for x
    using i(1) e by (cases "x = i") (auto simp: open_job_def)
  show ?thesis
  proof (rule graph_invI)
    fix x show "is_tracked t x \<longleftrightarrow> open_job (V(i := e)) x" by (simp only: D(2) open')
  next
    fix d x p ds assume "is_tracked t d" "is_tracked t x" "(V(i := e)) x = Some (p, ds)"
    then show "count_list (tr_deps t d) x = count_list ds d"
      using D(3) [of d x p ds] untr by (cases "x = i") auto
  next
    fix x p ds assume "is_tracked t x" "(V(i := e)) x = Some (p, ds)"
    then show "tr_unsat t x = length (filter (is_tracked t) ds)" "p = Waiting \<longleftrightarrow> tr_unsat t x \<noteq> 0"
      using D(4,5) [of x p ds] untr by (cases "x = i"; auto)+
  next
    fix x p ds d ds' assume a: "is_tracked t x" "(V(i := e)) x = Some (p, ds)" "d \<in> set ds"
    have "x \<noteq> i" using a(1) untr by blast
    with a i(2) [of x p ds ds'] D(2) [of x] D(6) [of x p ds d ds'] show "(V(i := e)) d \<noteq> Some (Dead, ds')"
      by (cases "d = i") auto
  qed (fact D(1))
qed

lemma graph_doomed:
  assumes "graph_inv V t" and "fresh_handle V t i"
  shows "graph_inv (V(i \<mapsto> (Dead, ds))) t"
  using assms by (intro graph_inv_closed) (auto simp: fresh_handle_def open_job_def)

text \<open>Removing a job that is done: its dependents stay satisfied.\<close>

lemma graph_forget:
  assumes "graph_inv V t" and "V i = Some (p, ds)" and "p = Done \<or> p = Dead"
  shows "graph_inv (V(i := None)) t"
  using assms by (intro graph_inv_closed) (auto simp: open_job_def)

end
