(* ===== verification/Fair_Share.thy ===== *)
theory Fair_Share
  imports Priority
begin

text \<open>
  Fair share (\<open>policy/fairshare.rs\<close>): the Q48 decay table, the per-account ledgers and the factor
  each account earns. The decay table is the value of a constant expression of the program; its
  construction (a bisection for the 1024th root of one half, then powers by squaring) is modelled
  step by step.
\<close>

section \<open>Fixed point\<close>

type_synonym usage = u64

definition MAX_ACCOUNTS :: u32 where
  "MAX_ACCOUNTS = 1024"

definition DECAY_STEPS :: u64 where
  "DECAY_STEPS = 1024"

definition DECAY_ONE :: u64 where
  "DECAY_ONE = push_bit 48 1"

definition NANOS_PER_MILLI :: u64 where
  "NANOS_PER_MILLI = 1000000"

definition mul_q48 :: "u64 \<Rightarrow> u64 \<Rightarrow> u64" where
  "mul_q48 a b = ucast (drop_bit 48 (ucast a * ucast b :: u128))"

function pow_q48_loop :: "u64 \<Rightarrow> u64 \<Rightarrow> u64 \<Rightarrow> u64" where
  "pow_q48_loop acc base e =
     (if e > 0 then
        pow_q48_loop (if e AND 1 = 1 then mul_q48 acc base else acc) (mul_q48 base base) (drop_bit 1 e)
      else acc)"
  by auto
termination
proof (relation "measure (\<lambda>(acc, base, e). unat e)", goal_cases)
  case (2 acc base e)
  have "unat (drop_bit 1 e) = unat e div 2"
    by (simp add: drop_bit_eq_div unat_div)
  moreover have "0 < unat e" using 2 by (simp add: word_gt_0 unat_gt_0)
  ultimately show ?case by simp
qed simp

declare pow_q48_loop.simps [simp del]

definition pow_q48 :: "u64 \<Rightarrow> u64 \<Rightarrow> u64" where
  "pow_q48 base e = pow_q48_loop DECAY_ONE base e"

text \<open>The bisection of \<open>build_decay_table\<close>; its bounds stay between one half and one.\<close>

function bisect_root :: "nat \<Rightarrow> nat \<Rightarrow> nat" where
  "bisect_root lo hi =
     (if lo + 1 < hi then
        let mid = lo + (hi - lo) div 2 in
        if pow_q48 (word_of_nat mid) DECAY_STEPS \<le> DECAY_ONE div 2 then bisect_root mid hi
        else bisect_root lo mid
      else lo)"
  by auto
termination
  by (relation "measure (\<lambda>(lo, hi). hi - lo)") auto

declare bisect_root.simps [simp del]

definition decay_root :: u64 where
  "decay_root = word_of_nat (bisect_root (2 ^ 47) (2 ^ 48))"

definition DECAY_TABLE :: "u64 list" where
  "DECAY_TABLE = map (\<lambda>k. pow_q48 decay_root (word_of_nat k)) [0..<1024]"

definition decay_factor :: "u64 \<Rightarrow> u64" where
  "decay_factor steps =
     (let halvings = steps div DECAY_STEPS in
      if halvings \<ge> 48 then 0
      else drop_bit (unat halvings) (DECAY_TABLE ! unat (steps mod DECAY_STEPS)))"

definition decay :: "usage \<Rightarrow> u64 \<Rightarrow> usage" where
  "decay u steps =
     (let halvings = steps div DECAY_STEPS in
      if halvings \<ge> 64 then 0
      else mul_q48 (drop_bit (unat halvings) u) (DECAY_TABLE ! unat (steps mod DECAY_STEPS)))"

section \<open>Ledgers\<close>

record fair_share_config =
  half_life :: virtual_duration

definition fair_share_config_default :: fair_share_config where
  "fair_share_config_default = \<lparr>half_life = from_secs 3600\<rparr>"

definition quantum_nanos :: "fair_share_config \<Rightarrow> u64" where
  "quantum_nanos config = (let q = half_life config div DECAY_STEPS in if q = 0 then 1 else q)"

datatype account_error = AccountError account_id

record ledger =
  lg_usage :: usage
  lg_running_cpu :: u64
  lg_shares :: u32
  lg_accrued_to :: virtual_time
  lg_decayed_to :: virtual_time

definition ledger_default :: ledger where
  "ledger_default =
     \<lparr>lg_usage = 0, lg_running_cpu = 0, lg_shares = 1, lg_accrued_to = 0, lg_decayed_to = 0\<rparr>"

definition ledger_from_parts ::
  "usage \<Rightarrow> u64 \<Rightarrow> u32 \<Rightarrow> virtual_time \<Rightarrow> virtual_time \<Rightarrow> ledger" where
  "ledger_from_parts u cpu sh accrued decayed =
     \<lparr>lg_usage = u, lg_running_cpu = cpu, lg_shares = sh, lg_accrued_to = accrued, lg_decayed_to = decayed\<rparr>"

definition touch :: "ledger \<Rightarrow> virtual_time \<Rightarrow> fair_share_config \<Rightarrow> ledger" where
  "touch l now config =
     (let quantum = quantum_nanos config;
          steps = saturating_sub_time now (lg_decayed_to l) div quantum;
          l = (if steps > 0 then
                 l\<lparr>lg_usage := decay (lg_usage l) steps,
                   lg_decayed_to := time_saturating_add (lg_decayed_to l) (saturating_mul steps quantum)\<rparr>
               else l);
          held_ms = saturating_sub_time now (lg_accrued_to l) div NANOS_PER_MILLI
      in if held_ms > 0 then
           l\<lparr>lg_usage := saturating_add (lg_usage l) (saturating_mul (lg_running_cpu l) held_ms),
             lg_accrued_to := time_saturating_add (lg_accrued_to l) (held_ms * NANOS_PER_MILLI)\<rparr>
         else l)"

definition factor_for :: "usage \<Rightarrow> u32 \<Rightarrow> u128 \<Rightarrow> u64 \<Rightarrow> u64" where
  "factor_for u sh usage_total shares_total =
     (if usage_total = 0 then FACTOR_SCALE
      else if sh = 0 then 0
      else
        let num = ucast u * ucast shares_total * ucast DECAY_STEPS :: u128;
            den = usage_total * ucast sh;
            q = num div den;
            x = (if unat q < 2 ^ 64 then ucast q else - 1)
        in mul_q48 FACTOR_SCALE (decay_factor x))"

section \<open>The fair-share table\<close>

record fair_share =
  fs_ledgers :: "ledger list"
  fs_factors :: "u64 list"
  fs_shares_total :: u64

definition fair_share_new :: fair_share where
  "fair_share_new = \<lparr>fs_ledgers = [], fs_factors = [], fs_shares_total = 0\<rparr>"

definition fs_ensure :: "fair_share \<Rightarrow> account_id \<Rightarrow> account_error + fair_share" where
  "fs_ensure fs acct =
     (if acct \<ge> MAX_ACCOUNTS then Inl (AccountError acct)
      else
        let n = unat acct in
        Inr (if n \<ge> length (fs_ledgers fs) then
               let added = n + 1 - length (fs_ledgers fs) in
               fs\<lparr>fs_ledgers := vec_resize (fs_ledgers fs) (n + 1) ledger_default,
                  fs_factors := vec_resize (fs_factors fs) (n + 1) FACTOR_SCALE,
                  fs_shares_total := fs_shares_total fs + word_of_nat added\<rparr>
             else fs))"

definition fs_set_shares :: "fair_share \<Rightarrow> account_id \<Rightarrow> u32 \<Rightarrow> (account_error + fair_share) option" where
  "fs_set_shares fs acct sh =
     (case fs_ensure fs acct of
        Inl e \<Rightarrow> Some (Inl e)
      | Inr fs \<Rightarrow>
          do { l \<leftarrow> vec_index (fs_ledgers fs) (unat acct);
               ls \<leftarrow> vec_set (fs_ledgers fs) (unat acct) (l\<lparr>lg_shares := sh\<rparr>);
               Some (Inr (fs\<lparr>fs_shares_total := fs_shares_total fs - ucast (lg_shares l) + ucast sh,
                             fs_ledgers := ls\<rparr>)) })"

definition fs_restore :: "fair_share \<Rightarrow> ledger list \<Rightarrow> account_error + fair_share" where
  "fs_restore fs ls =
     (if length ls > unat MAX_ACCOUNTS then Inl (AccountError MAX_ACCOUNTS)
      else Inr (fs\<lparr>fs_shares_total := sum_list (map (\<lambda>l. ucast (lg_shares l)) ls),
                   fs_factors := replicate (length ls) FACTOR_SCALE, fs_ledgers := ls\<rparr>))"

definition on_dispatch ::
  "fair_share \<Rightarrow> account_id \<Rightarrow> u32 \<Rightarrow> virtual_time \<Rightarrow> fair_share_config \<Rightarrow> fair_share" where
  "on_dispatch fs acct cpu now config =
     (case vec_get (fs_ledgers fs) (unat acct) of
        None \<Rightarrow> fs
      | Some l \<Rightarrow>
          let l = touch l now config in
          fs\<lparr>fs_ledgers := (fs_ledgers fs)[unat acct :=
               l\<lparr>lg_running_cpu := saturating_add (lg_running_cpu l) (ucast cpu)\<rparr>]\<rparr>)"

definition on_release ::
  "fair_share \<Rightarrow> account_id \<Rightarrow> u32 \<Rightarrow> virtual_time \<Rightarrow> fair_share_config \<Rightarrow> fair_share" where
  "on_release fs acct cpu now config =
     (case vec_get (fs_ledgers fs) (unat acct) of
        None \<Rightarrow> fs
      | Some l \<Rightarrow>
          let l = touch l now config in
          fs\<lparr>fs_ledgers := (fs_ledgers fs)[unat acct :=
               l\<lparr>lg_running_cpu := saturating_sub (lg_running_cpu l) (ucast cpu)\<rparr>]\<rparr>)"

definition fs_refresh :: "fair_share \<Rightarrow> virtual_time \<Rightarrow> fair_share_config \<Rightarrow> fair_share" where
  "fs_refresh fs now config =
     (let ls = map (\<lambda>l. touch l now config) (fs_ledgers fs);
          total = foldl (\<lambda>acc l. acc + ucast (lg_usage l)) (0 :: u128) ls
      in fs\<lparr>fs_ledgers := ls,
            fs_factors :=
              map2 (\<lambda>l f. factor_for (lg_usage l) (lg_shares l) total (fs_shares_total fs)) ls (fs_factors fs)
              @ drop (length ls) (fs_factors fs)\<rparr>)"

definition fs_factor :: "fair_share \<Rightarrow> account_id \<Rightarrow> u64" where
  "fs_factor fs acct =
     (case vec_get (fs_factors fs) (unat acct) of None \<Rightarrow> FACTOR_SCALE | Some f \<Rightarrow> f)"

definition fs_ledger :: "fair_share \<Rightarrow> account_id \<Rightarrow> ledger option" where
  "fs_ledger fs acct = vec_get (fs_ledgers fs) (unat acct)"

section \<open>Decay never adds usage\<close>

lemma unat_ucast_u64_u128 [simp]: "unat (ucast (w :: u64) :: u128) = unat w"
  by (rule unat_ucast_widen) simp

lemma unat_ucast_u32_u128 [simp]: "unat (ucast (w :: u32) :: u128) = unat w"
  by (rule unat_ucast_widen) simp

lemma unat_ucast_u128_u64: "unat (ucast (w :: u128) :: u64) = unat w mod 2 ^ 64"
  by (simp add: unsigned_ucast_eq take_bit_eq_mod)

lemma unat_drop_bit: "unat (drop_bit n w) = unat w div 2 ^ n" for w :: "'a::len word"
  by (subst unsigned_drop_bit_eq) (simp only: take_bit_eq_mod mod_less [OF unat_lt] drop_bit_eq_div)

lemma unat_DECAY_ONE [simp]: "unat DECAY_ONE = 2 ^ 48"
  by (simp add: DECAY_ONE_def)

lemma unat_DECAY_STEPS [simp]: "unat DECAY_STEPS = 1024"
  by (simp add: DECAY_STEPS_def)

lemma unat_mul_q48: "unat (mul_q48 a b) = unat a * unat b div 2 ^ 48 mod 2 ^ 64"
proof -
  have "unat a * unat b < 2 ^ 64 * 2 ^ 64"
    using unat_lt [of a] unat_lt [of b] by (intro mult_strict_mono) simp_all
  then have "unat (ucast a * ucast b :: u128) = unat a * unat b"
    using unat_mult_exact [of "ucast a :: u128" "ucast b"] by simp
  then show ?thesis by (simp add: mul_q48_def unat_ucast_u128_u64 unat_drop_bit)
qed

lemma mul_q48_le:
  assumes "unat b \<le> 2 ^ 48"
  shows "unat (mul_q48 a b) = unat a * unat b div 2 ^ 48" and "unat (mul_q48 a b) \<le> unat a"
proof -
  have "unat a * unat b \<le> unat a * 2 ^ 48" using assms by simp
  then have le: "unat a * unat b div 2 ^ 48 \<le> unat a"
    using div_le_mono [of "unat a * unat b" "unat a * 2 ^ 48" "2 ^ 48"] by simp
  with unat_lt [of a] have "unat a * unat b div 2 ^ 48 < 2 ^ 64" by simp
  then show "unat (mul_q48 a b) = unat a * unat b div 2 ^ 48" by (simp add: unat_mul_q48)
  with le show "unat (mul_q48 a b) \<le> unat a" by simp
qed

lemma pow_q48_loop_le:
  "unat acc \<le> 2 ^ 48 \<Longrightarrow> unat base \<le> 2 ^ 48 \<Longrightarrow> unat (pow_q48_loop acc base e) \<le> 2 ^ 48"
proof (induction acc base e rule: pow_q48_loop.induct)
  case (1 acc base e)
  have "unat (mul_q48 acc base) \<le> 2 ^ 48" "unat (mul_q48 base base) \<le> 2 ^ 48"
    using mul_q48_le(2) [OF "1.prems"(2)] "1.prems" order_trans by blast+
  then show ?case using 1 by (subst pow_q48_loop.simps) simp
qed

lemma pow_q48_le: "unat base \<le> 2 ^ 48 \<Longrightarrow> unat (pow_q48 base e) \<le> 2 ^ 48"
  unfolding pow_q48_def by (rule pow_q48_loop_le) simp_all

lemma pow_q48_zero: "pow_q48 base 0 = DECAY_ONE"
  by (simp add: pow_q48_def pow_q48_loop.simps)

lemma bisect_root_spec:
  assumes "lo < hi" and "pow_q48 (word_of_nat lo) DECAY_STEPS \<le> DECAY_ONE div 2"
    and "\<not> pow_q48 (word_of_nat hi) DECAY_STEPS \<le> DECAY_ONE div 2"
  shows "lo \<le> bisect_root lo hi \<and> bisect_root lo hi < hi
    \<and> pow_q48 (word_of_nat (bisect_root lo hi)) DECAY_STEPS \<le> DECAY_ONE div 2
    \<and> \<not> pow_q48 (word_of_nat (bisect_root lo hi + 1)) DECAY_STEPS \<le> DECAY_ONE div 2"
  using assms
proof (induction lo hi rule: bisect_root.induct)
  case (1 lo hi)
  show ?case
  proof (cases "lo + 1 < hi")
    case True
    define mid where "mid = lo + (hi - lo) div 2"
    have mid: "lo < mid" "mid < hi" using True by (auto simp: mid_def)
    show ?thesis
    proof (cases "pow_q48 (word_of_nat mid) DECAY_STEPS \<le> DECAY_ONE div 2")
      case c: True
      then have "bisect_root lo hi = bisect_root mid hi"
        using True by (subst bisect_root.simps) (simp add: mid_def Let_def)
      then show ?thesis using "1.IH"(1) [OF True mid_def c mid(2) c "1.prems"(3)] mid(1) by simp
    next
      case c: False
      then have "bisect_root lo hi = bisect_root lo mid"
        using True by (subst bisect_root.simps) (simp add: mid_def Let_def)
      then show ?thesis using "1.IH"(2) [OF True mid_def c mid(1) "1.prems"(2) c] mid(2) by simp
    qed
  next
    case False
    with 1(3) have "hi = lo + 1" by simp
    with False have "bisect_root lo hi = lo" by (simp add: bisect_root.simps)
    with 1(3-5) \<open>hi = lo + 1\<close> show ?thesis by simp
  qed
qed

lemma root_bounds:
  "pow_q48 (word_of_nat (2 ^ 47)) DECAY_STEPS \<le> DECAY_ONE div 2"
  "\<not> pow_q48 (word_of_nat (2 ^ 48)) DECAY_STEPS \<le> DECAY_ONE div 2"
proof -
  have w: "word_of_nat (2 ^ 47) = (140737488355328 :: u64)" "word_of_nat (2 ^ 48) = (281474976710656 :: u64)"
    by simp_all
  have "pow_q48 140737488355328 DECAY_STEPS \<le> DECAY_ONE div 2" by code_simp
  then show "pow_q48 (word_of_nat (2 ^ 47)) DECAY_STEPS \<le> DECAY_ONE div 2" by (simp only: w)
  have "\<not> pow_q48 281474976710656 DECAY_STEPS \<le> DECAY_ONE div 2" by code_simp
  then show "\<not> pow_q48 (word_of_nat (2 ^ 48)) DECAY_STEPS \<le> DECAY_ONE div 2"
    by (simp only: w not_False_eq_True)
qed

lemma decay_root_spec:
  "2 ^ 47 \<le> unat decay_root" "unat decay_root < 2 ^ 48"
  "pow_q48 decay_root DECAY_STEPS \<le> DECAY_ONE div 2"
  "\<not> pow_q48 (decay_root + 1) DECAY_STEPS \<le> DECAY_ONE div 2"
proof -
  have lt: "(2 :: nat) ^ 47 < 2 ^ 48" by simp
  define r where "r = bisect_root (2 ^ 47) (2 ^ 48)"
  note spec = bisect_root_spec [OF lt root_bounds, folded r_def]
  have dr: "decay_root = word_of_nat r" by (simp add: decay_root_def r_def)
  have "r < 2 ^ 64" using spec by simp
  then have "unat decay_root = r" unfolding dr by (simp add: unat_of_nat)
  with spec show "2 ^ 47 \<le> unat decay_root" "unat decay_root < 2 ^ 48" by simp_all
  from spec show "pow_q48 decay_root DECAY_STEPS \<le> DECAY_ONE div 2"
    "\<not> pow_q48 (decay_root + 1) DECAY_STEPS \<le> DECAY_ONE div 2"
    by (simp_all add: dr add.commute)
qed

lemma unat_mod_STEPS: "unat (steps mod DECAY_STEPS) < 1024"
  by (simp add: unat_mod)

lemma table_nth:
  assumes "k < 1024"
  shows "DECAY_TABLE ! k = pow_q48 decay_root (word_of_nat k)"
proof -
  have "k < length [0..<1024]" using assms by (simp only: length_upt diff_zero)
  then show ?thesis using assms by (simp only: DECAY_TABLE_def nth_map nth_upt add_0 diff_zero length_upt)
qed

lemma table_le: "unat (DECAY_TABLE ! unat (steps mod DECAY_STEPS)) \<le> 2 ^ 48"
proof -
  have "unat (pow_q48 decay_root e) \<le> 2 ^ 48" for e
    using decay_root_spec(2) by (intro pow_q48_le) simp
  then show ?thesis by (simp only: table_nth [OF unat_mod_STEPS])
qed

lemma table_zero: "DECAY_TABLE ! 0 = DECAY_ONE"
  by (simp add: table_nth pow_q48_zero)

lemma decay_factor_le: "unat (decay_factor steps) \<le> 2 ^ 48"
proof -
  have "unat (drop_bit n w) \<le> unat w" for n and w :: u64 by (simp add: unat_drop_bit)
  from order_trans [OF this table_le] show ?thesis by (simp add: decay_factor_def Let_def)
qed

lemma decay_le: "unat (decay u steps) \<le> unat u"
proof -
  have "unat (drop_bit n u) \<le> unat u" for n by (simp add: unat_drop_bit)
  from order_trans [OF mul_q48_le(2) [OF table_le] this] show ?thesis by (simp add: decay_def Let_def)
qed

lemma decay_whole:
  assumes "k < 64"
  shows "unat (decay u (word_of_nat (1024 * k))) = unat u div 2 ^ k"
proof -
  have k: "unat (word_of_nat (1024 * k) :: u64) = 1024 * k" using assms by (simp add: unat_of_nat del: of_nat_mult)
  have d: "unat (word_of_nat (1024 * k) div DECAY_STEPS) = k" by (simp only: unat_div k unat_DECAY_STEPS; simp)
  have m: "unat (word_of_nat (1024 * k) mod DECAY_STEPS) = 0" by (simp only: unat_mod k unat_DECAY_STEPS; simp)
  have "\<not> 64 \<le> (word_of_nat (1024 * k) div DECAY_STEPS :: u64)"
    using assms d by (simp add: word_le_nat_alt)
  then have "decay u (word_of_nat (1024 * k)) = mul_q48 (drop_bit k u) DECAY_ONE"
    by (simp only: decay_def Let_def if_False d m table_zero)
  moreover have "unat (mul_q48 (drop_bit k u) DECAY_ONE) = unat (drop_bit k u)"
    using mul_q48_le(1) [of DECAY_ONE "drop_bit k u"] by simp
  ultimately show ?thesis by (simp add: unat_drop_bit)
qed

section \<open>Factors stay in range\<close>

lemma factor_for_le: "unat (factor_for u sh ut st) \<le> 1000000"
  using mul_q48_le(2) [OF decay_factor_le, of FACTOR_SCALE]
  by (simp add: factor_for_def Let_def)

text \<open>The exponent of the factor, computed without a bound.\<close>

definition share_exponent :: "nat \<Rightarrow> nat \<Rightarrow> nat \<Rightarrow> nat \<Rightarrow> nat" where
  "share_exponent u sh ut st = min (u * st * 1024 div (ut * sh)) (2 ^ 64 - 1)"

lemma factor_for_exact:
  assumes "unat ut \<le> 2 ^ 74" and "unat st \<le> 2 ^ 42" and "ut \<noteq> 0" and "sh \<noteq> 0"
  shows "unat (factor_for u sh ut st)
    = 1000000 * unat (decay_factor (word_of_nat (share_exponent (unat u) (unat sh) (unat ut) (unat st)))) div 2 ^ 48"
proof -
  let ?num = "ucast u * ucast st * ucast DECAY_STEPS :: u128" and ?den = "ut * ucast sh :: u128"
  have su: "unat u * unat st \<le> 2 ^ 64 * 2 ^ 42"
    using unat_lt [of u] assms(2) by (intro mult_le_mono) simp_all
  have n1: "unat (ucast u * ucast st :: u128) = unat u * unat st"
    using unat_mult_exact [of "ucast u :: u128" "ucast st"] su by simp
  have num: "unat ?num = unat u * unat st * 1024"
  proof -
    have "unat (ucast u * ucast st :: u128) * unat (ucast DECAY_STEPS :: u128) < 2 ^ LENGTH(128)"
      unfolding n1 using su by (simp add: mult.commute)
    from unat_mult_exact [OF this] show ?thesis unfolding n1 by simp
  qed
  have "unat ut * unat sh \<le> 2 ^ 74 * 2 ^ 32"
    using unat_lt [of sh] assms(1) by (intro mult_le_mono) simp_all
  then have den: "unat ?den = unat ut * unat sh"
    using unat_mult_exact [of ut "ucast sh"] by simp
  define q where "q = unat u * unat st * 1024 div (unat ut * unat sh)"
  have uq: "unat (?num div ?den) = q" by (simp only: unat_div num den q_def)
  have "(if q < 2 ^ 64 then ucast (?num div ?den) else - 1) = (word_of_nat (min q (2 ^ 64 - 1)) :: u64)"
  proof (cases "q < 2 ^ 64")
    case True
    then have "unat (ucast (?num div ?den) :: u64) = q" by (simp add: unat_ucast_u128_u64 uq)
    moreover have "unat (word_of_nat (min q (2 ^ 64 - 1)) :: u64) = q" using True by (simp add: unat_of_nat)
    ultimately show ?thesis using True by (simp add: word_eq_iff_unsigned [where ?'a = nat])
  next
    case False
    then have "min q (2 ^ 64 - 1) = 2 ^ 64 - 1" by simp
    moreover have "(word_of_nat (2 ^ 64 - 1) :: u64) = - 1" by simp
    ultimately show ?thesis using False by simp
  qed
  then have "factor_for u sh ut st
      = mul_q48 FACTOR_SCALE (decay_factor (word_of_nat (share_exponent (unat u) (unat sh) (unat ut) (unat st))))"
    using assms(3,4) by (simp only: factor_for_def Let_def uq if_False share_exponent_def q_def)
  then show ?thesis using mul_q48_le(1) [OF decay_factor_le, of FACTOR_SCALE] by simp
qed

section \<open>The clocks of a ledger\<close>

lemma quantum_pos: "0 < unat (quantum_nanos config)"
  by (simp add: quantum_nanos_def Let_def unat_gt_0)

lemma unat_NANOS_PER_MILLI [simp]: "unat NANOS_PER_MILLI = 1000000"
  by (simp add: NANOS_PER_MILLI_def)

text \<open>A clock that advances in whole units and leaves the remainder for the next time.\<close>

definition clock_at :: "nat \<Rightarrow> nat \<Rightarrow> nat \<Rightarrow> nat" where
  "clock_at q from t = from + (t - from) div q * q"

lemma clock_at_le: "from \<le> t \<Longrightarrow> from \<le> clock_at q from t \<and> clock_at q from t \<le> t"
  using div_times_less_eq_dividend [of "t - from" q] unfolding clock_at_def by linarith

lemma clock_at_past: "t \<le> from \<Longrightarrow> clock_at q from t = from"
  by (simp add: clock_at_def)

lemma clock_at_near: "0 < q \<Longrightarrow> t - clock_at q from t < q"
  unfolding clock_at_def diff_diff_left [symmetric] by (simp only: minus_div_mult_eq_mod mod_less_divisor)

lemma clock_at_compose:
  assumes "0 < q" and "t1 \<le> t2"
  shows "clock_at q (clock_at q from t1) t2 = clock_at q from t2"
proof (cases "from \<le> t1")
  case True
  define k where "k = (t1 - from) div q"
  define b where "b = from + k * q"
  have c: "clock_at q from t1 = b" by (simp add: clock_at_def k_def b_def)
  have "b \<le> t1" using clock_at_le [OF True, of q] c by simp
  then have eq: "t2 - from = (t2 - b) + k * q" using True assms(2) by (simp add: b_def)
  have "((t2 - b) + k * q) div q = k + (t2 - b) div q" using assms(1) by (intro div_mult_self1) simp
  then have "clock_at q from t2 = from + (k + (t2 - b) div q) * q" by (simp only: clock_at_def eq)
  also have "\<dots> = clock_at q b t2" by (simp add: clock_at_def b_def distrib_right)
  finally show ?thesis by (simp only: c)
next
  case False
  then show ?thesis by (simp add: clock_at_past)
qed

lemma time_add_zero [simp]: "time_saturating_add d 0 = d"
proof -
  have "unat (time_saturating_add d 0) = unat d"
    using unat_lt [of d] by (simp add: time_saturating_add_def unat_saturating_add)
  then show ?thesis by (rule unsigned_word_eqI)
qed

lemma saturating_mul_zero [simp]: "saturating_mul 0 q = 0"
  by (simp add: saturating_mul_def)

lemma unat_clock_step:
  assumes "0 < unat q"
  shows "unat (time_saturating_add d (saturating_mul (saturating_sub_time now d div q) q))
    = clock_at (unat q) (unat d) (unat now)"
proof -
  let ?n = "(unat now - unat d) div unat q"
  define m where "m = ?n * unat q"
  have le: "m \<le> unat now - unat d" unfolding m_def by (rule div_times_less_eq_dividend)
  have lt: "unat now < 2 ^ 64" "unat d < 2 ^ 64" using unat_lt [of now] unat_lt [of d] by simp_all
  have n: "unat (saturating_sub_time now d div q) = ?n"
    by (simp add: saturating_sub_time_def unat_saturating_sub unat_div)
  have "m \<le> 2 ^ LENGTH(64) - 1" using le lt by simp
  then have m: "unat (saturating_mul (saturating_sub_time now d div q) q) = m"
    unfolding unat_saturating_mul n m_def by (rule min_absorb1)
  have "unat d + m \<le> 2 ^ LENGTH(64) - 1" using le lt by (cases "unat d \<le> unat now") auto
  then show ?thesis
    unfolding time_saturating_add_def unat_saturating_add m clock_at_def m_def by (rule min_absorb1)
qed

lemma touch_clocks:
  "unat (lg_decayed_to (touch l now config))
     = clock_at (unat (quantum_nanos config)) (unat (lg_decayed_to l)) (unat now)"
  "unat (lg_accrued_to (touch l now config)) = clock_at 1000000 (unat (lg_accrued_to l)) (unat now)"
  "lg_running_cpu (touch l now config) = lg_running_cpu l"
  "lg_shares (touch l now config) = lg_shares l"
proof -
  let ?q = "quantum_nanos config"
  let ?s = "saturating_sub_time now (lg_decayed_to l) div ?q"
  let ?h = "saturating_sub_time now (lg_accrued_to l) div NANOS_PER_MILLI"
  have "lg_decayed_to (touch l now config)
      = (if ?s > 0 then time_saturating_add (lg_decayed_to l) (saturating_mul ?s ?q) else lg_decayed_to l)"
    by (simp add: touch_def Let_def)
  moreover have "?s = 0 \<Longrightarrow> time_saturating_add (lg_decayed_to l) (saturating_mul ?s ?q) = lg_decayed_to l"
    by simp
  ultimately have "lg_decayed_to (touch l now config)
      = time_saturating_add (lg_decayed_to l) (saturating_mul ?s ?q)" by (simp add: word_gt_0)
  then show "unat (lg_decayed_to (touch l now config))
      = clock_at (unat ?q) (unat (lg_decayed_to l)) (unat now)"
    by (simp add: unat_clock_step [OF quantum_pos])
  have hm: "?h * NANOS_PER_MILLI = saturating_mul ?h NANOS_PER_MILLI"
  proof -
    have "unat ?h * 1000000 \<le> unat (saturating_sub_time now (lg_accrued_to l))"
      by (simp add: unat_div)
    then show ?thesis using unat_lt [of "saturating_sub_time now (lg_accrued_to l)"]
      by (simp add: saturating_mul_def)
  qed
  have "lg_accrued_to (touch l now config)
      = (if ?h > 0 then time_saturating_add (lg_accrued_to l) (?h * NANOS_PER_MILLI) else lg_accrued_to l)"
    by (simp add: touch_def Let_def)
  moreover have "?h = 0 \<Longrightarrow> time_saturating_add (lg_accrued_to l) (?h * NANOS_PER_MILLI) = lg_accrued_to l"
    by simp
  ultimately have "lg_accrued_to (touch l now config)
      = time_saturating_add (lg_accrued_to l) (saturating_mul ?h NANOS_PER_MILLI)"
    using hm by (simp add: word_gt_0)
  then show "unat (lg_accrued_to (touch l now config)) = clock_at 1000000 (unat (lg_accrued_to l)) (unat now)"
    using unat_clock_step [of NANOS_PER_MILLI "lg_accrued_to l" now] by simp
  show "lg_running_cpu (touch l now config) = lg_running_cpu l"
    "lg_shares (touch l now config) = lg_shares l" by (simp_all add: touch_def Let_def)
qed

lemma decay_zero: "decay u 0 = u"
proof -
  have "unat (decay u (word_of_nat (1024 * 0))) = unat u" using decay_whole [of 0 u] by simp
  then show ?thesis by (simp add: word_eq_iff_unsigned [where ?'a = nat])
qed

lemma touch_usage:
  "lg_usage (touch l now config)
    = saturating_add (decay (lg_usage l) (saturating_sub_time now (lg_decayed_to l) div quantum_nanos config))
        (saturating_mul (lg_running_cpu l) (saturating_sub_time now (lg_accrued_to l) div NANOS_PER_MILLI))"
proof -
  have z: "saturating_add u 0 = u" for u :: u64
  proof -
    have "unat (saturating_add u 0) = unat u" using unat_lt [of u] by (simp add: unat_saturating_add)
    then show ?thesis by (rule unsigned_word_eqI)
  qed
  have m: "saturating_mul c 0 = 0" for c :: u64 by (simp add: saturating_mul_def)
  show ?thesis by (simp add: touch_def Let_def decay_zero z m word_gt_0)
qed

lemma touch_steps_zero:
  "saturating_sub_time now (lg_decayed_to (touch l now config)) div quantum_nanos config = 0"
  "saturating_sub_time now (lg_accrued_to (touch l now config)) div NANOS_PER_MILLI = 0"
proof -
  have "unat now - clock_at q c (unat now) < q" if "0 < q" for q c
    using that by (rule clock_at_near)
  from this [OF quantum_pos] this [of 1000000]
  have "unat (saturating_sub_time now (lg_decayed_to (touch l now config)) div quantum_nanos config) = 0"
    "unat (saturating_sub_time now (lg_accrued_to (touch l now config)) div NANOS_PER_MILLI) = 0"
    by (simp_all add: unat_div saturating_sub_time_def unat_saturating_sub touch_clocks)
  then show "saturating_sub_time now (lg_decayed_to (touch l now config)) div quantum_nanos config = 0"
    "saturating_sub_time now (lg_accrued_to (touch l now config)) div NANOS_PER_MILLI = 0"
    by (simp_all only: unat_eq_0)
qed

lemma touch_idem: "touch (touch l now config) now config = touch l now config"
  by (subst touch_def) (simp add: touch_steps_zero)

section \<open>The table invariant\<close>

definition shares_sum :: "ledger list \<Rightarrow> nat" where
  "shares_sum ls = sum_list (map (\<lambda>l. unat (lg_shares l)) ls)"

definition fs_wf :: "fair_share \<Rightarrow> bool" where
  "fs_wf fs \<longleftrightarrow> length (fs_factors fs) = length (fs_ledgers fs) \<and> length (fs_ledgers fs) \<le> 1024
     \<and> (\<forall>f\<in>set (fs_factors fs). unat f \<le> 1000000)
     \<and> unat (fs_shares_total fs) = shares_sum (fs_ledgers fs)"

lemma shares_sum_le: "shares_sum ls \<le> length ls * (2 ^ 32 - 1)"
proof (induction ls)
  case (Cons l ls)
  have "unat (lg_shares l) \<le> 2 ^ 32 - 1" using unat_lt [of "lg_shares l"] by simp
  with Cons show ?case by (simp add: shares_sum_def)
qed (simp add: shares_sum_def)

lemma shares_sum_bound: "length ls \<le> 1024 \<Longrightarrow> shares_sum ls \<le> 1024 * (2 ^ 32 - 1)"
  using shares_sum_le [of ls] mult_le_mono1 [of "length ls" 1024 "2 ^ 32 - 1"] by linarith

lemma shares_sum_update:
  "n < length ls \<Longrightarrow> shares_sum (ls[n := l]) + unat (lg_shares (ls ! n)) = shares_sum ls + unat (lg_shares l)"
  using elem_le_sum_list [of n "map (\<lambda>l. unat (lg_shares l)) ls"]
  by (simp add: shares_sum_def map_update sum_list_update)

lemma unat_add_eqI: "unat (a :: u64) + unat b = n \<Longrightarrow> n < 2 ^ 64 \<Longrightarrow> unat (a + b) = n"
  by (simp add: unat_add_exact)

lemma fs_ensure_wf:
  assumes "fs_wf fs" and "fs_ensure fs acct = Inr fs'"
  shows "fs_wf fs'" and "unat acct < length (fs_ledgers fs')"
proof -
  let ?n = "unat acct" and ?len = "length (fs_ledgers fs)"
  from assms(2) have lt: "?n < 1024"
    by (auto simp: fs_ensure_def MAX_ACCOUNTS_def word_le_nat_alt split: if_splits)
  have "fs_wf fs' \<and> ?n < length (fs_ledgers fs')"
  proof (cases "?len \<le> ?n")
    case False
    with assms show ?thesis by (auto simp: fs_ensure_def Let_def split: if_splits)
  next
    case True
    then have fs': "fs' = fs\<lparr>fs_ledgers := vec_resize (fs_ledgers fs) (?n + 1) ledger_default,
                  fs_factors := vec_resize (fs_factors fs) (?n + 1) FACTOR_SCALE,
                  fs_shares_total := fs_shares_total fs + word_of_nat (?n + 1 - ?len)\<rparr>"
      using assms(2) by (auto simp: fs_ensure_def Let_def split: if_splits)
    have ls: "fs_ledgers fs' = fs_ledgers fs @ replicate (?n + 1 - ?len) ledger_default"
      using True by (simp add: fs' vec_resize_def)
    have sum: "shares_sum (fs_ledgers fs') = shares_sum (fs_ledgers fs) + (?n + 1 - ?len)"
      unfolding ls by (simp add: shares_sum_def ledger_default_def sum_list_replicate)
    have len': "length (fs_ledgers fs') = ?n + 1" using True ls by simp
    have "shares_sum (fs_ledgers fs') < 2 ^ 64"
      using shares_sum_bound [of "fs_ledgers fs'"] len' lt by simp
    moreover have "unat (word_of_nat (?n + 1 - ?len) :: u64) = ?n + 1 - ?len"
      using lt by (simp add: unat_of_nat)
    ultimately have "unat (fs_shares_total fs') = shares_sum (fs_ledgers fs')"
      using assms(1) sum by (simp add: fs' fs_wf_def unat_add_eqI)
    moreover have "\<forall>f\<in>set (fs_factors fs'). unat f \<le> 1000000"
      using assms(1) True by (auto simp: fs' fs_wf_def vec_resize_def)
    ultimately show ?thesis using len' lt by (simp add: fs_wf_def) (simp add: fs')
  qed
  then show "fs_wf fs'" and "unat acct < length (fs_ledgers fs')" by auto
qed

lemma fs_ensure_total: "acct < MAX_ACCOUNTS \<Longrightarrow> \<exists>fs'. fs_ensure fs acct = Inr fs'"
  by (simp add: fs_ensure_def Let_def not_le [symmetric])

lemma fs_set_shares_wf:
  assumes "fs_wf fs"
  shows "\<exists>r. fs_set_shares fs acct sh = Some r \<and> (\<forall>fs'. r = Inr fs' \<longrightarrow> fs_wf fs')"
proof (cases "fs_ensure fs acct")
  case (Inr fs1)
  note e = fs_ensure_wf [OF assms Inr]
  let ?n = "unat acct" and ?l = "fs_ledgers fs1 ! unat acct"
  let ?t = "fs_shares_total fs1 - ucast (lg_shares ?l) + ucast sh"
  let ?ls = "(fs_ledgers fs1)[?n := ?l\<lparr>lg_shares := sh\<rparr>]"
  have sum: "shares_sum ?ls + unat (lg_shares ?l) = shares_sum (fs_ledgers fs1) + unat sh"
    using shares_sum_update [OF e(2), of "?l\<lparr>lg_shares := sh\<rparr>"] by simp
  have le: "unat (lg_shares ?l) \<le> shares_sum (fs_ledgers fs1)"
    using elem_le_sum_list [of ?n "map (\<lambda>l. unat (lg_shares l)) (fs_ledgers fs1)"] e(2)
    by (simp add: shares_sum_def)
  have tot: "unat (fs_shares_total fs1) = shares_sum (fs_ledgers fs1)" using e(1) by (simp add: fs_wf_def)
  have "unat (fs_shares_total fs1 - ucast (lg_shares ?l)) = shares_sum (fs_ledgers fs1) - unat (lg_shares ?l)"
    using le tot by (simp add: unat_sub word_le_nat_alt)
  then have "unat (fs_shares_total fs1 - ucast (lg_shares ?l)) + unat (ucast sh :: u64) = shares_sum ?ls"
    using sum le by simp
  moreover have "shares_sum ?ls < 2 ^ 64"
    using shares_sum_bound [of ?ls] e(1) by (simp add: fs_wf_def)
  ultimately have "unat ?t = shares_sum ?ls" by (rule unat_add_eqI)
  then have "fs_wf (fs1\<lparr>fs_shares_total := ?t, fs_ledgers := ?ls\<rparr>)"
    using e(1) by (simp add: fs_wf_def)
  then show ?thesis using Inr e(2) by (simp add: fs_set_shares_def)
qed (simp add: fs_set_shares_def)

lemma unat_sum_shares:
  assumes "length ls \<le> 1024"
  shows "unat (sum_list (map (\<lambda>l. ucast (lg_shares l)) ls) :: u64) = shares_sum ls"
  using assms
proof (induction ls)
  case (Cons l ls)
  moreover have "shares_sum (l # ls) < 2 ^ 64"
    using shares_sum_bound [of "l # ls"] Cons.prems by simp
  ultimately show ?case by (auto simp: shares_sum_def intro!: unat_add_eqI)
qed (simp add: shares_sum_def)

lemma fs_restore_wf: "fs_restore fs ls = Inr fs' \<Longrightarrow> fs_wf fs'"
  by (auto simp: fs_restore_def fs_wf_def MAX_ACCOUNTS_def unat_sum_shares split: if_splits)

lemma fs_update_wf:
  assumes "fs_wf fs" and "n < length (fs_ledgers fs)" and "lg_shares l = lg_shares (fs_ledgers fs ! n)"
  shows "fs_wf (fs\<lparr>fs_ledgers := (fs_ledgers fs)[n := l]\<rparr>)"
  using assms shares_sum_update [OF assms(2), of l] by (simp add: fs_wf_def)

lemma on_dispatch_wf: "fs_wf fs \<Longrightarrow> fs_wf (on_dispatch fs acct cpu now config)"
  by (auto simp: on_dispatch_def Let_def touch_clocks split: option.splits intro: fs_update_wf)

lemma on_release_wf: "fs_wf fs \<Longrightarrow> fs_wf (on_release fs acct cpu now config)"
  by (auto simp: on_release_def Let_def touch_clocks split: option.splits intro: fs_update_wf)

lemma fs_refresh_wf:
  assumes "fs_wf fs"
  shows "fs_wf (fs_refresh fs now config)"
proof -
  have "shares_sum (map (\<lambda>l. touch l now config) ls) = shares_sum ls" for ls
    by (simp add: shares_sum_def comp_def touch_clocks)
  with assms show ?thesis
    by (auto simp: fs_wf_def fs_refresh_def Let_def factor_for_le set_zip)
qed

lemma fs_factor_le: "fs_wf fs \<Longrightarrow> unat (fs_factor fs acct) \<le> 1000000"
  by (auto simp: fs_factor_def fs_wf_def split: option.splits)

section \<open>Histories of the table\<close>

inductive fs_run :: "fair_share \<Rightarrow> bool" where
  fs_run_new: "fs_run fair_share_new"
| fs_run_ensure: "fs_run fs \<Longrightarrow> fs_ensure fs acct = Inr fs' \<Longrightarrow> fs_run fs'"
| fs_run_set_shares: "fs_run fs \<Longrightarrow> fs_set_shares fs acct sh = Some (Inr fs') \<Longrightarrow> fs_run fs'"
| fs_run_restore: "fs_run fs \<Longrightarrow> fs_restore fs ls = Inr fs' \<Longrightarrow> fs_run fs'"
| fs_run_dispatch: "fs_run fs \<Longrightarrow> fs_run (on_dispatch fs acct cpu now config)"
| fs_run_release: "fs_run fs \<Longrightarrow> fs_run (on_release fs acct cpu now config)"
| fs_run_refresh: "fs_run fs \<Longrightarrow> fs_run (fs_refresh fs now config)"

lemma fs_new_wf: "fs_wf fair_share_new"
  by (simp add: fs_wf_def fair_share_new_def shares_sum_def)

lemma fs_run_wf: "fs_run fs \<Longrightarrow> fs_wf fs"
proof (induction rule: fs_run.induct)
  case (fs_run_set_shares fs acct sh fs')
  then show ?case using fs_set_shares_wf [of fs acct sh] by auto
qed (auto intro: fs_new_wf fs_ensure_wf fs_restore_wf on_dispatch_wf on_release_wf fs_refresh_wf)

lemma usage_total_exact:
  assumes "length ls \<le> 1024"
  shows "unat (foldl (\<lambda>acc l. acc + ucast (lg_usage l)) (0 :: u128) ls)
    = sum_list (map (\<lambda>l. unat (lg_usage l)) ls)
    \<and> sum_list (map (\<lambda>l. unat (lg_usage l)) ls) \<le> length ls * (2 ^ 64 - 1)"
  using assms
proof (induction ls rule: rev_induct)
  case (snoc l ls)
  let ?acc = "foldl (\<lambda>acc l. acc + ucast (lg_usage l)) (0 :: u128) ls"
  have u: "unat (lg_usage l) \<le> 2 ^ 64 - 1" using unat_lt [of "lg_usage l"] by simp
  from snoc have IH: "unat ?acc = sum_list (map (\<lambda>l. unat (lg_usage l)) ls)"
    "sum_list (map (\<lambda>l. unat (lg_usage l)) ls) \<le> length ls * (2 ^ 64 - 1)" by auto
  have "length ls * (2 ^ 64 - 1) \<le> 1024 * (2 ^ 64 - 1)" using snoc.prems by (intro mult_le_mono1) simp
  with u IH have "unat ?acc + unat (ucast (lg_usage l) :: u128) < 2 ^ LENGTH(128)" by simp
  from unat_add_exact [OF this] IH u show ?case by simp
qed simp

section \<open>Properties\<close>

text \<open>
  C32. The fair-share table stays consistent under every history of submissions, share changes,
  restores, dispatches, releases and refreshes: one factor per ledger, at most 1024 accounts, the
  running total of shares exactly the sum of the ledgers' shares (no wrap-around), and every
  factor, also that of an unseen account, at most the scale.
\<close>

theorem fair_share_consistent:
  assumes "fs_run fs"
  shows "length (fs_factors fs) = length (fs_ledgers fs) \<and> length (fs_ledgers fs) \<le> 1024
    \<and> unat (fs_shares_total fs) = sum_list (map (\<lambda>l. unat (lg_shares l)) (fs_ledgers fs))
    \<and> fs_factor fs acct \<le> FACTOR_SCALE"
  using fs_run_wf [OF assms] fs_factor_le [of fs acct]
  by (simp add: fs_wf_def shares_sum_def word_le_nat_alt)

definition sample_fair_share :: fair_share where
  "sample_fair_share = projr (the (fs_set_shares fair_share_new 2 5))"

theorem fair_share_consistent_witness:
  "fs_run sample_fair_share \<and> length (fs_ledgers sample_fair_share) = 3
   \<and> unat (fs_shares_total sample_fair_share)
       = sum_list (map (\<lambda>l. unat (lg_shares l)) (fs_ledgers sample_fair_share))"
proof -
  have "fs_set_shares fair_share_new 2 5 = Some (Inr sample_fair_share)"
    unfolding sample_fair_share_def by code_simp
  from fs_run_set_shares [OF fs_run_new this] have run: "fs_run sample_fair_share" .
  have "length (fs_ledgers sample_fair_share) = 3" by code_simp
  with run fair_share_consistent [OF run, of 0] show ?thesis by blast
qed


definition sample_ledgers :: "ledger list" where
  "sample_ledgers = [ledger_from_parts 10 0 1 0 0, ledger_from_parts 30 0 3 0 0]"

definition restored_fair_share :: fair_share where
  "restored_fair_share = projr (fs_restore fair_share_new sample_ledgers)"




end
