(* ===== verification/Cycle.thy ===== *)
theory Cycle
  imports Preempt Dependency_Graph Fair_Share
begin

text \<open>
  The scheduler (\<open>engine/cycle.rs\<close>): the lifecycle calls that move jobs between states and the
  scheduling cycle that refreshes the ledgers, orders the ready jobs, packs, backfills and applies
  the decisions. The arena of jobs and the inventory belong to the caller and are passed along. The
  scratch buffers \<open>candidates\<close>, \<open>disposition\<close> and \<open>backfill_scratch\<close> are refilled before every
  use, so they are local values here. A call that returns an error keeps the changes it made before
  the error, as the code does.
\<close>

section \<open>State\<close>

record cycle_config =
  cc_priority :: priority_config
  cc_fairshare :: fair_share_config
  cc_preempt :: preempt_config
  cc_budget :: pack_budget
  max_candidates :: nat

record cycle_outcome =
  co_candidates :: nat
  co_dispatched :: nat
  co_backfilled :: nat
  co_head :: "job_id option"
  co_reservation :: "virtual_time option"
  co_budget_exhausted :: bool

definition cycle_outcome_default :: cycle_outcome where
  "cycle_outcome_default = \<lparr>co_candidates = 0, co_dispatched = 0, co_backfilled = 0, co_head = None,
     co_reservation = None, co_budget_exhausted = False\<rparr>"

datatype lifecycle_error =
  UnknownJob job_id
| NotSubmitted job_id job_state
| Dependency dependency_error
| Account account_error
| Transition transition_error

record scheduler =
  sc_ready :: ready_set
  sc_deps :: dependency_tracker
  sc_fairshare :: fair_share

type_synonym 'a call = "(scheduler \<times> job arena \<times> (lifecycle_error + 'a)) option"

section \<open>Lifecycle calls\<close>

definition scheduler_new :: scheduler where
  "scheduler_new = \<lparr>sc_ready = ready_new, sc_deps = tracker_new, sc_fairshare = fair_share_new\<rparr>"

definition scheduler_with_slots :: "nat \<Rightarrow> scheduler" where
  "scheduler_with_slots slots =
     scheduler_new\<lparr>sc_ready := ready_reserve_slots (sc_ready scheduler_new) slots,
                   sc_deps := tracker_reserve_slots (sc_deps scheduler_new) slots\<rparr>"

definition sched_pending :: "scheduler \<Rightarrow> nat" where
  "sched_pending s = ready_len (sc_ready s)"

definition withdraw :: "scheduler \<Rightarrow> priority_class \<Rightarrow> job_id \<Rightarrow> (scheduler \<times> bool) option" where
  "withdraw s c i = do { (r, found) \<leftarrow> ready_remove (sc_ready s) c i; Some (s\<lparr>sc_ready := r\<rparr>, found) }"

definition sched_set_shares ::
  "scheduler \<Rightarrow> account_id \<Rightarrow> u32 \<Rightarrow> (scheduler \<times> (lifecycle_error + unit)) option" where
  "sched_set_shares s a shares =
     do { r \<leftarrow> fs_set_shares (sc_fairshare s) a shares;
          case r of Inl e \<Rightarrow> Some (s, Inl (Account e))
          | Inr fs \<Rightarrow> Some (s\<lparr>sc_fairshare := fs\<rparr>, Inr ()) }"

definition check_submit :: "scheduler \<Rightarrow> job_id \<Rightarrow> job \<Rightarrow> job arena \<Rightarrow> lifecycle_error + readiness" where
  "check_submit s i j jobs =
     (if account j \<ge> MAX_ACCOUNTS then Inl (Account (AccountError (account j)))
      else case classify i j jobs of Inl e \<Rightarrow> Inl (Dependency e) | Inr r \<Rightarrow> Inr r)"

text \<open>The score of a job at \<open>now\<close>, and its insertion into the ready set, as three calls do it.\<close>

definition job_score :: "scheduler \<Rightarrow> job \<Rightarrow> virtual_time \<Rightarrow> cycle_config \<Rightarrow> score" where
  "job_score s j now config =
     score j now (cc_priority config) (fs_factor (sc_fairshare s) (account j))"

definition enqueue :: "scheduler \<Rightarrow> job_id \<Rightarrow> job \<Rightarrow> virtual_time \<Rightarrow> cycle_config \<Rightarrow> scheduler option" where
  "enqueue s i j now config =
     do { r \<leftarrow> ready_insert (sc_ready s) (priority_class j) i (job_score s j now config);
          Some (s\<lparr>sc_ready := r\<rparr>) }"

definition restore_running ::
  "scheduler \<Rightarrow> job_id \<Rightarrow> job arena \<Rightarrow> virtual_time \<Rightarrow> cycle_config \<Rightarrow> unit call" where
  "restore_running s i jobs now config =
     (case arena_get jobs i of
        None \<Rightarrow> Some (s, jobs, Inl (UnknownJob i))
      | Some j \<Rightarrow>
          do { (s, _) \<leftarrow> withdraw s (priority_class j) i;
               case try_transition j Running of
                 Inl e \<Rightarrow> Some (s, jobs, Inl (Transition e))
               | Inr j \<Rightarrow>
                   Some (s\<lparr>sc_fairshare := on_dispatch (sc_fairshare s) (account j)
                            (cpu_millis (request j)) now (cc_fairshare config)\<rparr>,
                         arena_put jobs i j, Inr ()) })"

definition sched_preempt :: "scheduler \<Rightarrow> job_id \<Rightarrow> job arena \<Rightarrow> unit call" where
  "sched_preempt s i jobs =
     (case arena_get jobs i of
        None \<Rightarrow> Some (s, jobs, Inl (UnknownJob i))
      | Some j \<Rightarrow>
          (case try_transition j Preempted of
             Inl e \<Rightarrow> Some (s, jobs, Inl (Transition e))
           | Inr j \<Rightarrow> Some (s, arena_put jobs i j, Inr ())))"

definition sched_release ::
  "scheduler \<Rightarrow> job \<Rightarrow> virtual_time \<Rightarrow> cycle_config \<Rightarrow> scheduler" where
  "sched_release s j now config =
     s\<lparr>sc_fairshare := on_release (sc_fairshare s) (account j) (cpu_millis (request j)) now
         (cc_fairshare config)\<rparr>"

definition requeue ::
  "scheduler \<Rightarrow> job_id \<Rightarrow> job arena \<Rightarrow> virtual_time \<Rightarrow> cycle_config \<Rightarrow> unit call" where
  "requeue s i jobs now config =
     (case arena_get jobs i of
        None \<Rightarrow> Some (s, jobs, Inl (UnknownJob i))
      | Some j \<Rightarrow>
          (case (if state j = Running then try_transition j Preempted else Inr j) of
             Inl e \<Rightarrow> Some (s, jobs, Inl (Transition e))
           | Inr j \<Rightarrow>
               let jobs = arena_put jobs i j in
               (case try_transition j Ready of
                  Inl e \<Rightarrow> Some (s, jobs, Inl (Transition e))
                | Inr j \<Rightarrow>
                    let jobs = arena_put jobs i j; s = sched_release s j now config in
                    do { s \<leftarrow> enqueue s i j now config; Some (s, jobs, Inr ()) })))"

definition on_preempted ::
  "scheduler \<Rightarrow> job_id \<Rightarrow> job arena \<Rightarrow> virtual_time \<Rightarrow> cycle_config \<Rightarrow> unit call" where
  "on_preempted s i jobs now config =
     (case arena_get jobs i of
        None \<Rightarrow> Some (s, jobs, Inl (UnknownJob i))
      | Some j \<Rightarrow>
          if state j \<noteq> Preempted then Some (s, jobs, Inl (Transition (TransitionError (state j) Ready)))
          else requeue s i
                 (arena_put jobs i (j\<lparr>preemptions := saturating_add (preemptions j) 1\<rparr>)) now config)"

definition restore_ledgers ::
  "scheduler \<Rightarrow> ledger list \<Rightarrow> scheduler \<times> (lifecycle_error + unit)" where
  "restore_ledgers s ls =
     (case fs_restore (sc_fairshare s) ls of
        Inl e \<Rightarrow> (s, Inl (Account e))
      | Inr fs \<Rightarrow> (s\<lparr>sc_fairshare := fs\<rparr>, Inr ()))"

fun readiness_state :: "readiness \<Rightarrow> job_state" where
  "readiness_state Readiness_Ready = Ready"
| "readiness_state Readiness_Blocked = Blocked"
| "readiness_state Readiness_Cancelled = Cancelled"

definition submit ::
  "scheduler \<Rightarrow> job_id \<Rightarrow> job arena \<Rightarrow> virtual_time \<Rightarrow> cycle_config \<Rightarrow> job_state call" where
  "submit s i jobs now config =
     (case arena_get jobs i of
        None \<Rightarrow> Some (s, jobs, Inl (UnknownJob i))
      | Some j \<Rightarrow>
          if state j \<noteq> Submitted then Some (s, jobs, Inl (NotSubmitted i (state j)))
          else case fs_ensure (sc_fairshare s) (account j) of
            Inl e \<Rightarrow> Some (s, jobs, Inl (Account e))
          | Inr fs \<Rightarrow>
              let s = s\<lparr>sc_fairshare := fs\<rparr> in
              do { (t, r) \<leftarrow> register (sc_deps s) i j jobs;
                   let s = s\<lparr>sc_deps := t\<rparr>
                   in case r of
                        Inl e \<Rightarrow> Some (s, jobs, Inl (Dependency e))
                      | Inr r \<Rightarrow>
                          let next_state = readiness_state r in
                          (case try_transition j next_state of
                             Inl e \<Rightarrow> Some (s, jobs, Inl (Transition e))
                           | Inr j \<Rightarrow>
                               let jobs = arena_put jobs i j in
                               if next_state = Ready
                               then do { s \<leftarrow> enqueue s i j now config; Some (s, jobs, Inr next_state) }
                               else Some (s, jobs, Inr next_state)) })"

fun promote_loop ::
  "job_id list \<Rightarrow> scheduler \<Rightarrow> job arena \<Rightarrow> virtual_time \<Rightarrow> cycle_config
     \<Rightarrow> (scheduler \<times> job arena) option" where
  "promote_loop [] s jobs now config = Some (s, jobs)"
| "promote_loop (x # xs) s jobs now config =
     (case arena_get jobs x of
        None \<Rightarrow> promote_loop xs s jobs now config
      | Some j \<Rightarrow>
          (case try_transition j Ready of
             Inl e \<Rightarrow> promote_loop xs s jobs now config
           | Inr j \<Rightarrow>
               do { s \<leftarrow> enqueue s x j now config;
                    promote_loop xs s (arena_put jobs x j) now config }))"

definition sched_on_completed ::
  "scheduler \<Rightarrow> job_id \<Rightarrow> job arena \<Rightarrow> virtual_time \<Rightarrow> cycle_config \<Rightarrow> job_id list call" where
  "sched_on_completed s i jobs now config =
     (case arena_get jobs i of
        None \<Rightarrow> Some (s, jobs, Inl (UnknownJob i))
      | Some j \<Rightarrow>
          (case try_transition j Completed of
             Inl e \<Rightarrow> Some (s, jobs, Inl (Transition e))
           | Inr j \<Rightarrow>
               let jobs = arena_put jobs i j; s = sched_release s j now config in
               do { (t, promoted) \<leftarrow> deps_on_completed (sc_deps s) i [];
                    (s, jobs) \<leftarrow> promote_loop promoted (s\<lparr>sc_deps := t\<rparr>) jobs now config;
                    Some (s, jobs, Inr promoted) }))"

fun apply_cascade ::
  "job_id list \<Rightarrow> scheduler \<Rightarrow> job arena \<Rightarrow> (scheduler \<times> job arena) option" where
  "apply_cascade [] s jobs = Some (s, jobs)"
| "apply_cascade (x # xs) s jobs =
     (case arena_get jobs x of
        None \<Rightarrow> apply_cascade xs s jobs
      | Some j \<Rightarrow>
          do { s \<leftarrow> (if state j = Ready then map_option fst (withdraw s (priority_class j) x) else Some s);
               apply_cascade xs s
                 (case try_transition j Cancelled of Inl e \<Rightarrow> jobs | Inr j \<Rightarrow> arena_put jobs x j) })"

text \<open>The common end of \<open>on_failed\<close> and \<open>cancel\<close>: cascade from \<open>i\<close> and cancel what it reaches.\<close>

definition cascade_from :: "scheduler \<Rightarrow> job_id \<Rightarrow> job arena \<Rightarrow> job_id list call" where
  "cascade_from s i jobs =
     do { (t, cancelled) \<leftarrow> on_terminated (sc_deps s) i [];
          (s, jobs) \<leftarrow> apply_cascade cancelled (s\<lparr>sc_deps := t\<rparr>) jobs;
          Some (s, jobs, Inr cancelled) }"

definition on_failed ::
  "scheduler \<Rightarrow> job_id \<Rightarrow> job arena \<Rightarrow> virtual_time \<Rightarrow> cycle_config \<Rightarrow> job_id list call" where
  "on_failed s i jobs now config =
     (case arena_get jobs i of
        None \<Rightarrow> Some (s, jobs, Inl (UnknownJob i))
      | Some j \<Rightarrow>
          (case try_transition j Failed of
             Inl e \<Rightarrow> Some (s, jobs, Inl (Transition e))
           | Inr j \<Rightarrow> cascade_from (sched_release s j now config) i (arena_put jobs i j)))"

definition cancel ::
  "scheduler \<Rightarrow> job_id \<Rightarrow> job arena \<Rightarrow> virtual_time \<Rightarrow> cycle_config \<Rightarrow> job_id list call" where
  "cancel s i jobs now config =
     (case arena_get jobs i of
        None \<Rightarrow> Some (s, jobs, Inl (UnknownJob i))
      | Some j \<Rightarrow>
          do { s \<leftarrow> (if state j = Ready then map_option fst (withdraw s (priority_class j) i) else Some s);
               let was_running = state j = Running \<or> state j = Preempted
               in case try_transition j Cancelled of
                    Inl e \<Rightarrow> Some (s, jobs, Inl (Transition e))
                  | Inr j \<Rightarrow>
                      cascade_from (if was_running then sched_release s j now config else s) i
                        (arena_put jobs i j) })"

section \<open>The cycle\<close>

text \<open>Stored scores are stale; every live candidate gets its score of \<open>now\<close>.\<close>

definition rescore ::
  "fair_share \<Rightarrow> job arena \<Rightarrow> virtual_time \<Rightarrow> cycle_config \<Rightarrow> ready_entry \<Rightarrow> ready_entry" where
  "rescore fs jobs now config e =
     (case arena_get jobs (entry_job e) of
        None \<Rightarrow> e
      | Some j \<Rightarrow> e\<lparr>entry_score := score j now (cc_priority config) (fs_factor fs (account j))\<rparr>)"

text \<open>
  Descending by class and then by key. Entries of equal rank are equal, so the unstable sort of the
  code has only one result.
\<close>

definition order_candidates :: "ready_entry list \<Rightarrow> ready_entry list" where
  "order_candidates es = rev (sort_key entry_rank es)"

fun emit_loop ::
  "nat \<Rightarrow> ready_entry list \<Rightarrow> disposition list \<Rightarrow> scheduler \<Rightarrow> job arena \<Rightarrow> virtual_time \<Rightarrow> cycle_config
     \<Rightarrow> (scheduler \<times> job arena) option" where
  "emit_loop index [] disp s jobs now config = Some (s, jobs)"
| "emit_loop index (e # es) disp s jobs now config =
     do { d \<leftarrow> vec_index disp index;
          case d of
            Dispatched \<Rightarrow>
              (case arena_get jobs (entry_job e) of
                 None \<Rightarrow> emit_loop (index + 1) es disp s jobs now config
               | Some j \<Rightarrow>
                   (case try_transition j Running of
                      Inl err \<Rightarrow> None
                    | Inr j \<Rightarrow>
                        emit_loop (index + 1) es disp
                          (s\<lparr>sc_fairshare := on_dispatch (sc_fairshare s) (account j)
                              (cpu_millis (request j)) now (cc_fairshare config)\<rparr>)
                          (arena_put jobs (entry_job e) j) now config))
          | Pending \<Rightarrow>
              do { r \<leftarrow> reinsert (sc_ready s) e;
                   emit_loop (index + 1) es disp (s\<lparr>sc_ready := r\<rparr>) jobs now config }
          | Dropped \<Rightarrow> emit_loop (index + 1) es disp s jobs now config }"

text \<open>Packing the ordered candidates, and backfilling behind the head if packing stopped at one.\<close>

definition place_candidates ::
  "ready_entry list \<Rightarrow> job arena \<Rightarrow> slot_inventory \<Rightarrow> running_job list \<Rightarrow> virtual_time \<Rightarrow> cycle_config
     \<Rightarrow> dispatch_decision list
     \<Rightarrow> (slot_inventory \<times> disposition list \<times> dispatch_decision list \<times> cycle_outcome) option" where
  "place_candidates candidates jobs iv running now config decs =
     do { (iv, disp, decs, po) \<leftarrow> pack candidates jobs iv (cc_budget config)
            (replicate (length candidates) Pending) decs;
          let out = cycle_outcome_default\<lparr>co_candidates := length candidates,
                co_dispatched := po_dispatched po, co_budget_exhausted := po_budget_exhausted po\<rparr>
          in case po_head po of
               None \<Rightarrow> Some (iv, disp, decs, out)
             | Some h \<Rightarrow>
                 do { head \<leftarrow> vec_index candidates h;
                      (iv, disp, decs, bo) \<leftarrow> easy_backfill candidates h jobs iv running now
                         (cc_budget config) disp decs;
                      Some (iv, disp, decs,
                            out\<lparr>co_head := Some (entry_job head), co_backfilled := bo_backfilled bo,
                                co_reservation := bo_reservation bo\<rparr>) } }"

definition run_cycle ::
  "scheduler \<Rightarrow> job arena \<Rightarrow> slot_inventory \<Rightarrow> running_job list \<Rightarrow> virtual_time \<Rightarrow> cycle_config
     \<Rightarrow> dispatch_decision list
     \<Rightarrow> (scheduler \<times> job arena \<times> slot_inventory \<times> dispatch_decision list \<times> cycle_outcome) option" where
  "run_cycle s jobs iv running now config decs =
     (let s = s\<lparr>sc_fairshare := fs_refresh (sc_fairshare s) now (cc_fairshare config)\<rparr>
      in do { (r, drained) \<leftarrow> drain_ordered_into (sc_ready s) [] (max_candidates config);
           let s = s\<lparr>sc_ready := r\<rparr>
           in if drained = [] then Some (s, jobs, iv, decs, cycle_outcome_default)
              else
                let candidates = order_candidates (map (rescore (sc_fairshare s) jobs now config) drained)
                in do { (iv, disp, decs, out) \<leftarrow> place_candidates candidates jobs iv running now config decs;
                        (s, jobs) \<leftarrow> emit_loop 0 candidates disp s jobs now config;
                        Some (s, jobs, iv, decs, out) } })"

end
