(* ===== verification/Scheduler_Inv.thy ===== *)
theory Scheduler_Inv
  imports Cycle
begin

text \<open>
  The invariant of the scheduler: the ready set holds exactly the ready jobs, the dependency tracker
  describes exactly the open jobs, and every account is charged exactly the cpu its jobs hold. This
  theory defines it and collects how its parts behave when the arena, the ready set and the ledgers
  change; the next one shows that every call keeps it.
\<close>

section \<open>Handles the arena has issued\<close>

definition issued :: "'a arena \<Rightarrow> job_id \<Rightarrow> bool" where
  "issued a i \<longleftrightarrow> dep_ix i < length (arena_slots a)
     \<and> (case arena_slots a ! dep_ix i of
          Occupied g v \<Rightarrow> job_generation i \<le> g
        | Vacant g nf \<Rightarrow> job_generation i < g)"

lemma live_issued: "arena_get a i = Some v \<Longrightarrow> issued a i"
  by (simp add: issued_def arena_get_alt)

lemma issued_put: "issued (arena_put a i v) x \<longleftrightarrow> issued a x"
  by (cases "arena_get a i")
    (auto simp: issued_def arena_put_live arena_get_alt nth_list_update)

lemma issued_insert:
  assumes "arena_insert a v = Some (a', i)" and "issued a x"
  shows "issued a' x"
  using assms(1)
proof (cases rule: arena_insert_cases)
  case (reuse w g nf)
  with assms(2) show ?thesis by (auto simp: issued_def nth_list_update)
next
  case grow
  with assms(2) show ?thesis by (auto simp: issued_def nth_append)
qed

lemma insert_not_issued:
  assumes "arena_insert a v = Some (a', i)"
  shows "\<not> issued a i"
  using assms
proof (cases rule: arena_insert_cases)
  case grow
  then show ?thesis by (simp add: issued_def unat_of_nat)
qed (auto simp: issued_def)

lemma issued_remove:
  assumes "arena_get a i = Some u" and "job_generation i \<noteq> - 1" and "issued a x"
  shows "issued (fst (arena_remove a i)) x"
proof -
  have "g < job_generation i + 1" if "g \<le> job_generation i" for g
  proof -
    have "unat (job_generation i) \<noteq> unat (- 1 :: u32)" using assms(2) by (metis unsigned_word_eqI)
    then have "unat (job_generation i) + unat (1 :: u32) < 2 ^ 32"
      using unat_lt [of "job_generation i"] by (simp add: unat_minus_one_word_eq)
    then have "unat (job_generation i + 1) = Suc (unat (job_generation i))"
      by (simp add: unat_add_exact)
    with that show ?thesis by (simp add: word_less_nat_alt word_le_nat_alt)
  qed
  with assms show ?thesis
    by (auto simp: issued_def arena_remove_live arena_get_alt nth_list_update)
qed

lemma live_index_inj:
  assumes "arena_get a i = Some u" and "arena_get a x = Some v" and "dep_ix i = dep_ix x"
  shows "i = x"
  using assms by (auto simp: arena_get_alt job_id_eq_iff unsigned_word_eqI)

section \<open>The cpu an account holds\<close>

definition job_cpu :: "account_id \<Rightarrow> job \<Rightarrow> nat" where
  "job_cpu a j = (if account j = a \<and> (state j = Running \<or> state j = Preempted)
     then unat (cpu_millis (request j)) else 0)"

definition slot_cpu :: "account_id \<Rightarrow> job slot \<Rightarrow> nat" where
  "slot_cpu a s = (case s of Occupied g j \<Rightarrow> job_cpu a j | Vacant g nf \<Rightarrow> 0)"

definition held_cpu :: "job arena \<Rightarrow> account_id \<Rightarrow> nat" where
  "held_cpu jobs a = sum_list (map (slot_cpu a) (arena_slots jobs))"

lemma sum_list_map_update:
  fixes f :: "'a \<Rightarrow> nat"
  assumes "k < length xs"
  shows "sum_list (map f (xs[k := v])) + f (xs ! k) = sum_list (map f xs) + f v"
  using assms elem_le_sum_list [of k "map f xs"]
  by (simp add: map_update sum_list_update)

lemma held_put:
  assumes "arena_get jobs i = Some j"
  shows "held_cpu (arena_put jobs i j') a + job_cpu a j = held_cpu jobs a + job_cpu a j'"
  using assms sum_list_map_update [of "dep_ix i" "arena_slots jobs" "slot_cpu a"
      "Occupied (job_generation i) j'"]
  by (simp add: held_cpu_def arena_put_live arena_get_alt) (simp add: slot_cpu_def)

lemma held_insert:
  assumes "arena_insert jobs j = Some (jobs', i)" and "job_cpu a j = 0"
  shows "held_cpu jobs' a = held_cpu jobs a"
  using assms(1)
proof (cases rule: arena_insert_cases)
  case (reuse w g nf)
  with assms(2) sum_list_map_update [of "unat w" "arena_slots jobs" "slot_cpu a" "Occupied g j"]
  show ?thesis by (simp add: held_cpu_def) (simp add: slot_cpu_def)
next
  case grow
  with assms(2) show ?thesis by (simp add: held_cpu_def) (simp add: slot_cpu_def)
qed

lemma held_remove:
  assumes "arena_get jobs i = Some j" and "job_cpu a j = 0"
  shows "held_cpu (fst (arena_remove jobs i)) a = held_cpu jobs a"
  using assms sum_list_map_update [of "dep_ix i" "arena_slots jobs" "slot_cpu a"
      "Vacant (job_generation i + 1) (arena_free_head jobs)"]
  by (simp add: held_cpu_def arena_remove_live arena_get_alt) (simp add: slot_cpu_def)

lemma job_cpu_le: "job_cpu a j \<le> 2 ^ 32 - 1"
  using unat_lt [of "cpu_millis (request j)"] by (simp add: job_cpu_def)

lemma held_bound: "held_cpu jobs a \<le> length (arena_slots jobs) * (2 ^ 32 - 1)"
proof -
  have "slot_cpu a s \<le> 2 ^ 32 - 1" for s by (cases s) (use job_cpu_le in \<open>simp_all add: slot_cpu_def\<close>)
  then have "sum_list (map (slot_cpu a) ss) \<le> length ss * (2 ^ 32 - 1)" for ss
    by (induction ss) (simp_all add: add_mono)
  then show ?thesis by (simp add: held_cpu_def)
qed

lemma held_zero:
  assumes "length (arena_slots jobs) \<le> 2 ^ 32" and "\<And>i j. arena_get jobs i = Some j \<Longrightarrow> job_cpu a j = 0"
  shows "held_cpu jobs a = 0"
proof -
  have "slot_cpu a (arena_slots jobs ! k) = 0" if k: "k < length (arena_slots jobs)" for k
  proof (cases "arena_slots jobs ! k")
    case (Occupied g j)
    then have "arena_get jobs (job_id_new (word_of_nat k) g) = Some j"
      using k assms(1) by (simp add: arena_get_alt unat_of_nat)
    with assms(2) Occupied show ?thesis by (simp add: slot_cpu_def)
  qed (simp add: slot_cpu_def)
  then show ?thesis by (auto simp: held_cpu_def sum_list_eq_0_iff in_set_conv_nth)
qed

section \<open>The ready set as a set of jobs\<close>

definition ready_ids :: "ready_set \<Rightarrow> (priority_class \<times> job_id) set" where
  "ready_ids r = entry_ident ` ready_entries r"

definition waiting_ids :: "job arena \<Rightarrow> (priority_class \<times> job_id) set" where
  "waiting_ids jobs = {(c, i). \<exists>j. arena_get jobs i = Some j \<and> state j = Ready \<and> c = priority_class j}"

lemma waiting_put:
  assumes "arena_get jobs i = Some j" and "priority_class j' = priority_class j"
  shows "waiting_ids (arena_put jobs i j')
     = waiting_ids jobs - {(priority_class j, i)} \<union> (if state j' = Ready then {(priority_class j, i)} else {})"
  using assms by (auto simp: waiting_ids_def arena_put_get split: if_splits)

lemma waiting_live: "snd ` waiting_ids jobs \<subseteq> dom (arena_get jobs)"
  by (auto simp: waiting_ids_def)

lemma ready_remove_ids:
  assumes "ready_inv r"
  shows "\<exists>r'. ready_remove r c i = Some (r', (c, i) \<in> ready_ids r) \<and> ready_inv r'
     \<and> ready_ids r' = ready_ids r - {(c, i)}"
proof -
  from ready_remove_spec [OF assms, of c i] obtain r' where
    "ready_remove r c i = Some (r', (c, i) \<in> entry_ident ` ready_entries r)" "ready_inv r'"
    "ready_entries r' = {e \<in> ready_entries r. entry_ident e \<noteq> (c, i)}" by blast
  then show ?thesis by (intro exI [of _ r']) (auto simp: ready_ids_def)
qed

text \<open>Entries of live jobs leave room and never share an index with another live job.\<close>

lemma push_ok_live:
  assumes "ready_inv r" and "length (arena_slots jobs) < 2 ^ 32 - 1"
    and "snd ` ready_ids r \<subseteq> dom (arena_get jobs)" and "arena_get jobs i \<noteq> None"
  shows "push_ok (bucket r c) i"
proof -
  let ?h = "bucket r c"
  have inv: "heap_inv ?h" using assms(1) bucket_in_range [OF assms(1), of c] by (simp add: ready_inv_def)
  then have rep: "heap_rep ?h" by (simp add: heap_inv_def)
  have live: "arena_get jobs x \<noteq> None" if "x \<in> set (ph_ids ?h)" for x
  proof -
    from that obtain k where k: "k \<in> heap_entries ?h" "x = key_job k"
      unfolding heap_jobs [OF rep, symmetric] by auto
    then have "\<lparr>entry_class = c, entry_job = x, entry_score = key_score k\<rparr> \<in> ready_entries r"
      by (cases k) (simp add: ready_entries_def order_key_new_def key_job_def)
    then have "(c, x) \<in> ready_ids r"
      unfolding ready_ids_def by (rule image_eqI [rotated]) (simp add: entry_ident_def)
    with assms(3) show ?thesis by force
  qed
  have "set (map dep_ix (ph_ids ?h)) \<subseteq> {..<length (arena_slots jobs)}"
    using live by (auto simp: arena_get_alt)
  from card_mono [OF _ this] have "card (set (map dep_ix (ph_ids ?h))) \<le> length (arena_slots jobs)" by simp
  moreover have "distinct (map dep_ix (ph_ids ?h))"
    using rep table_ok_distinct by (auto simp: heap_rep_def)
  ultimately have "heap_len ?h < 2 ^ 32 - 1"
    using assms(2) by (simp add: heap_len_def distinct_card del: set_map)
  moreover have "x = i" if "x \<in> set (ph_ids ?h)" "job_index x = job_index i" for x
    using live [OF that(1)] assms(4) that(2) live_index_inj by fastforce
  ultimately show ?thesis by (intro push_okI [OF inv]) auto
qed

lemma ready_insert_ids:
  assumes "ready_inv r" and "length (arena_slots jobs) < 2 ^ 32 - 1"
    and "snd ` ready_ids r \<subseteq> dom (arena_get jobs)" and "arena_get jobs i \<noteq> None"
  shows "\<exists>r'. ready_insert r c i sc = Some r' \<and> ready_inv r' \<and> ready_ids r' = insert (c, i) (ready_ids r)"
proof -
  from ready_insert_spec [OF assms(1) push_ok_live [OF assms], where sc = sc] obtain r' where
    "ready_insert r c i sc = Some r'" "ready_inv r'"
    "ready_entries r' = insert \<lparr>entry_class = c, entry_job = i, entry_score = sc\<rparr>
        {e \<in> ready_entries r. entry_ident e \<noteq> (c, i)}" by blast
  then show ?thesis by (intro exI [of _ r']) (auto simp: ready_ids_def entry_ident_def)
qed


section \<open>The ledgers\<close>

definition cpu_exact :: "fair_share \<Rightarrow> job arena \<Rightarrow> bool" where
  "cpu_exact fs jobs \<longleftrightarrow> (\<forall>a. unat a < length (fs_ledgers fs) \<longrightarrow>
     unat (lg_running_cpu (fs_ledgers fs ! unat a)) = held_cpu jobs a)"

lemma ledgers_dispatch:
  "length (fs_ledgers (on_dispatch fs a cpu now c)) = length (fs_ledgers fs)"
  "k < length (fs_ledgers fs) \<Longrightarrow> unat (lg_running_cpu (fs_ledgers (on_dispatch fs a cpu now c) ! k))
     = (if k = unat a then min (unat (lg_running_cpu (fs_ledgers fs ! k)) + unat cpu) (2 ^ 64 - 1)
        else unat (lg_running_cpu (fs_ledgers fs ! k)))"
  by (auto simp: on_dispatch_def Let_def vec_get_def touch_clocks unat_saturating_add unat_ucast_widen
      nth_list_update)

lemma ledgers_release:
  "length (fs_ledgers (on_release fs a cpu now c)) = length (fs_ledgers fs)"
  "k < length (fs_ledgers fs) \<Longrightarrow> unat (lg_running_cpu (fs_ledgers (on_release fs a cpu now c) ! k))
     = (if k = unat a then unat (lg_running_cpu (fs_ledgers fs ! k)) - unat cpu
        else unat (lg_running_cpu (fs_ledgers fs ! k)))"
  by (auto simp: on_release_def Let_def vec_get_def touch_clocks unat_saturating_sub unat_ucast_widen
      nth_list_update)

lemma ledgers_refresh:
  "length (fs_ledgers (fs_refresh fs now c)) = length (fs_ledgers fs)"
  "k < length (fs_ledgers fs) \<Longrightarrow>
     lg_running_cpu (fs_ledgers (fs_refresh fs now c) ! k) = lg_running_cpu (fs_ledgers fs ! k)"
  by (simp_all add: fs_refresh_def Let_def touch_clocks)

lemma cpu_exact_refresh: "cpu_exact fs jobs \<Longrightarrow> cpu_exact (fs_refresh fs now c) jobs"
  by (simp add: cpu_exact_def ledgers_refresh)

lemma held_lt:
  assumes "length (arena_slots jobs) < 2 ^ 32 - 1"
  shows "held_cpu jobs a < 2 ^ 64"
proof -
  have "held_cpu jobs a \<le> length (arena_slots jobs) * (2 ^ 32 - 1)" by (rule held_bound)
  also have "\<dots> \<le> (2 ^ 32 - 1) * (2 ^ 32 - 1)" using assms by (intro mult_le_mono1) simp
  also have "\<dots> < (2 ^ 64 :: nat)" by simp
  finally show ?thesis .
qed

lemma arena_put_slots: "length (arena_slots (arena_put jobs i j)) = length (arena_slots jobs)"
  by (cases "arena_get jobs i") (simp_all add: arena_put_live)

lemma unat_eq_unat_iff: "unat a = unat b \<longleftrightarrow> a = b" for a b :: "'a::len word"
  by (metis unsigned_word_eqI)

text \<open>A job starts, or stops, to hold its cpu, and its account is charged or released for it.\<close>

lemma cpu_exact_dispatch:
  assumes "cpu_exact fs jobs" and "arena_get jobs i = Some j" and "length (arena_slots jobs) < 2 ^ 32 - 1"
    and "\<And>a. job_cpu a j = 0"
    and "\<And>a. job_cpu a j' = (if a = account j then unat (cpu_millis (request j)) else 0)"
  shows "cpu_exact (on_dispatch fs (account j) (cpu_millis (request j)) now c) (arena_put jobs i j')"
proof -
  have "held_cpu (arena_put jobs i j') a < 2 ^ 64" for a
    using assms(3) by (intro held_lt) (simp add: arena_put_slots)
  moreover have "held_cpu (arena_put jobs i j') a
      = held_cpu jobs a + (if a = account j then unat (cpu_millis (request j)) else 0)" for a
    using held_put [OF assms(2), of j' a] assms(4,5) by simp
  ultimately have "held_cpu jobs a + unat (cpu_millis (request j)) < 2 ^ 64" if "a = account j" for a
    using that by (metis (full_types))
  then show ?thesis
    using assms(1) \<open>\<And>a. held_cpu (arena_put jobs i j') a = _ a\<close>
    by (auto simp: cpu_exact_def ledgers_dispatch min_def unat_eq_unat_iff)
qed

lemma cpu_exact_release:
  assumes "cpu_exact fs jobs" and "arena_get jobs i = Some j"
    and "\<And>a. job_cpu a j = (if a = account j then unat (cpu_millis (request j)) else 0)"
    and "\<And>a. job_cpu a j' = 0"
  shows "cpu_exact (on_release fs (account j) (cpu_millis (request j)) now c) (arena_put jobs i j')"
proof -
  have "held_cpu (arena_put jobs i j') a + (if a = account j then unat (cpu_millis (request j)) else 0)
      = held_cpu jobs a" for a
    using held_put [OF assms(2), of j' a] assms(3,4) by simp
  then have "held_cpu (arena_put jobs i j') a
      = held_cpu jobs a - (if a = account j then unat (cpu_millis (request j)) else 0)" for a
    by (metis diff_add_inverse2)
  then show ?thesis using assms(1) by (auto simp: cpu_exact_def ledgers_release unat_eq_unat_iff)
qed

lemma cpu_exact_put:
  assumes "cpu_exact fs jobs" and "arena_get jobs i = Some j" and "\<And>a. job_cpu a j' = job_cpu a j"
  shows "cpu_exact fs (arena_put jobs i j')"
  using assms(1) held_put [OF assms(2), of j'] assms(3) by (simp add: cpu_exact_def)

section \<open>The invariant\<close>

text \<open>
  What every part relies on: the arena is well formed and small enough for 32-bit indices, the
  ledger table is consistent, and everything the jobs and the tracker mention was issued by the
  arena. No job rests in \<open>Submitted\<close>: submission leaves that state at once.
\<close>

definition jobs_ok :: "job arena \<Rightarrow> dependency_tracker \<Rightarrow> fair_share \<Rightarrow> bool" where
  "jobs_ok jobs t fs \<longleftrightarrow> arena_wf jobs \<and> length (arena_slots jobs) < 2 ^ 32 - 1 \<and> fs_wf fs
     \<and> (\<forall>d x. x \<in> set (tr_deps t d) \<longrightarrow> issued jobs x)
     \<and> (\<forall>i j. arena_get jobs i = Some j \<longrightarrow> state j \<noteq> Submitted
          \<and> (\<not> is_terminal (state j) \<longrightarrow> (\<forall>d\<in>set (deps j). issued jobs d)) \<and> unat (account j) < length (fs_ledgers fs))"

definition sched_inv :: "scheduler \<Rightarrow> job arena \<Rightarrow> bool" where
  "sched_inv s jobs \<longleftrightarrow> jobs_ok jobs (sc_deps s) (sc_fairshare s)
     \<and> ready_inv (sc_ready s) \<and> ready_ids (sc_ready s) = waiting_ids jobs
     \<and> graph_inv (dep_view jobs) (sc_deps s)
     \<and> cpu_exact (sc_fairshare s) jobs"

lemma sched_invD:
  assumes "sched_inv s jobs"
  shows "jobs_ok jobs (sc_deps s) (sc_fairshare s)" and "ready_inv (sc_ready s)"
    and "ready_ids (sc_ready s) = waiting_ids jobs" and "graph_inv (dep_view jobs) (sc_deps s)"
    and "cpu_exact (sc_fairshare s) jobs"
  using assms by (simp_all add: sched_inv_def)

lemma jobs_okD:
  assumes "jobs_ok jobs t fs"
  shows "arena_wf jobs" and "length (arena_slots jobs) < 2 ^ 32 - 1" and "fs_wf fs"
    and "x \<in> set (tr_deps t d) \<Longrightarrow> issued jobs x"
    and "arena_get jobs i = Some j \<Longrightarrow> state j \<noteq> Submitted"
    and "arena_get jobs i = Some j \<Longrightarrow> \<not> is_terminal (state j) \<Longrightarrow> d \<in> set (deps j) \<Longrightarrow> issued jobs d"
    and "arena_get jobs i = Some j \<Longrightarrow> unat (account j) < length (fs_ledgers fs)"
  using assms by (simp_all add: jobs_ok_def)

lemma jobs_ok_put:
  assumes "jobs_ok jobs t fs" and "arena_get jobs i = Some j" and "\<not> is_terminal (state j)"
    and "deps j' = deps j" "account j' = account j" "state j' \<noteq> Submitted"
  shows "jobs_ok (arena_put jobs i j') t fs"
  using assms arena_put_wf
  by (auto simp: jobs_ok_def arena_put_slots issued_put arena_put_get split: if_splits)

lemma jobs_ok_fs:
  assumes "jobs_ok jobs t fs" and "fs_wf fs'" and "length (fs_ledgers fs) \<le> length (fs_ledgers fs')"
  shows "jobs_ok jobs t fs'"
  using assms by (fastforce simp: jobs_ok_def)

lemma jobs_ok_tracker:
  assumes "jobs_ok jobs t fs" and "\<forall>d. set (tr_deps t' d) \<subseteq> set (tr_deps t d)"
  shows "jobs_ok jobs t' fs"
  using assms by (fastforce simp: jobs_ok_def)

lemma dep_view_put:
  assumes "arena_get jobs i = Some j"
  shows "dep_view (arena_put jobs i j') = (dep_view jobs)(i \<mapsto> (phase_of (state j'), deps j'))"
  using assms by (auto simp: dep_view_def arena_put_get)

lemma dep_view_put_same:
  assumes "arena_get jobs i = Some j" and "phase_of (state j') = phase_of (state j)" "deps j' = deps j"
  shows "dep_view (arena_put jobs i j') = dep_view jobs"
  using assms by (auto simp: dep_view_def arena_put_get)

lemma waiting_sub_dom:
  assumes "ready_ids r = waiting_ids jobs"
  shows "snd ` ready_ids r \<subseteq> dom (arena_get jobs)"
  using assms waiting_live by simp

lemma arena_put_dom: "dom (arena_get (arena_put jobs i j)) = dom (arena_get jobs)"
  by (rule arena.put_dom)

lemma enqueue_spec:
  assumes "ready_inv (sc_ready s)" and "length (arena_slots jobs) < 2 ^ 32 - 1"
    and "snd ` ready_ids (sc_ready s) \<subseteq> dom (arena_get jobs)" and "arena_get jobs i \<noteq> None"
  shows "\<exists>r. enqueue s i j now config = Some (s\<lparr>sc_ready := r\<rparr>) \<and> ready_inv r
     \<and> ready_ids r = insert (priority_class j, i) (ready_ids (sc_ready s))"
proof -
  from ready_insert_ids [OF assms, of "priority_class j" "job_score s j now config"] obtain r where
    "ready_insert (sc_ready s) (priority_class j) i (job_score s j now config) = Some r" "ready_inv r"
    "ready_ids r = insert (priority_class j, i) (ready_ids (sc_ready s))" by blast
  then show ?thesis by (intro exI [of _ r]) (simp add: enqueue_def)
qed

lemma withdraw_spec:
  assumes "ready_inv (sc_ready s)"
  shows "\<exists>r. withdraw s c i = Some (s\<lparr>sc_ready := r\<rparr>, (c, i) \<in> ready_ids (sc_ready s)) \<and> ready_inv r
     \<and> ready_ids r = ready_ids (sc_ready s) - {(c, i)}"
  using ready_remove_ids [OF assms, of c i] by (auto simp: withdraw_def)

end
