(* ===== verification/Scheduler_Ops.thy ===== *)
theory Scheduler_Ops
  imports Scheduler_Inv
begin

text \<open>
  Every lifecycle call returns, keeps the scheduler's invariant, and changes the jobs as it says.
\<close>

section \<open>Shared steps\<close>

lemma try_transition_ok:
  "can_transition_to (state j) st \<Longrightarrow> try_transition j st = Inr (j\<lparr>state := st\<rparr>)"
  by (simp add: try_transition_def)

lemma try_transition_bad:
  "\<not> can_transition_to (state j) st \<Longrightarrow> try_transition j st = Inl (TransitionError (state j) st)"
  by (simp add: try_transition_def)

lemma arena_put_put:
  assumes "arena_get jobs i = Some j"
  shows "arena_put (arena_put jobs i a) i b = arena_put jobs i b"
proof -
  have "arena_get (arena_put jobs i a) i = Some a" using arena_put_get [OF assms] by simp
  then show ?thesis using assms by (simp add: arena_put_live)
qed

lemma not_waiting:
  assumes "arena_get jobs i = Some j" and "state j \<noteq> Ready"
  shows "(c, i) \<notin> waiting_ids jobs"
  using assms by (auto simp: waiting_ids_def)

lemma waiting_put_other:
  assumes "arena_get jobs i = Some j" and "state j \<noteq> Ready" and "state j' \<noteq> Ready"
    and "priority_class j' = priority_class j"
  shows "waiting_ids (arena_put jobs i j') = waiting_ids jobs"
  using waiting_put [OF assms(1,4)] not_waiting [OF assms(1,2)] assms(3) by auto

lemma ready_update_same: "ready_ids r = ready_ids (sc_ready s) \<Longrightarrow> ready_inv r \<Longrightarrow> sched_inv s jobs
    \<Longrightarrow> sched_inv (s\<lparr>sc_ready := r\<rparr>) jobs"
  by (simp add: sched_inv_def)

section \<open>Moves between active states\<close>

lemma restore_running_spec:
  assumes inv: "sched_inv s jobs"
  shows "\<exists>s' jobs' r. restore_running s i jobs now config = Some (s', jobs', r) \<and> sched_inv s' jobs'
     \<and> (case arena_get jobs i of
          None \<Rightarrow> r = Inl (UnknownJob i) \<and> jobs' = jobs
        | Some j \<Rightarrow> if state j = Ready then r = Inr () \<and> jobs' = arena_put jobs i (j\<lparr>state := Running\<rparr>)
                    else r = Inl (Transition (TransitionError (state j) Running)) \<and> jobs' = jobs)"
proof (cases "arena_get jobs i")
  case None
  with inv show ?thesis by (simp add: restore_running_def)
next
  case (Some j)
  note I = sched_invD [OF inv]
  from withdraw_spec [OF I(2), of "priority_class j" i] obtain r where
    w: "withdraw s (priority_class j) i
        = Some (s\<lparr>sc_ready := r\<rparr>, (priority_class j, i) \<in> ready_ids (sc_ready s))" "ready_inv r"
      "ready_ids r = waiting_ids jobs - {(priority_class j, i)}" using I(3) by auto
  show ?thesis
  proof (cases "state j = Ready")
    case False
    then have "\<not> can_transition_to (state j) Running" by (cases "state j") simp_all
    moreover have "ready_ids r = ready_ids (sc_ready s)" using not_waiting [OF Some False] w(3) I(3) by auto
    ultimately show ?thesis
      using Some w False ready_update_same [OF _ w(2) inv]
      by (simp add: restore_running_def try_transition_bad)
  next
    case True
    let ?j = "j\<lparr>state := Running\<rparr>"
    let ?fs = "on_dispatch (sc_fairshare s) (account j) (cpu_millis (request j)) now (cc_fairshare config)"
    have "jobs_ok (arena_put jobs i ?j) (sc_deps s) ?fs"
      by (intro jobs_ok_fs [OF jobs_ok_put [OF I(1) Some]] on_dispatch_wf)
        (simp_all add: ledgers_dispatch jobs_okD(3) [OF I(1)] True)
    moreover have "cpu_exact ?fs (arena_put jobs i ?j)"
      by (rule cpu_exact_dispatch [OF I(5) Some jobs_okD(2) [OF I(1)]]) (simp_all add: job_cpu_def True)
    moreover have "waiting_ids (arena_put jobs i ?j) = ready_ids r" using waiting_put [OF Some] w(3) by simp
    moreover have "dep_view (arena_put jobs i ?j) = dep_view jobs"
      by (rule dep_view_put_same [OF Some]) (simp_all add: True)
    ultimately show ?thesis
      using Some w True I(4) by (simp add: restore_running_def try_transition_ok sched_inv_def)
  qed
qed

lemma sched_preempt_spec:
  assumes inv: "sched_inv s jobs"
  shows "\<exists>jobs' r. sched_preempt s i jobs = Some (s, jobs', r) \<and> sched_inv s jobs'
     \<and> (case arena_get jobs i of
          None \<Rightarrow> r = Inl (UnknownJob i) \<and> jobs' = jobs
        | Some j \<Rightarrow> if state j = Running then r = Inr () \<and> jobs' = arena_put jobs i (j\<lparr>state := Preempted\<rparr>)
                    else r = Inl (Transition (TransitionError (state j) Preempted)) \<and> jobs' = jobs)"
proof (cases "arena_get jobs i")
  case None
  with inv show ?thesis by (simp add: sched_preempt_def)
next
  case (Some j)
  note I = sched_invD [OF inv]
  show ?thesis
  proof (cases "state j = Running")
    case False
    then have "\<not> can_transition_to (state j) Preempted" by (cases "state j") simp_all
    with Some False inv show ?thesis by (simp add: sched_preempt_def try_transition_bad)
  next
    case True
    let ?j = "j\<lparr>state := Preempted\<rparr>"
    have "jobs_ok (arena_put jobs i ?j) (sc_deps s) (sc_fairshare s)"
      by (rule jobs_ok_put [OF I(1) Some]) (simp_all add: True)
    moreover have "cpu_exact (sc_fairshare s) (arena_put jobs i ?j)"
      by (rule cpu_exact_put [OF I(5) Some]) (simp add: job_cpu_def True)
    moreover have "waiting_ids (arena_put jobs i ?j) = waiting_ids jobs"
      by (rule waiting_put_other [OF Some]) (simp_all add: True)
    moreover have "dep_view (arena_put jobs i ?j) = dep_view jobs"
      by (rule dep_view_put_same [OF Some]) (simp_all add: True)
    ultimately show ?thesis
      using Some True I by (simp add: sched_preempt_def try_transition_ok sched_inv_def)
  qed
qed

text \<open>
  A job that holds its cpu goes back to \<open>Ready\<close>: its account is released and it is queued again.
\<close>

lemma release_and_enqueue:
  assumes inv: "sched_inv s jobs" and j: "arena_get jobs i = Some j"
    and st: "state j = Running \<or> state j = Preempted"
  shows "\<exists>s'. enqueue (sched_release s (j\<lparr>state := Ready\<rparr>) now config) i (j\<lparr>state := Ready\<rparr>) now config = Some s'
     \<and> sched_inv s' (arena_put jobs i (j\<lparr>state := Ready\<rparr>))"
proof -
  note I = sched_invD [OF inv]
  let ?j = "j\<lparr>state := Ready\<rparr>" and ?s = "sched_release s (j\<lparr>state := Ready\<rparr>) now config"
  let ?jobs = "arena_put jobs i (j\<lparr>state := Ready\<rparr>)"
  have s: "sc_ready ?s = sc_ready s" "sc_deps ?s = sc_deps s" "sc_fairshare ?s = on_release (sc_fairshare s)
      (account j) (cpu_millis (request j)) now (cc_fairshare config)" by (simp_all add: sched_release_def)
  have len: "length (arena_slots ?jobs) < 2 ^ 32 - 1" using jobs_okD(2) [OF I(1)] by (simp add: arena_put_slots)
  have "snd ` ready_ids (sc_ready ?s) \<subseteq> dom (arena_get ?jobs)"
    using waiting_live [of jobs] by (simp add: s I(3) arena_put_dom)
  moreover have "arena_get ?jobs i \<noteq> None" using arena_put_get [OF j] by simp
  ultimately obtain r where r: "enqueue ?s i ?j now config = Some (?s\<lparr>sc_ready := r\<rparr>)" "ready_inv r"
    "ready_ids r = insert (priority_class j, i) (waiting_ids jobs)"
    using enqueue_spec [of ?s ?jobs i ?j now config] I(2,3) len by (auto simp: s)
  have "jobs_ok ?jobs (sc_deps s) (sc_fairshare ?s)"
    unfolding s by (intro jobs_ok_fs [OF jobs_ok_put [OF I(1) j]] on_release_wf)
      (use st in \<open>auto simp: ledgers_release jobs_okD(3) [OF I(1)]\<close>)
  moreover have "cpu_exact (sc_fairshare ?s) ?jobs"
    unfolding s by (rule cpu_exact_release [OF I(5) j]) (use st in \<open>auto simp: job_cpu_def\<close>)
  moreover have "waiting_ids ?jobs = ready_ids r"
    using waiting_put [OF j, of ?j] not_waiting [OF j] st r(3) by auto
  moreover have "dep_view ?jobs = dep_view jobs" by (rule dep_view_put_same [OF j]) (use st in auto)
  ultimately have "sched_inv (?s\<lparr>sc_ready := r\<rparr>) ?jobs"
    using r(2) I(4) by (simp add: sched_inv_def s)
  with r(1) show ?thesis by blast
qed

lemma requeue_spec:
  assumes inv: "sched_inv s jobs" and nb: "\<And>j. arena_get jobs i = Some j \<Longrightarrow> state j \<noteq> Blocked"
  shows "\<exists>s' jobs' r. requeue s i jobs now config = Some (s', jobs', r) \<and> sched_inv s' jobs'
     \<and> (case arena_get jobs i of
          None \<Rightarrow> r = Inl (UnknownJob i) \<and> jobs' = jobs
        | Some j \<Rightarrow> if state j = Running \<or> state j = Preempted
                    then r = Inr () \<and> jobs' = arena_put jobs i (j\<lparr>state := Ready\<rparr>)
                    else r = Inl (Transition (TransitionError (state j) Ready)) \<and> jobs' = jobs)"
proof (cases "arena_get jobs i")
  case None
  with inv show ?thesis by (simp add: requeue_def)
next
  case (Some j)
  have same: "arena_put jobs i j = jobs"
    unfolding arena_put_live [OF Some] using Some by (metis arena_get_alt arena.surjective arena.update_convs(1)
        list_update_id)
  show ?thesis
  proof (cases "state j = Running \<or> state j = Preempted")
    case False
    moreover have "\<not> can_transition_to (state j) Ready"
      using False nb [OF Some] jobs_okD(5) [OF sched_invD(1) [OF inv] Some] by (cases "state j") simp_all
    ultimately show ?thesis using Some inv by (simp add: requeue_def try_transition_bad same)
  next
    case True
    from release_and_enqueue [OF inv Some True, of now config] obtain s' where
      "enqueue (sched_release s (j\<lparr>state := Ready\<rparr>) now config) i (j\<lparr>state := Ready\<rparr>) now config = Some s'"
      "sched_inv s' (arena_put jobs i (j\<lparr>state := Ready\<rparr>))" by blast
    with Some True same arena_put_put [OF Some] show ?thesis
      by (elim disjE) (simp_all add: requeue_def try_transition_def)
  qed
qed

lemma on_preempted_spec:
  assumes inv: "sched_inv s jobs"
  shows "\<exists>s' jobs' r. on_preempted s i jobs now config = Some (s', jobs', r) \<and> sched_inv s' jobs'
     \<and> (case arena_get jobs i of
          None \<Rightarrow> r = Inl (UnknownJob i) \<and> jobs' = jobs
        | Some j \<Rightarrow> if state j = Preempted
                    then r = Inr () \<and> jobs' = arena_put jobs i
                      (j\<lparr>preemptions := saturating_add (preemptions j) 1, state := Ready\<rparr>)
                    else r = Inl (Transition (TransitionError (state j) Ready)) \<and> jobs' = jobs)"
proof (cases "arena_get jobs i")
  case None
  with inv show ?thesis by (simp add: on_preempted_def)
next
  case (Some j)
  note I = sched_invD [OF inv]
  show ?thesis
  proof (cases "state j = Preempted")
    case False
    with Some inv show ?thesis by (simp add: on_preempted_def)
  next
    case True
    let ?j = "j\<lparr>preemptions := saturating_add (preemptions j) 1\<rparr>" and ?jobs = "arena_put jobs i
      (j\<lparr>preemptions := saturating_add (preemptions j) 1\<rparr>)"
    have get: "arena_get ?jobs i = Some ?j" using arena_put_get [OF Some] by simp
    have "jobs_ok ?jobs (sc_deps s) (sc_fairshare s)" by (rule jobs_ok_put [OF I(1) Some]) (simp_all add: True)
    moreover have "cpu_exact (sc_fairshare s) ?jobs"
      by (rule cpu_exact_put [OF I(5) Some]) (simp add: job_cpu_def True)
    moreover have "waiting_ids ?jobs = waiting_ids jobs"
      by (rule waiting_put_other [OF Some]) (simp_all add: True)
    moreover have "dep_view ?jobs = dep_view jobs"
      by (rule dep_view_put_same [OF Some]) simp_all
    ultimately have inv': "sched_inv s ?jobs" using I by (simp add: sched_inv_def)
    have nb: "state j' \<noteq> Blocked" if "arena_get ?jobs i = Some j'" for j'
      using that get True by auto
    from requeue_spec [OF inv', of i now config, OF nb] get True Some arena_put_put [OF Some, of ?j]
    show ?thesis by (auto simp: on_preempted_def)
  qed
qed

section \<open>Completion\<close>

definition restated :: "job_state \<Rightarrow> job_id set \<Rightarrow> job arena \<Rightarrow> job arena \<Rightarrow> bool" where
  "restated st S jobs jobs' \<longleftrightarrow> (\<forall>x. arena_get jobs' x =
     (if x \<in> S then map_option (\<lambda>j. j\<lparr>state := st\<rparr>) (arena_get jobs x) else arena_get jobs x))"

lemma restated_insert:
  assumes "restated st S (arena_put jobs i (j\<lparr>state := st\<rparr>)) jobs'" and "arena_get jobs i = Some j"
    and "i \<notin> S"
  shows "restated st (insert i S) jobs jobs'"
  using assms by (auto simp: restated_def arena_put_get)

text \<open>What the loops over promoted and cancelled jobs keep.\<close>

definition rest_inv :: "scheduler \<Rightarrow> job arena \<Rightarrow> bool" where
  "rest_inv s jobs \<longleftrightarrow> jobs_ok jobs (sc_deps s) (sc_fairshare s) \<and> ready_inv (sc_ready s)
     \<and> ready_ids (sc_ready s) = waiting_ids jobs \<and> cpu_exact (sc_fairshare s) jobs"

lemma sched_inv_rest: "sched_inv s jobs \<longleftrightarrow> rest_inv s jobs \<and> graph_inv (dep_view jobs) (sc_deps s)"
  by (auto simp: sched_inv_def rest_inv_def)

lemma rest_inv_put:
  assumes inv: "rest_inv s jobs" and j: "arena_get jobs i = Some j" and st: "state j = Blocked" "st \<noteq> Submitted"
    and r: "ready_inv r" "ready_ids r = waiting_ids (arena_put jobs i (j\<lparr>state := st\<rparr>))"
    and nh: "st \<noteq> Running" "st \<noteq> Preempted"
  shows "rest_inv (s\<lparr>sc_ready := r\<rparr>) (arena_put jobs i (j\<lparr>state := st\<rparr>))"
proof -
  note I = inv [unfolded rest_inv_def]
  have "jobs_ok (arena_put jobs i (j\<lparr>state := st\<rparr>)) (sc_deps s) (sc_fairshare s)"
    by (rule jobs_ok_put [OF _ j]) (use I st in simp_all)
  moreover have "cpu_exact (sc_fairshare s) (arena_put jobs i (j\<lparr>state := st\<rparr>))"
    by (rule cpu_exact_put [OF _ j]) (use I st(1) nh in \<open>simp_all add: job_cpu_def\<close>)
  ultimately show ?thesis using r by (simp add: rest_inv_def)
qed

lemma promote_loop_spec:
  assumes "distinct xs" and "\<forall>x\<in>set xs. \<exists>j. arena_get jobs x = Some j \<and> state j = Blocked"
    and "rest_inv s jobs"
  shows "\<exists>r jobs'. promote_loop xs s jobs now config = Some (s\<lparr>sc_ready := r\<rparr>, jobs')
     \<and> rest_inv (s\<lparr>sc_ready := r\<rparr>) jobs' \<and> restated Ready (set xs) jobs jobs'"
  using assms
proof (induction xs arbitrary: s jobs)
  case Nil
  then show ?case by (intro exI [of _ "sc_ready s"] exI [of _ jobs]) (simp add: restated_def)
next
  case (Cons x xs)
  then obtain j where j: "arena_get jobs x = Some j" "state j = Blocked" by auto
  note I = Cons.prems(3) [unfolded rest_inv_def]
  let ?j = "j\<lparr>state := Ready\<rparr>" and ?jobs = "arena_put jobs x (j\<lparr>state := Ready\<rparr>)"
  have "snd ` ready_ids (sc_ready s) \<subseteq> dom (arena_get jobs)" using I waiting_live [of jobs] by simp
  then obtain r where r: "enqueue s x ?j now config = Some (s\<lparr>sc_ready := r\<rparr>)" "ready_inv r"
    "ready_ids r = insert (priority_class j, x) (waiting_ids jobs)"
    using enqueue_spec [of s jobs x ?j now config] I jobs_okD(2) j(1) by fastforce
  have "ready_ids r = waiting_ids ?jobs"
    using waiting_put [OF j(1), of ?j] not_waiting [OF j(1)] j(2) r(3) by auto
  from rest_inv_put [OF Cons.prems(3) j _ r(2) this] have inv: "rest_inv (s\<lparr>sc_ready := r\<rparr>) ?jobs" by simp
  have "\<forall>y\<in>set xs. \<exists>j. arena_get ?jobs y = Some j \<and> state j = Blocked"
    using Cons.prems(1,2) by (auto simp: arena_put_get [OF j(1)])
  from Cons.IH [OF _ this inv] Cons.prems(1) obtain r' jobs' where
    "promote_loop xs (s\<lparr>sc_ready := r\<rparr>) ?jobs now config = Some (s\<lparr>sc_ready := r'\<rparr>, jobs')"
    "rest_inv (s\<lparr>sc_ready := r'\<rparr>) jobs'" "restated Ready (set xs) ?jobs jobs'" by auto
  with r(1) j Cons.prems(1) restated_insert [OF _ j(1), of Ready "set xs" jobs'] show ?case
    by (intro exI [of _ r'] exI [of _ jobs']) (simp add: try_transition_ok)
qed


lemma open_pending:
  assumes "jobs_ok jobs t fs"
  shows "open_job (dep_view jobs) d \<longleftrightarrow> dep_pending jobs d"
proof (cases "arena_get jobs d")
  case (Some j)
  with jobs_okD(5) [OF assms Some] show ?thesis
    by (cases "state j") (simp_all add: open_job_def dep_view_def dep_pending_def)
qed (simp add: open_job_def dep_view_def dep_pending_def)

lemma view_Waiting:
  "dep_view jobs x = Some (Waiting, ds) \<longleftrightarrow> (\<exists>k. arena_get jobs x = Some k \<and> state k = Blocked \<and> deps k = ds)"
proof -
  have "phase_of st = Waiting \<longleftrightarrow> st = Blocked" for st by (cases st) simp_all
  then show ?thesis by (auto simp: dep_view_def)
qed

lemma rest_inv_tracker:
  assumes "rest_inv s jobs" and "\<forall>d. set (tr_deps t' d) \<subseteq> set (tr_deps (sc_deps s) d)"
  shows "rest_inv (s\<lparr>sc_deps := t'\<rparr>) jobs"
  using assms jobs_ok_tracker by (auto simp: rest_inv_def)

text \<open>A job that holds its cpu ends: its account is released.\<close>

lemma rest_inv_release:
  assumes inv: "sched_inv s jobs" and j: "arena_get jobs i = Some j"
    and st: "state j = Running \<or> state j = Preempted" "is_terminal st"
  shows "rest_inv (sched_release s (j\<lparr>state := st\<rparr>) now config) (arena_put jobs i (j\<lparr>state := st\<rparr>))"
proof -
  note I = sched_invD [OF inv]
  have nst: "st \<noteq> Submitted" "st \<noteq> Running" "st \<noteq> Preempted" "st \<noteq> Ready" using st(2) by auto
  let ?jobs = "arena_put jobs i (j\<lparr>state := st\<rparr>)"
  let ?fs = "on_release (sc_fairshare s) (account j) (cpu_millis (request j)) now (cc_fairshare config)"
  have "jobs_ok ?jobs (sc_deps s) ?fs"
    by (intro jobs_ok_fs [OF jobs_ok_put [OF I(1) j]] on_release_wf)
      (use st in \<open>auto simp: ledgers_release jobs_okD(3) [OF I(1)] nst\<close>)
  moreover have "cpu_exact ?fs ?jobs"
    by (rule cpu_exact_release [OF I(5) j]) (use st nst in \<open>auto simp: job_cpu_def\<close>)
  moreover have "waiting_ids ?jobs = waiting_ids jobs"
    by (rule waiting_put_other [OF j]) (use st nst in auto)
  ultimately show ?thesis using I(2,3) by (simp add: rest_inv_def sched_release_def)
qed

lemma sched_on_completed_spec:
  assumes inv: "sched_inv s jobs" and j: "arena_get jobs i = Some j"
    and st: "state j = Running \<or> state j = Preempted"
  shows "\<exists>s' jobs' out. sched_on_completed s i jobs now config = Some (s', jobs', Inr out)
     \<and> sched_inv s' jobs' \<and> distinct out
     \<and> set out = {x. \<exists>k. arena_get jobs x = Some k \<and> state k = Blocked
                       \<and> (\<forall>d\<in>set (deps k). dep_pending jobs d \<longrightarrow> d = i)}
     \<and> restated Ready (set out) (arena_put jobs i (j\<lparr>state := Completed\<rparr>)) jobs'"
proof -
  note I = sched_invD [OF inv]
  let ?j = "j\<lparr>state := Completed\<rparr>" and ?jobs = "arena_put jobs i (j\<lparr>state := Completed\<rparr>)"
  let ?s = "sched_release s (j\<lparr>state := Completed\<rparr>) now config"
  have deps_s: "sc_deps ?s = sc_deps s" by (simp add: sched_release_def)
  have "dep_view jobs i = Some (Active, deps j)" using j st by (auto simp: dep_view_def)
  from graph_complete [OF I(4) this, of "[]"] obtain t' out where
    g: "deps_on_completed (sc_deps s) i [] = Some (t', out)" "distinct out" "i \<notin> set out"
      "set out = {x. \<exists>ds. dep_view jobs x = Some (Waiting, ds) \<and> (\<forall>d\<in>set ds. open_job (dep_view jobs) d \<longrightarrow> d = i)}"
      "graph_inv (complete_view (dep_view jobs) i (set out)) t'"
      "\<forall>d. set (tr_deps t' d) \<subseteq> set (tr_deps (sc_deps s) d)"
    by auto
  have "rest_inv ?s ?jobs" by (rule rest_inv_release [OF inv j st]) simp
  then have rest: "rest_inv (?s\<lparr>sc_deps := t'\<rparr>) ?jobs" by (rule rest_inv_tracker) (simp add: deps_s g(6))
  have out: "set out = {x. \<exists>k. arena_get jobs x = Some k \<and> state k = Blocked
      \<and> (\<forall>d\<in>set (deps k). dep_pending jobs d \<longrightarrow> d = i)}"
    unfolding g(4) view_Waiting open_pending [OF I(1)] by auto
  then have "\<forall>x\<in>set out. \<exists>k. arena_get ?jobs x = Some k \<and> state k = Blocked"
    using st j by (auto simp: arena_put_get [OF j])
  from promote_loop_spec [OF g(2) this rest, of now config] obtain r jobs' where
    p: "promote_loop out (?s\<lparr>sc_deps := t'\<rparr>) ?jobs now config = Some (?s\<lparr>sc_deps := t', sc_ready := r\<rparr>, jobs')"
      "rest_inv (?s\<lparr>sc_deps := t', sc_ready := r\<rparr>) jobs'" "restated Ready (set out) ?jobs jobs'" by blast
  have "dep_view jobs' = complete_view (dep_view jobs) i (set out)"
  proof
    fix x show "dep_view jobs' x = complete_view (dep_view jobs) i (set out) x"
      using p(3) j g(3) unfolding restated_def
      by (cases "arena_get jobs x") (auto simp: dep_view_def complete_view_def arena_put_get [OF j])
  qed
  with p(2) g(5) have "sched_inv (?s\<lparr>sc_deps := t', sc_ready := r\<rparr>) jobs'" by (simp add: sched_inv_rest)
  moreover have "can_transition_to (state j) Completed" using st by auto
  then have "sched_on_completed s i jobs now config = Some (?s\<lparr>sc_deps := t', sc_ready := r\<rparr>, jobs', Inr out)"
    using j g(1) p(1) by (simp add: sched_on_completed_def try_transition_ok Let_def deps_s)
  ultimately show ?thesis using g(2) out p(3) by blast
qed

section \<open>Failure and cancellation\<close>

lemma apply_cascade_spec:
  assumes "distinct xs" and "\<forall>x\<in>set xs. \<exists>j. arena_get jobs x = Some j \<and> state j = Blocked"
    and "rest_inv s jobs"
  shows "\<exists>jobs'. apply_cascade xs s jobs = Some (s, jobs') \<and> rest_inv s jobs'
     \<and> restated Cancelled (set xs) jobs jobs'"
  using assms
proof (induction xs arbitrary: jobs)
  case Nil
  then show ?case by (intro exI [of _ jobs]) (simp add: restated_def)
next
  case (Cons x xs)
  then obtain j where j: "arena_get jobs x = Some j" "state j = Blocked" by auto
  note I = Cons.prems(3) [unfolded rest_inv_def]
  let ?j = "j\<lparr>state := Cancelled\<rparr>" and ?jobs = "arena_put jobs x (j\<lparr>state := Cancelled\<rparr>)"
  have "waiting_ids ?jobs = waiting_ids jobs" by (rule waiting_put_other [OF j(1)]) (simp_all add: j(2))
  with I have "ready_ids (sc_ready s) = waiting_ids ?jobs" by simp
  from rest_inv_put [OF Cons.prems(3) j _ _ this] I have inv: "rest_inv s ?jobs" by simp
  have "\<forall>y\<in>set xs. \<exists>j. arena_get ?jobs y = Some j \<and> state j = Blocked"
    using Cons.prems(1,2) by (auto simp: arena_put_get [OF j(1)])
  from Cons.IH [OF _ this inv] Cons.prems(1) obtain jobs' where
    "apply_cascade xs s ?jobs = Some (s, jobs')" "rest_inv s jobs'" "restated Cancelled (set xs) ?jobs jobs'"
    by auto
  with j Cons.prems(1) restated_insert [OF _ j(1), of Cancelled "set xs" jobs'] show ?case
    by (intro exI [of _ jobs']) (simp add: try_transition_ok)
qed

text \<open>The dependency relation between the open jobs of an arena.\<close>

definition waits_on :: "job arena \<Rightarrow> (job_id \<times> job_id) set" where
  "waits_on jobs = {(a, b). dep_pending jobs a \<and> dep_pending jobs b
     \<and> (\<exists>k. arena_get jobs b = Some k \<and> a \<in> set (deps k))}"

lemma dep_rel_waits_on:
  assumes "jobs_ok jobs t fs" and inv: "graph_inv (dep_view jobs) t"
  shows "dep_rel t = waits_on jobs"
proof -
  note D = graph_invD [OF inv]
  have trk: "is_tracked t x \<longleftrightarrow> dep_pending jobs x" for x by (simp add: D(2) open_pending [OF assms(1)])
  have "b \<in> set (tr_deps t a) \<longleftrightarrow> a \<in> set (deps k)"
    if "is_tracked t a" "is_tracked t b" "arena_get jobs b = Some k" for a b k
    using D(3) [OF that(1,2), of "phase_of (state k)" "deps k"] that(3)
    by (simp add: dep_view_def) (metis count_list_pos)
  moreover have "is_tracked t a" if "b \<in> set (tr_deps t a)" for a b
    using that by (auto simp: tr_deps_def split: if_splits)
  ultimately show ?thesis
    by (fastforce simp: dep_rel_def waits_on_def trk dep_pending_def split: option.splits)
qed

lemma cascade_from_spec:
  assumes inv: "sched_inv s0 jobs" and j: "arena_get jobs i = Some j" "\<not> is_terminal (state j)"
    and st: "st = Failed \<or> st = Cancelled" and s: "sc_deps s = sc_deps s0"
    and rest: "rest_inv s (arena_put jobs i (j\<lparr>state := st\<rparr>))"
  shows "\<exists>s' jobs' out. cascade_from s i (arena_put jobs i (j\<lparr>state := st\<rparr>)) = Some (s', jobs', Inr out)
     \<and> sched_inv s' jobs' \<and> distinct out \<and> set out = {x. x \<noteq> i \<and> (i, x) \<in> (waits_on jobs)\<^sup>*}
     \<and> restated Cancelled (set out) (arena_put jobs i (j\<lparr>state := st\<rparr>)) jobs'"
proof -
  note I = sched_invD [OF inv]
  let ?jobs = "arena_put jobs i (j\<lparr>state := st\<rparr>)"
  have "open_job (dep_view jobs) i" using j by (simp add: open_pending [OF I(1)] dep_pending_def)
  from graph_terminate [OF I(4) this, of "[]"] obtain t' out where
    g: "on_terminated (sc_deps s0) i [] = Some (t', out)" "distinct out" "i \<notin> set out"
      "set out = {x. x \<noteq> i \<and> (i, x) \<in> (dep_rel (sc_deps s0))\<^sup>*}"
      "\<forall>x\<in>set out. \<exists>ds. dep_view jobs x = Some (Waiting, ds)"
      "graph_inv (doomed_view (dep_view jobs) (insert i (set out))) t'"
      "\<forall>d. set (tr_deps t' d) \<subseteq> set (tr_deps (sc_deps s0) d)"
    by auto
  from rest have rest': "rest_inv (s\<lparr>sc_deps := t'\<rparr>) ?jobs" by (rule rest_inv_tracker) (simp add: s g(7))
  have "\<forall>x\<in>set out. \<exists>k. arena_get ?jobs x = Some k \<and> state k = Blocked"
    using g(3,5) by (auto simp: view_Waiting arena_put_get [OF j(1)])
  from apply_cascade_spec [OF g(2) this rest'] obtain jobs' where
    c: "apply_cascade out (s\<lparr>sc_deps := t'\<rparr>) ?jobs = Some (s\<lparr>sc_deps := t'\<rparr>, jobs')"
      "rest_inv (s\<lparr>sc_deps := t'\<rparr>) jobs'" "restated Cancelled (set out) ?jobs jobs'" by blast
  have "dep_view jobs' = doomed_view (dep_view jobs) (insert i (set out))"
  proof
    fix x show "dep_view jobs' x = doomed_view (dep_view jobs) (insert i (set out)) x"
      using c(3) j g(3) st unfolding restated_def
      by (cases "arena_get jobs x") (auto simp: dep_view_def doomed_view_def arena_put_get [OF j(1)])
  qed
  with c(2) g(6) have "sched_inv (s\<lparr>sc_deps := t'\<rparr>) jobs'" by (simp add: sched_inv_rest)
  moreover have "cascade_from s i ?jobs = Some (s\<lparr>sc_deps := t'\<rparr>, jobs', Inr out)"
    using g(1) c(1) by (simp add: cascade_from_def s)
  moreover have "set out = {x. x \<noteq> i \<and> (i, x) \<in> (waits_on jobs)\<^sup>*}"
    using g(4) dep_rel_waits_on [OF I(1,4)] by simp
  ultimately show ?thesis using g(2) c(3) by blast
qed


lemma on_failed_spec:
  assumes inv: "sched_inv s jobs" and j: "arena_get jobs i = Some j"
    and st: "state j = Running \<or> state j = Preempted"
  shows "\<exists>s' jobs' out. on_failed s i jobs now config = Some (s', jobs', Inr out)
     \<and> sched_inv s' jobs' \<and> distinct out \<and> set out = {x. x \<noteq> i \<and> (i, x) \<in> (waits_on jobs)\<^sup>*}
     \<and> restated Cancelled (set out) (arena_put jobs i (j\<lparr>state := Failed\<rparr>)) jobs'"
proof -
  have eq: "on_failed s i jobs now config = cascade_from (sched_release s (j\<lparr>state := Failed\<rparr>) now config) i
      (arena_put jobs i (j\<lparr>state := Failed\<rparr>))"
    using j st by (auto simp: on_failed_def try_transition_def)
  show ?thesis
    unfolding eq
    by (rule cascade_from_spec [OF inv j]) (use st rest_inv_release [OF inv j st] in \<open>auto simp: sched_release_def\<close>)
qed

lemma cancel_spec:
  assumes inv: "sched_inv s jobs" and j: "arena_get jobs i = Some j" and nt: "\<not> is_terminal (state j)"
  shows "\<exists>s' jobs' out. cancel s i jobs now config = Some (s', jobs', Inr out)
     \<and> sched_inv s' jobs' \<and> distinct out \<and> set out = {x. x \<noteq> i \<and> (i, x) \<in> (waits_on jobs)\<^sup>*}
     \<and> restated Cancelled (set out) (arena_put jobs i (j\<lparr>state := Cancelled\<rparr>)) jobs'"
proof -
  note I = sched_invD [OF inv]
  let ?jobs = "arena_put jobs i (j\<lparr>state := Cancelled\<rparr>)"
  have tr: "try_transition j Cancelled = Inr (j\<lparr>state := Cancelled\<rparr>)"
    using nt by (cases "state j") (simp_all add: try_transition_def)
  have ok: "jobs_ok ?jobs (sc_deps s) (sc_fairshare s)" by (rule jobs_ok_put [OF I(1) j nt]) simp_all
  have wait: "waiting_ids ?jobs = waiting_ids jobs - {(priority_class j, i)}" using waiting_put [OF j] by simp
  consider (ready) "state j = Ready" | (held) "state j = Running \<or> state j = Preempted"
    | (blocked) "state j = Blocked"
    using nt jobs_okD(5) [OF I(1) j] by (cases "state j") auto
  then show ?thesis
  proof cases
    case ready
    from withdraw_spec [OF I(2), of "priority_class j" i] obtain r where
      r: "withdraw s (priority_class j) i
          = Some (s\<lparr>sc_ready := r\<rparr>, (priority_class j, i) \<in> ready_ids (sc_ready s))" "ready_inv r"
        "ready_ids r = ready_ids (sc_ready s) - {(priority_class j, i)}" by auto
    have eq: "cancel s i jobs now config = cascade_from (s\<lparr>sc_ready := r\<rparr>) i ?jobs"
      using j ready r(1) tr by (simp add: cancel_def)
    have "cpu_exact (sc_fairshare s) ?jobs" by (rule cpu_exact_put [OF I(5) j]) (simp add: job_cpu_def ready)
    with ok r wait I(3) have "rest_inv (s\<lparr>sc_ready := r\<rparr>) ?jobs" by (simp add: rest_inv_def)
    from cascade_from_spec [OF inv j nt _ _ this] show ?thesis unfolding eq by simp
  next
    case held
    then have eq: "cancel s i jobs now config
        = cascade_from (sched_release s (j\<lparr>state := Cancelled\<rparr>) now config) i ?jobs"
      using j tr by (auto simp: cancel_def Let_def)
    show ?thesis
      unfolding eq by (rule cascade_from_spec [OF inv j nt])
        (use rest_inv_release [OF inv j held] in \<open>auto simp: sched_release_def\<close>)
  next
    case blocked
    then have eq: "cancel s i jobs now config = cascade_from s i ?jobs"
      using j tr by (simp add: cancel_def)
    have "cpu_exact (sc_fairshare s) ?jobs" by (rule cpu_exact_put [OF I(5) j]) (simp add: job_cpu_def blocked)
    with ok I(2,3) wait not_waiting [OF j] blocked have "rest_inv s ?jobs" by (simp add: rest_inv_def)
    from cascade_from_spec [OF inv j nt _ _ this] show ?thesis unfolding eq by simp
  qed
qed

text \<open>A call on a handle that is dead, or on a job in a state it cannot leave that way, changes nothing.\<close>

lemma lifecycle_errors:
  assumes inv: "sched_inv s jobs"
  shows "arena_get jobs i = None \<Longrightarrow> sched_on_completed s i jobs now config = Some (s, jobs, Inl (UnknownJob i))"
    and "arena_get jobs i = None \<Longrightarrow> on_failed s i jobs now config = Some (s, jobs, Inl (UnknownJob i))"
    and "arena_get jobs i = None \<Longrightarrow> cancel s i jobs now config = Some (s, jobs, Inl (UnknownJob i))"
    and "arena_get jobs i = Some j \<Longrightarrow> state j \<noteq> Running \<Longrightarrow> state j \<noteq> Preempted \<Longrightarrow>
      sched_on_completed s i jobs now config = Some (s, jobs, Inl (Transition (TransitionError (state j) Completed)))"
    and "arena_get jobs i = Some j \<Longrightarrow> state j \<noteq> Running \<Longrightarrow> state j \<noteq> Preempted \<Longrightarrow>
      on_failed s i jobs now config = Some (s, jobs, Inl (Transition (TransitionError (state j) Failed)))"
    and "arena_get jobs i = Some j \<Longrightarrow> is_terminal (state j) \<Longrightarrow>
      cancel s i jobs now config = Some (s, jobs, Inl (Transition (TransitionError (state j) Cancelled)))"
proof -
  show "arena_get jobs i = Some j \<Longrightarrow> state j \<noteq> Running \<Longrightarrow> state j \<noteq> Preempted \<Longrightarrow>
      sched_on_completed s i jobs now config = Some (s, jobs, Inl (Transition (TransitionError (state j) Completed)))"
    by (cases "state j") (simp_all add: sched_on_completed_def try_transition_def)
  show "arena_get jobs i = Some j \<Longrightarrow> state j \<noteq> Running \<Longrightarrow> state j \<noteq> Preempted \<Longrightarrow>
      on_failed s i jobs now config = Some (s, jobs, Inl (Transition (TransitionError (state j) Failed)))"
    by (cases "state j") (simp_all add: on_failed_def try_transition_def)
  show "arena_get jobs i = Some j \<Longrightarrow> is_terminal (state j) \<Longrightarrow>
      cancel s i jobs now config = Some (s, jobs, Inl (Transition (TransitionError (state j) Cancelled)))"
    by (cases "state j") (simp_all add: cancel_def try_transition_def)
qed (simp_all add: sched_on_completed_def on_failed_def cancel_def)

section \<open>Submission\<close>

lemma classify_insert:
  assumes "arena_get jobs' = (arena_get jobs)(i \<mapsto> j)"
  shows "classify i k jobs' = classify i k jobs"
proof -
  have "classify_loop i jobs' ds p = classify_loop i jobs ds p" for ds p
    by (induction ds arbitrary: p) (simp_all add: assms split: option.split job_state.split)
  then show ?thesis by (simp add: classify_def)
qed

lemma ensure_spec:
  assumes "jobs_ok jobs t fs" and "cpu_exact fs jobs" and "a < MAX_ACCOUNTS"
  shows "\<exists>fs'. fs_ensure fs a = Inr fs' \<and> jobs_ok jobs t fs' \<and> cpu_exact fs' jobs
     \<and> unat a < length (fs_ledgers fs')"
proof -
  note J = jobs_okD [OF assms(1)]
  from fs_ensure_total [OF assms(3)] obtain fs' where e: "fs_ensure fs a = Inr fs'" by blast
  let ?n = "length (fs_ledgers fs)"
  have led: "?n \<le> length (fs_ledgers fs')"
    "\<And>k. k < ?n \<Longrightarrow> fs_ledgers fs' ! k = fs_ledgers fs ! k"
    "\<And>k. ?n \<le> k \<Longrightarrow> k < length (fs_ledgers fs') \<Longrightarrow> fs_ledgers fs' ! k = ledger_default"
    using e by (auto simp: fs_ensure_def Let_def nth_vec_resize split: if_splits)
  have zero: "held_cpu jobs b = 0" if "?n \<le> unat b" for b :: account_id
  proof (rule held_zero)
    show "length (arena_slots jobs) \<le> 2 ^ 32" using J(2) by simp
    fix x k assume "arena_get jobs x = Some k"
    from J(7) [OF this] that show "job_cpu b k = 0" by (auto simp: job_cpu_def)
  qed
  have "cpu_exact fs' jobs"
    unfolding cpu_exact_def
  proof (intro allI impI)
    fix b :: account_id
    assume b: "unat b < length (fs_ledgers fs')"
    show "unat (lg_running_cpu (fs_ledgers fs' ! unat b)) = held_cpu jobs b"
      using assms(2) led(2) [of "unat b"] led(3) [OF _ b] zero [of b]
      by (cases "unat b < ?n") (simp_all add: cpu_exact_def ledger_default_def)
  qed
  moreover have "jobs_ok jobs t fs'"
    by (rule jobs_ok_fs [OF assms(1) fs_ensure_wf(1) [OF J(3) e] led(1)])
  ultimately show ?thesis using e fs_ensure_wf(2) [OF J(3) e] by blast
qed

lemma fresh_insert:
  assumes "sched_inv s jobs" and "arena_insert jobs j = Some (jobs', i)"
  shows "fresh_handle (dep_view jobs) (sc_deps s) i"
proof -
  note J = jobs_okD [OF sched_invD(1) [OF assms(1)]]
  have ni: "\<not> issued jobs i" by (rule insert_not_issued [OF assms(2)])
  have "i \<notin> set ds" if "open_job (dep_view jobs) x" "dep_view jobs x = Some (p, ds)" for x p ds
  proof -
    from that(2) obtain k where k: "arena_get jobs x = Some k" "ds = deps k" by (auto simp: dep_view_def)
    from that(1) have "\<not> is_terminal (state k)"
      using k by (cases "state k") (auto simp: open_job_def dep_view_def)
    with J(6) [OF k(1)] k(2) ni show ?thesis by auto
  qed
  moreover have "dep_view jobs i = None" using arena_insert_get(1) [OF J(1) assms(2)] by (simp add: dep_view_def)
  ultimately show ?thesis using J(4) ni by (auto simp: fresh_handle_def)
qed


lemma register_inserted:
  assumes inv: "sched_inv s jobs" and ins: "arena_insert jobs j = Some (jobs1, i)"
    and cl: "classify i j jobs = Inr rd" and n: "length (deps j) < 2 ^ 32"
    and len: "length (arena_slots jobs1) < 2 ^ 32 - 1"
  shows "\<exists>t. register (sc_deps s) i j jobs1 = Some (t, Inr rd)
     \<and> graph_inv ((dep_view jobs)(i \<mapsto> (phase_of (readiness_state rd), deps j))) t
     \<and> (\<forall>d. set (tr_deps t d) \<subseteq> insert i (set (tr_deps (sc_deps s) d)))
     \<and> (\<not> is_terminal (readiness_state rd) \<longrightarrow> (\<forall>d\<in>set (deps j). issued jobs d))"
proof -
  note I = sched_invD [OF inv]
  have get1: "arena_get jobs1 = (arena_get jobs)(i \<mapsto> j)"
    using arena_insert_get [OF jobs_okD(1) [OF I(1)] ins] by auto
  note fresh = fresh_insert [OF inv ins]
  from cl have cl1: "classify i j jobs1 = Inr rd" by (simp add: classify_insert [OF get1])
  show ?thesis
  proof (cases "rd = Readiness_Cancelled")
    case True
    with graph_doomed [OF I(4) fresh, of "deps j"] cl1 show ?thesis
      by (intro exI [of _ "sc_deps s"]) (auto simp: register_def)
  next
    case False
    let ?L = "dom (arena_get jobs1)"
    note acc = classify_loop_accepts [OF cl [unfolded classify_def] False, THEN conjunct1]
    have inj: "inj_on dep_ix ?L" using live_index_inj by (fastforce intro: inj_onI)
    have small: "dep_ix x < 2 ^ 32 - 1" if "x \<in> ?L" for x using that len by (auto simp: arena_get_alt)
    have trk: "is_tracked (sc_deps s) x \<longleftrightarrow> dep_pending jobs x" for x
      by (simp add: graph_invD(2) [OF I(4)] open_pending [OF I(1)])
    have "x \<in> ?L" if "is_tracked (sc_deps s) x" for x
      using that unfolding trk by (auto simp: dep_pending_def get1 split: option.splits)
    with small have L: "x \<in> ?L \<and> dep_ix x < 2 ^ 32 - 1" if "is_tracked (sc_deps s) x" for x using that by blast
    have pend: "dep_pending jobs1 d \<longleftrightarrow> is_tracked (sc_deps s) d" if "d \<in> set (deps j)" for d
      using that acc unfolding trk by (auto simp: dep_pending_def get1)
    have alive: "dep_view jobs d \<noteq> Some (Dead, ds)" if d: "d \<in> set (deps j)" for d ds
    proof -
      from acc d obtain k where "arena_get jobs d = Some k" "state k \<noteq> Failed" "state k \<noteq> Cancelled" by blast
      then show ?thesis by (cases "state k") (simp_all add: dep_view_def)
    qed
    have self: "i \<notin> set (deps j)" using acc by blast
    have iL: "i \<in> ?L" by (simp add: get1)
    have ph: "phase_of (readiness_state rd) = (if rd = Readiness_Ready then Active else Waiting)"
      using False by (cases rd) simp_all
    have iss: "\<forall>d\<in>set (deps j). issued jobs d" using acc by (auto dest: live_issued)
    have "\<exists>t. register (sc_deps s) i j jobs1 = Some (t, Inr rd)
        \<and> graph_inv ((dep_view jobs)(i \<mapsto> (if rd = Readiness_Ready then Active else Waiting, deps j))) t
        \<and> (\<forall>d. set (tr_deps t d) \<subseteq> insert i (set (tr_deps (sc_deps s) d)))"
      by (rule graph_register [where L = ?L])
        (fact I(4) fresh self small [OF iL] iL inj L pend alive cl1 False n)+
    with iss show ?thesis unfolding ph by blast
  qed
qed

lemma submit_spec:
  assumes inv: "sched_inv s jobs" and ins: "arena_insert jobs j = Some (jobs1, i)"
    and new: "state j = Submitted" and chk: "check_submit s i j jobs = Inr rd"
    and n: "length (deps j) < 2 ^ 32" and len: "length (arena_slots jobs1) < 2 ^ 32 - 1"
  shows "\<exists>s'. submit s i jobs1 now config
       = Some (s', arena_put jobs1 i (j\<lparr>state := readiness_state rd\<rparr>), Inr (readiness_state rd))
     \<and> sched_inv s' (arena_put jobs1 i (j\<lparr>state := readiness_state rd\<rparr>))"
proof -
  note I = sched_invD [OF inv] note J = jobs_okD [OF I(1)]
  let ?st = "readiness_state rd" let ?j = "j\<lparr>state := ?st\<rparr>" let ?jobs = "arena_put jobs1 i ?j"
  have get1: "arena_get jobs1 = (arena_get jobs)(i \<mapsto> j)" and wf1: "arena_wf jobs1"
    using arena_insert_get [OF J(1) ins] arena_insert_wf [OF J(1) ins] by auto
  have j1: "arena_get jobs1 i = Some j" by (simp add: get1)
  have get: "arena_get ?jobs = (arena_get jobs)(i \<mapsto> ?j)" using arena_put_get [OF j1] get1 by simp
  from chk have acct: "account j < MAX_ACCOUNTS" and cl: "classify i j jobs = Inr rd"
    by (auto simp: check_submit_def split: if_splits sum.splits)
  from ensure_spec [OF I(1,5) acct] obtain fs where
    fs: "fs_ensure (sc_fairshare s) (account j) = Inr fs" "jobs_ok jobs (sc_deps s) fs" "cpu_exact fs jobs"
      "unat (account j) < length (fs_ledgers fs)" by blast
  have nst: "?st \<noteq> Submitted" "?st \<noteq> Running" "?st \<noteq> Preempted" "can_transition_to Submitted ?st"
    by (cases rd; simp)+
  have cpu: "cpu_exact fs ?jobs"
  proof -
    have "held_cpu jobs1 a = held_cpu jobs a" for a by (rule held_insert [OF ins]) (simp add: job_cpu_def new)
    then have "cpu_exact fs jobs1" using fs(3) by (simp add: cpu_exact_def)
    then show ?thesis by (rule cpu_exact_put [OF _ j1]) (simp add: job_cpu_def new nst)
  qed
  have view: "dep_view ?jobs = (dep_view jobs)(i \<mapsto> (phase_of ?st, deps j))"
    by (rule ext) (simp add: dep_view_def get)
  from register_inserted [OF inv ins cl n len] obtain t where
    t: "register (sc_deps s) i j jobs1 = Some (t, Inr rd)" "graph_inv (dep_view ?jobs) t"
      "\<forall>d. set (tr_deps t d) \<subseteq> insert i (set (tr_deps (sc_deps s) d))"
      "\<not> is_terminal ?st \<longrightarrow> (\<forall>d\<in>set (deps j). issued jobs d)" unfolding view by blast
  have iss: "issued ?jobs x" if "issued jobs x \<or> x = i" for x
    using that issued_insert [OF ins, of x] live_issued [OF j1] by (auto simp: issued_put)
  have ok: "jobs_ok ?jobs t fs"
    unfolding jobs_ok_def
  proof (intro conjI allI impI)
    fix d x assume "x \<in> set (tr_deps t d)"
    with t(3) have "x = i \<or> x \<in> set (tr_deps (sc_deps s) d)" by blast
    with J(4) iss show "issued ?jobs x" by blast
  next
    fix x k assume k: "arena_get ?jobs x = Some k"
    show "state k \<noteq> Submitted" "unat (account k) < length (fs_ledgers fs)"
      using k nst(1) fs(4) jobs_okD(5,7) [OF fs(2)] by (auto simp: get split: if_splits)
    show "\<forall>d\<in>set (deps k). issued ?jobs d" if "\<not> is_terminal (state k)"
      using k that t(4) J(6) iss by (auto simp: get split: if_splits)
  qed (use wf1 arena_put_wf len jobs_okD(3) [OF fs(2)] in \<open>simp_all add: arena_put_slots\<close>)
  let ?s = "s\<lparr>sc_fairshare := fs, sc_deps := t\<rparr>"
  have dead: "(c, i) \<notin> waiting_ids jobs" for c
    using arena_insert_get(1) [OF J(1) ins] by (auto simp: waiting_ids_def)
  have wait: "waiting_ids ?jobs = waiting_ids jobs \<union> (if ?st = Ready then {(priority_class j, i)} else {})"
    using dead by (auto simp: waiting_ids_def get split: if_splits)
  show ?thesis
  proof (cases "?st = Ready")
    case False
    with t(2) ok cpu wait I(2,3) have "sched_inv ?s ?jobs" by (simp add: sched_inv_def)
    moreover have "submit s i jobs1 now config = Some (?s, ?jobs, Inr ?st)"
      using j1 new fs(1) t(1) nst(4) False by (simp add: submit_def Let_def try_transition_ok)
    ultimately show ?thesis by blast
  next
    case True
    have "snd ` ready_ids (sc_ready ?s) \<subseteq> dom (arena_get ?jobs)"
      using waiting_live [of jobs] by (auto simp: I(3) get)
    then obtain r where r: "enqueue ?s i ?j now config = Some (?s\<lparr>sc_ready := r\<rparr>)" "ready_inv r"
      "ready_ids r = insert (priority_class j, i) (waiting_ids jobs)"
      using enqueue_spec [of ?s ?jobs i ?j now config] I(2,3) len by (auto simp: get arena_put_slots)
    with t(2) ok cpu wait True have "sched_inv (?s\<lparr>sc_ready := r\<rparr>) ?jobs" by (simp add: sched_inv_def)
    moreover have "submit s i jobs1 now config = Some (?s\<lparr>sc_ready := r\<rparr>, ?jobs, Inr ?st)"
      using j1 new fs(1) t(1) nst(4) True r(1) by (simp add: submit_def Let_def try_transition_ok)
    ultimately show ?thesis by blast
  qed
qed


section \<open>Forgetting a finished job, and share weights\<close>

lemma forget_spec:
  assumes inv: "sched_inv s jobs" and j: "arena_get jobs i = Some j" "is_terminal (state j)"
    and g: "job_generation i \<noteq> - 1"
  shows "sched_inv s (fst (arena_remove jobs i))"
proof -
  note I = sched_invD [OF inv] note J = jobs_okD [OF I(1)]
  let ?jobs = "fst (arena_remove jobs i)"
  note get = arena_remove_get [of jobs i]
  have "length (arena_slots ?jobs) = length (arena_slots jobs)" by (simp add: arena_remove_live [OF j(1)])
  then have "jobs_ok ?jobs (sc_deps s) (sc_fairshare s)"
    using arena_remove_wf [OF J(1)] J issued_remove [OF j(1) g]
    by (auto simp: jobs_ok_def get split: if_splits)
  moreover have "waiting_ids ?jobs = waiting_ids jobs" using j by (auto simp: waiting_ids_def get)
  moreover have "held_cpu ?jobs a = held_cpu jobs a" for a
    by (rule held_remove [OF j(1)]) (use j(2) in \<open>auto simp: job_cpu_def\<close>)
  then have "cpu_exact (sc_fairshare s) ?jobs" using I(5) by (simp add: cpu_exact_def)
  moreover have "dep_view ?jobs = (dep_view jobs)(i := None)" by (rule ext) (simp add: dep_view_def get)
  moreover have "graph_inv ((dep_view jobs)(i := None)) (sc_deps s)"
  proof (rule graph_forget [OF I(4)])
    show "dep_view jobs i = Some (phase_of (state j), deps j)" by (simp add: dep_view_def j(1))
    show "phase_of (state j) = Done \<or> phase_of (state j) = Dead" using j(2) by (cases "state j") simp_all
  qed
  ultimately show ?thesis using I(2,3) by (simp add: sched_inv_def)
qed

lemma set_shares_spec:
  assumes inv: "sched_inv s jobs"
  shows "\<exists>s' r. sched_set_shares s a sh = Some (s', r) \<and> sched_inv s' jobs"
proof (cases "a < MAX_ACCOUNTS")
  case False
  then have "fs_set_shares (sc_fairshare s) a sh = Some (Inl (AccountError a))"
    by (simp add: fs_set_shares_def fs_ensure_def not_less)
  with inv show ?thesis by (simp add: sched_set_shares_def)
next
  case True
  note I = sched_invD [OF inv]
  from ensure_spec [OF I(1,5) True] obtain fs where
    fs: "fs_ensure (sc_fairshare s) a = Inr fs" "jobs_ok jobs (sc_deps s) fs" "cpu_exact fs jobs"
      "unat a < length (fs_ledgers fs)" by blast
  let ?fs = "fs\<lparr>fs_shares_total := fs_shares_total fs - ucast (lg_shares (fs_ledgers fs ! unat a)) + ucast sh,
      fs_ledgers := (fs_ledgers fs)[unat a := (fs_ledgers fs ! unat a)\<lparr>lg_shares := sh\<rparr>]\<rparr>"
  have eq: "fs_set_shares (sc_fairshare s) a sh = Some (Inr ?fs)"
    using fs(1,4) by (simp add: fs_set_shares_def)
  have "fs_wf ?fs" using fs_set_shares_wf [OF jobs_okD(3) [OF I(1)], of a sh] eq by auto
  then have "jobs_ok jobs (sc_deps s) ?fs" by (rule jobs_ok_fs [OF fs(2)]) simp
  moreover have "cpu_exact ?fs jobs" 
  proof -
    have "lg_running_cpu (fs_ledgers ?fs ! k) = lg_running_cpu (fs_ledgers fs ! k)" for k
      using fs(4) by (cases "k = unat a") simp_all
    with fs(3) show ?thesis by (simp add: cpu_exact_def)
  qed
  ultimately show ?thesis using I eq by (simp add: sched_set_shares_def sched_inv_def)
qed

lemma scheduler_with_slots_inv:
  assumes "n < 2 ^ 32"
  shows "sched_inv (scheduler_with_slots n) arena_new"
proof -
  let ?t = "tracker_reserve_slots tracker_new n"
  note T = reserve_tracker [OF tracker_new_wf(1) assms]
  have none: "arena_get (arena_new :: job arena) i = None" for i
    by (simp add: arena_get_def arena_new_def vec_get_def)
  have untr: "\<not> is_tracked ?t i" for i using T(4) tracker_new_wf(2) by simp
  have "graph_inv (dep_view arena_new) ?t"
    by (rule graph_invI) (simp_all add: T(1) untr open_job_def dep_view_def none)
  moreover have "jobs_ok arena_new ?t fair_share_new"
    using arena_wf_new fs_new_wf untr none by (simp add: jobs_ok_def tr_deps_def) (simp add: arena_new_def)
  moreover have "cpu_exact fair_share_new arena_new" by (simp add: cpu_exact_def fair_share_new_def)
  moreover have "waiting_ids arena_new = {}" by (simp add: waiting_ids_def none)
  moreover have "ready_inv (ready_reserve_slots ready_new n)" "ready_ids (ready_reserve_slots ready_new n) = {}"
    using ready_reserve_spec [OF ready_new_spec(1), of n] ready_new_spec(2) by (simp_all add: ready_ids_def)
  ultimately show ?thesis by (simp add: sched_inv_def scheduler_with_slots_def scheduler_new_def)
qed

end
