(* ===== verification/Cycle_Run.thy ===== *)
theory Cycle_Run
  imports Scheduler_Ops
begin

text \<open>
  A scheduling cycle returns, keeps the scheduler's invariant, starts exactly the jobs it decided
  on, and charges the inventory for exactly these.
\<close>

section \<open>The candidates of a cycle\<close>

lemma rescore_ident: "entry_ident (rescore fs jobs now config e) = entry_ident e"
  by (simp add: rescore_def entry_ident_def split: option.split)

lemma rescore_job: "entry_job (rescore fs jobs now config e) = entry_job e"
  by (simp add: rescore_def split: option.split)

lemma mset_order_candidates: "mset (order_candidates es) = mset es"
  by (simp add: order_candidates_def)

lemma set_order_candidates: "set (order_candidates es) = set es"
  by (simp add: order_candidates_def)

lemma order_candidates_jobs:
  assumes "distinct (map entry_job es)"
  shows "distinct (map entry_job (order_candidates (map (rescore fs jobs now config) es)))"
proof -
  have "mset (map entry_job (order_candidates (map (rescore fs jobs now config) es)))
      = mset (map entry_job es)"
    by (simp add: mset_order_candidates image_mset.compositionality comp_def rescore_job)
  then show ?thesis using assms by (metis mset_eq_imp_distinct_iff)
qed

lemma order_candidates_idents:
  "entry_ident ` set (order_candidates (map (rescore fs jobs now config) es)) = entry_ident ` set es"
  by (simp add: set_order_candidates image_image rescore_ident)

lemma strict_distinct: "sorted_wrt (\<lambda>a b. f b < f a) es \<Longrightarrow> distinct es" for f :: "'a \<Rightarrow> 'b::linorder"
  by (induction es) auto

lemma drained_jobs_distinct:
  assumes "ready_inv r" and "ready_ids r = waiting_ids jobs" and "set es \<subseteq> ready_entries r" and "distinct es"
  shows "distinct (map entry_job es)"
proof -
  have "a = b" if "a \<in> set es" "b \<in> set es" "entry_job a = entry_job b" for a b
  proof -
    have "entry_ident x \<in> waiting_ids jobs" if "x \<in> set es" for x
      using that assms(2,3) by (auto simp: ready_ids_def)
    from this [OF that(1)] this [OF that(2)] that(3) have "entry_ident a = entry_ident b"
      by (auto simp: waiting_ids_def entry_ident_def)
    with that assms(3) show ?thesis using ready.ident_inj [OF assms(1), of a b] by blast
  qed
  with assms(4) show ?thesis by (auto simp: distinct_map inj_on_def)
qed

section \<open>Placing them\<close>

lemma allocate_all_append:
  "allocate_all jobs iv (ds @ es) = (case allocate_all jobs iv ds of None \<Rightarrow> None | Some iv' \<Rightarrow> allocate_all jobs iv' es)"
  by (induction ds arbitrary: iv) (auto split: option.splits sum.splits)

lemma allocate_all_sound:
  "allocate_all jobs iv ds = Some iv' \<Longrightarrow> alloc_sound iv q \<Longrightarrow> alloc_sound iv' q"
  by (induction ds arbitrary: iv) (auto split: option.splits sum.splits intro: slots.alloc_sound)

lemma allocate_all_length:
  "allocate_all jobs iv ds = Some iv' \<Longrightarrow> length (inv_slots iv') = length (inv_slots iv)"
  by (induction ds arbitrary: iv) (auto split: option.splits sum.splits dest: try_allocate_length)

lemma placed_jobs_append:
  "placed_jobs k disp (xs @ ys) = placed_jobs k disp xs @ placed_jobs (k + length xs) disp ys"
proof (induction xs arbitrary: k)
  case Nil
  then show ?case by (simp add: placed_jobs_def)
qed (simp add: placed_jobs_Cons)

lemma placed_jobs_cong:
  "\<forall>i < length es. disp ! (k + i) = disp' ! (k + i) \<Longrightarrow> placed_jobs k disp es = placed_jobs k disp' es"
  unfolding placed_jobs_def by (rule arg_cong [where f = "map _"], rule filter_cong) auto

lemma set_placed_jobs:
  "set (placed_jobs k disp es) = {entry_job (es ! i) | i. i < length es \<and> disp ! (k + i) = Dispatched}"
  by (auto simp: placed_jobs_def)

lemma distinct_placed_jobs: "distinct (map entry_job es) \<Longrightarrow> distinct (placed_jobs k disp es)"
proof (induction es arbitrary: k)
  case Nil
  then show ?case by (simp add: placed_jobs_def)
next
  case (Cons e es)
  then have "entry_job e \<notin> set (placed_jobs (Suc k) disp es)" by (auto simp: set_placed_jobs)
  with Cons show ?case by (simp add: placed_jobs_Cons)
qed

text \<open>Packing has the effect of a pass, and so has packing followed by backfill.\<close>

lemma pack_effect:
  assumes "pack_loop 0 es jobs iv budget (replicate (length es) Pending) decs pack_outcome_default
      = Some (iv', disp', decs', out')"
  shows "\<exists>new. decs' = decs @ new \<and> pass_effect jobs 0 es iv (replicate (length es) Pending) iv' disp' new"
proof -
  from pack_loop_decisions [OF assms] obtain new where
    new: "decs' = decs @ new" "allocate_all jobs iv new = Some iv'" by auto
  moreover have "map dec_job new = placed_jobs 0 disp' es" using pack_loop_placed [OF assms] new(1) by simp
  moreover have "settled jobs (es ! i) Pending (disp' ! i)" if "i < length es" for i
    using pack_loop_dispositions [OF assms that] that by (auto simp: settled_def)
  moreover have "length disp' = length es" using pack_loop_frame [OF assms] by simp
  ultimately show ?thesis by (auto simp: pass_effect_def)
qed

lemma pass_effect_then:
  assumes a: "pass_effect jobs 0 es iv (replicate (length es) Pending) iv1 disp1 new1"
    and b: "pass_effect jobs k (drop k es) iv1 disp1 iv2 disp2 new2"
    and k: "k \<le> length es" and p: "\<forall>i. k \<le> i \<longrightarrow> i < length es \<longrightarrow> disp1 ! i = Pending"
  shows "pass_effect jobs 0 es iv (replicate (length es) Pending) iv2 disp2 (new1 @ new2)"
proof -
  note A = a [unfolded pass_effect_def] and B = b [unfolded pass_effect_def]
  have len: "length disp1 = length es" "length disp2 = length es" using A B by simp_all
  have lo: "disp2 ! i = disp1 ! i" if "i < k" for i using B that k len by simp
  have es: "es = take k es @ drop k es" by simp
  have "placed_jobs 0 disp1 es = placed_jobs 0 disp1 (take k es)"
  proof -
    have "placed_jobs k disp1 (drop k es) = []" by (rule placed_jobs_none) (use p k in auto)
    then show ?thesis using placed_jobs_append [of 0 disp1 "take k es" "drop k es"] k by simp
  qed
  also have "\<dots> = placed_jobs 0 disp2 (take k es)" by (rule placed_jobs_cong) (use lo k in simp)
  finally have "placed_jobs 0 disp2 es = placed_jobs 0 disp1 es @ placed_jobs k disp2 (drop k es)"
    using placed_jobs_append [of 0 disp2 "take k es" "drop k es"] k by simp
  moreover have "map dec_job new2 = placed_jobs k disp2 (drop k es)" using B p k by simp
  ultimately have "map dec_job (new1 @ new2) = placed_jobs 0 disp2 es" using A by simp
  moreover have "settled jobs (es ! i) Pending (disp2 ! i)" if i: "i < length es" for i
  proof (cases "i < k")
    case True
    with A i lo show ?thesis by simp
  next
    case False
    then have "i - k < length (drop k es)" using i by simp
    with B have "settled jobs (drop k es ! (i - k)) (disp1 ! (k + (i - k))) (disp2 ! (k + (i - k)))" by blast
    with False i p show ?thesis by simp
  qed
  moreover have "allocate_all jobs iv (new1 @ new2) = Some iv2" using A B by (simp add: allocate_all_append)
  ultimately show ?thesis using len by (simp add: pass_effect_def)
qed

lemma place_candidates_spec:
  assumes snd: "all_sound jobs iv es" and len: "length (inv_slots iv) < 2 ^ 32"
  shows "\<exists>iv' disp new out. place_candidates es jobs iv running now config decs = Some (iv', disp, decs @ new, out)
     \<and> pass_effect jobs 0 es iv (replicate (length es) Pending) iv' disp new"
proof -
  let ?disp = "replicate (length es) Pending"
  from pack_loop_total [OF snd, where k = 0 and disp = ?disp and budget = "cc_budget config"
      and decs = decs and out = pack_outcome_default]
  obtain iv1 disp1 decs1 po where
    run: "pack_loop 0 es jobs iv (cc_budget config) ?disp decs pack_outcome_default = Some (iv1, disp1, decs1, po)"
    by auto
  from pack_effect [OF run] obtain new1 where
    eff: "decs1 = decs @ new1" "pass_effect jobs 0 es iv ?disp iv1 disp1 new1" by blast
  have pack: "pack es jobs iv (cc_budget config) ?disp decs = Some (iv1, disp1, decs @ new1, po)"
    using run eff(1) by (simp add: pack_def)
  show ?thesis
  proof (cases "po_head po")
    case None
    with pack eff(2) show ?thesis by (simp add: place_candidates_def Let_def)
  next
    case (Some h)
    from pack_loop_head [OF run _ Some] have
      h: "h < length es" "\<forall>i. h \<le> i \<longrightarrow> i < length es \<longrightarrow> disp1 ! i = Pending"
      by (simp_all add: pack_outcome_default_def)
    from eff(2) have al: "allocate_all jobs iv new1 = Some iv1" and l1: "length es \<le> length disp1"
      by (simp_all add: pass_effect_def)
    have sound1: "all_sound jobs iv1 es" using snd allocate_all_sound [OF al] by (simp add: all_sound_def)
    have len1: "length (inv_slots iv1) < 2 ^ 32" using len allocate_all_length [OF al] by simp
    from easy_backfill_spec [OF sound1 l1 h(1) len1, of running now "cc_budget config" "decs @ new1"]
    obtain iv2 disp2 new2 bo where
      bf: "easy_backfill es h jobs iv1 running now (cc_budget config) disp1 (decs @ new1)
          = Some (iv2, disp2, (decs @ new1) @ new2, bo)"
        "pass_effect jobs (Suc h) (drop (Suc h) es) iv1 disp1 iv2 disp2 new2"
      by (elim exE conjE) (rule that)
    have "pass_effect jobs 0 es iv ?disp iv2 disp2 (new1 @ new2)"
      by (rule pass_effect_then [OF eff(2) bf(2)]) (use h in auto)
    with pack Some h(1) bf(1) show ?thesis by (simp add: place_candidates_def Let_def)
  qed
qed


section \<open>Applying the decisions\<close>

text \<open>
  While the loop runs, the ready set together with the candidates not yet handled are the ready jobs.
\<close>

definition emit_inv :: "scheduler \<Rightarrow> job arena \<Rightarrow> ready_entry list \<Rightarrow> bool" where
  "emit_inv s jobs es \<longleftrightarrow> jobs_ok jobs (sc_deps s) (sc_fairshare s) \<and> ready_inv (sc_ready s)
     \<and> ready_ids (sc_ready s) \<union> entry_ident ` set es = waiting_ids jobs
     \<and> ready_ids (sc_ready s) \<inter> entry_ident ` set es = {}
     \<and> distinct (map entry_job es)
     \<and> graph_inv (dep_view jobs) (sc_deps s) \<and> cpu_exact (sc_fairshare s) jobs"

lemma emit_inv_Nil: "emit_inv s jobs [] \<longleftrightarrow> sched_inv s jobs"
  by (auto simp: emit_inv_def sched_inv_def)

lemma emit_head:
  assumes "emit_inv s jobs (e # es)"
  obtains j where "arena_get jobs (entry_job e) = Some j" "state j = Ready" "entry_class e = priority_class j"
    "entry_ident e \<notin> entry_ident ` set es"
proof -
  have "entry_ident e \<in> waiting_ids jobs" using assms by (auto simp: emit_inv_def)
  moreover have "entry_ident e \<notin> entry_ident ` set es"
    using assms by (auto simp: emit_inv_def entry_ident_def)
  ultimately show thesis using that by (auto simp: waiting_ids_def entry_ident_def)
qed

lemma emit_pending:
  assumes inv: "emit_inv s jobs (e # es)"
  shows "\<exists>r. reinsert (sc_ready s) e = Some r \<and> emit_inv (s\<lparr>sc_ready := r\<rparr>) jobs es"
proof -
  note I = inv [unfolded emit_inv_def]
  from inv obtain j where j: "arena_get jobs (entry_job e) = Some j" "entry_ident e \<notin> entry_ident ` set es"
    by (rule emit_head)
  have sub: "snd ` ready_ids (sc_ready s) \<subseteq> dom (arena_get jobs)" using I waiting_live [of jobs] by blast
  from I obtain r where r: "reinsert (sc_ready s) e = Some r" "ready_inv r"
    "ready_ids r = insert (entry_class e, entry_job e) (ready_ids (sc_ready s))"
    using ready_insert_ids [OF _ jobs_okD(2) sub, of "sc_deps s" "sc_fairshare s" "entry_job e"
        "entry_class e" "entry_score e"] j(1)
    by (auto simp: reinsert_def)
  then have "emit_inv (s\<lparr>sc_ready := r\<rparr>) jobs es"
    using I j(2) by (auto simp: emit_inv_def entry_ident_def)
  with r(1) show ?thesis by blast
qed

lemma emit_dispatched:
  assumes inv: "emit_inv s jobs (e # es)" and j: "arena_get jobs (entry_job e) = Some j"
  shows "emit_inv (s\<lparr>sc_fairshare := on_dispatch (sc_fairshare s) (account j) (cpu_millis (request j)) now c\<rparr>)
     (arena_put jobs (entry_job e) (j\<lparr>state := Running\<rparr>)) es"
proof -
  note I = inv [unfolded emit_inv_def]
  let ?j = "j\<lparr>state := Running\<rparr>" let ?jobs = "arena_put jobs (entry_job e) ?j"
  let ?fs = "on_dispatch (sc_fairshare s) (account j) (cpu_millis (request j)) now c"
  from inv j have st: "state j = Ready" and cls: "entry_class e = priority_class j"
    and ne: "entry_ident e \<notin> entry_ident ` set es" by (auto elim: emit_head)
  have "jobs_ok ?jobs (sc_deps s) ?fs"
    by (intro jobs_ok_fs [OF jobs_ok_put [OF _ j]] on_dispatch_wf)
      (use I st in \<open>auto simp: ledgers_dispatch jobs_okD(3)\<close>)
  moreover have "cpu_exact ?fs ?jobs"
    by (rule cpu_exact_dispatch [OF _ j jobs_okD(2)]) (use I st in \<open>auto simp: job_cpu_def\<close>)
  moreover have "waiting_ids ?jobs = waiting_ids jobs - {entry_ident e}"
    using waiting_put [OF j, of ?j] by (simp add: entry_ident_def cls)
  moreover have "dep_view ?jobs = dep_view jobs" by (rule dep_view_put_same [OF j]) (simp_all add: st)
  moreover have "ready_ids (sc_ready s) \<union> entry_ident ` set es = waiting_ids jobs - {entry_ident e}"
  proof -
    have "waiting_ids jobs = insert (entry_ident e) (ready_ids (sc_ready s) \<union> entry_ident ` set es)"
      using I by simp
    moreover have "entry_ident e \<notin> ready_ids (sc_ready s) \<union> entry_ident ` set es" using I ne by simp
    ultimately show ?thesis by (metis Diff_insert_absorb)
  qed
  ultimately show ?thesis using I by (simp add: emit_inv_def)
qed

lemma emit_loop_spec:
  assumes "emit_inv s jobs es" and "k + length es \<le> length disp"
    and "\<forall>i < length es. disp ! (k + i) \<noteq> Dropped"
  shows "\<exists>s' jobs'. emit_loop k es disp s jobs now config = Some (s', jobs') \<and> sched_inv s' jobs'
     \<and> restated Running (set (placed_jobs k disp es)) jobs jobs'"
  using assms
proof (induction es arbitrary: k s jobs)
  case Nil
  then show ?case by (simp add: emit_inv_Nil placed_jobs_def restated_def)
next
  case (Cons e es)
  have k: "k < length disp" "Suc k + length es \<le> length disp" using Cons.prems(2) by simp_all
  have nd: "disp ! k \<noteq> Dropped" "\<forall>i < length es. disp ! (Suc k + i) \<noteq> Dropped"
    using Cons.prems(3) by force+
  from Cons.prems(1) obtain j where j: "arena_get jobs (entry_job e) = Some j" "state j = Ready"
    by (rule emit_head)
  have notin: "entry_job e \<notin> set (placed_jobs (Suc k) disp es)"
    using Cons.prems(1) by (auto simp: emit_inv_def set_placed_jobs)
  show ?case
  proof (cases "disp ! k")
    case Pending
    from emit_pending [OF Cons.prems(1)] obtain r where
      r: "reinsert (sc_ready s) e = Some r" "emit_inv (s\<lparr>sc_ready := r\<rparr>) jobs es" by blast
    from Cons.IH [OF r(2) k(2) nd(2)] r(1) k(1) Pending show ?thesis by (simp add: placed_jobs_Cons)
  next
    case Dispatched
    let ?s = "s\<lparr>sc_fairshare := on_dispatch (sc_fairshare s) (account j) (cpu_millis (request j)) now
        (cc_fairshare config)\<rparr>"
    let ?jobs = "arena_put jobs (entry_job e) (j\<lparr>state := Running\<rparr>)"
    from Cons.IH [OF emit_dispatched [OF Cons.prems(1) j(1)] k(2) nd(2)] obtain s' jobs' where
      "emit_loop (Suc k) es disp ?s ?jobs now config = Some (s', jobs')" "sched_inv s' jobs'"
      "restated Running (set (placed_jobs (Suc k) disp es)) ?jobs jobs'" by blast
    with j k(1) Dispatched restated_insert [OF _ j(1) notin, of Running jobs'] show ?thesis
      by (intro exI [of _ s'] exI [of _ jobs']) (simp add: placed_jobs_Cons try_transition_ok)
  next
    case Dropped
    with nd(1) show ?thesis by simp
  qed
qed


section \<open>The cycle\<close>

lemma refresh_inv:
  assumes "sched_inv s jobs"
  shows "sched_inv (s\<lparr>sc_fairshare := fs_refresh (sc_fairshare s) now c\<rparr>) jobs"
  using assms cpu_exact_refresh jobs_ok_fs [OF _ fs_refresh_wf [OF jobs_okD(3)]]
  by (auto simp: sched_inv_def ledgers_refresh)

lemma run_cycle_spec:
  assumes inv: "sched_inv s jobs" and len: "length (inv_slots iv) < 2 ^ 32"
    and snd: "\<And>i j. arena_get jobs i = Some j \<Longrightarrow> state j = Ready \<Longrightarrow> alloc_sound iv (request j)"
  shows "\<exists>s' jobs' iv' new out. run_cycle s jobs iv running now config decs = Some (s', jobs', iv', decs @ new, out)
     \<and> sched_inv s' jobs' \<and> allocate_all jobs iv new = Some iv' \<and> distinct (map dec_job new)
     \<and> (\<forall>d\<in>set new. \<exists>j. arena_get jobs (dec_job d) = Some j \<and> state j = Ready)
     \<and> restated Running (dec_job ` set new) jobs jobs'"
proof -
  let ?s = "s\<lparr>sc_fairshare := fs_refresh (sc_fairshare s) now (cc_fairshare config)\<rparr>"
  note I = sched_invD [OF refresh_inv [OF inv, of now "cc_fairshare config"]]
  from drain_spec [OF I(2), of "[]" "max_candidates config"] obtain r es where
    d: "drain_ordered_into (sc_ready ?s) [] (max_candidates config) = Some (r, es)" "ready_inv r"
      "sorted_wrt (\<lambda>a b. entry_rank b < entry_rank a) es" "set es \<subseteq> ready_entries (sc_ready ?s)"
      "ready_entries r = ready_entries (sc_ready ?s) - set es" by blast
  let ?cs = "order_candidates (map (rescore (sc_fairshare ?s) jobs now config) es)"
  have idr: "ready_ids r = waiting_ids jobs - entry_ident ` set es"
  proof -
    have "inj_on entry_ident (ready_entries (sc_ready ?s))" using ready.ident_inj [OF I(2)] by (rule inj_onI)
    from inj_on_image_set_diff [OF this _ d(4)] show ?thesis
      using I(3) by (simp add: ready_ids_def d(5))
  qed
  have ids: "entry_ident ` set es \<subseteq> waiting_ids jobs" using d(4) I(3) by (auto simp: ready_ids_def)
  have emit: "emit_inv (?s\<lparr>sc_ready := r\<rparr>) jobs ?cs"
    using I d(2) idr ids order_candidates_idents [of "sc_fairshare ?s" jobs now config es]
      order_candidates_jobs [OF drained_jobs_distinct [OF I(2,3) d(4) strict_distinct [OF d(3)]]]
    by (auto simp: emit_inv_def)
  have live: "\<exists>j. arena_get jobs (entry_job e) = Some j \<and> state j = Ready" if "e \<in> set ?cs" for e
  proof -
    from that have "entry_ident e \<in> entry_ident ` set es"
      unfolding order_candidates_idents [of "sc_fairshare ?s" jobs now config es, symmetric] by simp
    with ids show ?thesis by (auto simp: waiting_ids_def entry_ident_def)
  qed
  show ?thesis
  proof (cases "es = []")
    case True
    then have "sched_inv (?s\<lparr>sc_ready := r\<rparr>) jobs"
      using emit by (simp add: order_candidates_def emit_inv_Nil)
    with d(1) True show ?thesis
      by (intro exI [of _ "?s\<lparr>sc_ready := r\<rparr>"] exI [of _ jobs] exI [of _ iv] exI [of _ "[]"])
        (simp add: run_cycle_def restated_def)
  next
    case False
    have "all_sound jobs iv ?cs" using live snd by (fastforce simp: all_sound_def)
    from place_candidates_spec [OF this len, of running now config decs] obtain iv' disp new out where
      p: "place_candidates ?cs jobs iv running now config decs = Some (iv', disp, decs @ new, out)"
        "pass_effect jobs 0 ?cs iv (replicate (length ?cs) Pending) iv' disp new" by blast
    note P = p(2) [unfolded pass_effect_def]
    have nd: "disp ! (0 + i) \<noteq> Dropped" if i: "i < length ?cs" for i
    proof -
      have "settled jobs (?cs ! i) (replicate (length ?cs) Pending ! (0 + i)) (disp ! (0 + i))"
        using P i by blast
      with live [of "?cs ! i"] i show ?thesis by (auto simp: settled_def)
    qed
    have pl: "map dec_job new = placed_jobs 0 disp ?cs" using P by simp
    from emit_loop_spec [OF emit, of 0 disp now config] P nd obtain s' jobs' where
      e: "emit_loop 0 ?cs disp (?s\<lparr>sc_ready := r\<rparr>) jobs now config = Some (s', jobs')" "sched_inv s' jobs'"
        "restated Running (set (placed_jobs 0 disp ?cs)) jobs jobs'" by auto
    have "run_cycle s jobs iv running now config decs = Some (s', jobs', iv', decs @ new, out)"
      using d(1) False p(1) e(1) by (simp add: run_cycle_def Let_def)
    moreover have "distinct (map dec_job new)"
      unfolding pl by (rule distinct_placed_jobs) (use emit in \<open>simp add: emit_inv_def\<close>)
    moreover have "\<exists>j. arena_get jobs (dec_job x) = Some j \<and> state j = Ready" if "x \<in> set new" for x
    proof -
      from that have "dec_job x \<in> set (placed_jobs 0 disp ?cs)" unfolding pl [symmetric] by simp
      with live show ?thesis by (auto simp: set_placed_jobs)
    qed
    moreover have "set (placed_jobs 0 disp ?cs) = dec_job ` set new" unfolding pl [symmetric] by simp
    moreover have "allocate_all jobs iv new = Some iv'" using P by blast
    ultimately show ?thesis using e(2,3)
      by (intro exI [of _ s'] exI [of _ jobs'] exI [of _ iv'] exI [of _ new] exI [of _ out]) simp
  qed
qed

end
