(* ===== verification/Scheduler_Run.thy ===== *)
theory Scheduler_Run
  imports Cycle_Run
begin

text \<open>
  Histories of the scheduler: every sequence of lifecycle calls and cycles the daemon can make,
  from an empty scheduler on. The properties of this theory hold in every state such a history
  reaches; each follows from the invariant of \<open>Scheduler_Inv\<close> and the contract of the call.
\<close>

section \<open>Histories\<close>

text \<open>
  The side conditions are the caller's: a job is submitted after \<open>check_submit\<close> accepted it, as the
  daemon does before it journals a submission; the arena stays below \<open>2 ^ 32 - 1\<close> slots; a job is
  forgotten when it has ended, and its handle's generation is not the last one; \<open>requeue\<close> is not
  called on a blocked job; a cycle gets an inventory on which the ready jobs' requests can be
  allocated where \<open>first_fit\<close> offers a slot.
\<close>

inductive sched_run :: "scheduler \<Rightarrow> job arena \<Rightarrow> bool" where
  run_new: "n < 2 ^ 32 \<Longrightarrow> sched_run (scheduler_with_slots n) arena_new"
| run_submit: "sched_run s jobs \<Longrightarrow> arena_insert jobs j = Some (jobs1, i) \<Longrightarrow> state j = Submitted \<Longrightarrow>
    check_submit s i j jobs = Inr rd \<Longrightarrow> length (deps j) < 2 ^ 32 \<Longrightarrow>
    length (arena_slots jobs1) < 2 ^ 32 - 1 \<Longrightarrow>
    submit s i jobs1 now config = Some (s', jobs', r) \<Longrightarrow> sched_run s' jobs'"
| run_restore: "sched_run s jobs \<Longrightarrow> restore_running s i jobs now config = Some (s', jobs', r) \<Longrightarrow>
    sched_run s' jobs'"
| run_preempt: "sched_run s jobs \<Longrightarrow> sched_preempt s i jobs = Some (s', jobs', r) \<Longrightarrow> sched_run s' jobs'"
| run_preempted: "sched_run s jobs \<Longrightarrow> on_preempted s i jobs now config = Some (s', jobs', r) \<Longrightarrow>
    sched_run s' jobs'"
| run_requeue: "sched_run s jobs \<Longrightarrow> map_option state (arena_get jobs i) \<noteq> Some Blocked \<Longrightarrow>
    requeue s i jobs now config = Some (s', jobs', r) \<Longrightarrow> sched_run s' jobs'"
| run_completed: "sched_run s jobs \<Longrightarrow> sched_on_completed s i jobs now config = Some (s', jobs', out) \<Longrightarrow>
    sched_run s' jobs'"
| run_failed: "sched_run s jobs \<Longrightarrow> on_failed s i jobs now config = Some (s', jobs', out) \<Longrightarrow>
    sched_run s' jobs'"
| run_cancel: "sched_run s jobs \<Longrightarrow> cancel s i jobs now config = Some (s', jobs', out) \<Longrightarrow>
    sched_run s' jobs'"
| run_shares: "sched_run s jobs \<Longrightarrow> sched_set_shares s a sh = Some (s', r') \<Longrightarrow> sched_run s' jobs"
| run_forget: "sched_run s jobs \<Longrightarrow> arena_get jobs i = Some j \<Longrightarrow> is_terminal (state j) \<Longrightarrow>
    job_generation i \<noteq> - 1 \<Longrightarrow> sched_run s (fst (arena_remove jobs i))"
| run_cycle: "sched_run s jobs \<Longrightarrow> length (inv_slots iv) < 2 ^ 32 \<Longrightarrow>
    (\<forall>i j. arena_get jobs i = Some j \<longrightarrow> state j = Ready \<longrightarrow> alloc_sound iv (request j)) \<Longrightarrow>
    run_cycle s jobs iv running now config decs = Some (s', jobs', iv', decs', co) \<Longrightarrow> sched_run s' jobs'"

text \<open>The three calls that end a job keep the invariant whatever they are called on.\<close>

lemma ending_calls_inv:
  assumes inv: "sched_inv s jobs"
  shows "\<exists>s' jobs' out. sched_on_completed s i jobs now config = Some (s', jobs', out) \<and> sched_inv s' jobs'"
    and "\<exists>s' jobs' out. on_failed s i jobs now config = Some (s', jobs', out) \<and> sched_inv s' jobs'"
    and "\<exists>s' jobs' out. cancel s i jobs now config = Some (s', jobs', out) \<and> sched_inv s' jobs'"
proof -
  note E = lifecycle_errors [OF inv, of i]
  show "\<exists>s' jobs' out. sched_on_completed s i jobs now config = Some (s', jobs', out) \<and> sched_inv s' jobs'"
    using E(1,4) inv sched_on_completed_spec [OF inv, of i] by (cases "arena_get jobs i") fastforce+
  show "\<exists>s' jobs' out. on_failed s i jobs now config = Some (s', jobs', out) \<and> sched_inv s' jobs'"
    using E(2,5) inv on_failed_spec [OF inv, of i] by (cases "arena_get jobs i") fastforce+
  show "\<exists>s' jobs' out. cancel s i jobs now config = Some (s', jobs', out) \<and> sched_inv s' jobs'"
    using E(3,6) inv cancel_spec [OF inv, of i] by (cases "arena_get jobs i") fastforce+
qed

lemma sched_run_inv: "sched_run s jobs \<Longrightarrow> sched_inv s jobs"
proof (induction rule: sched_run.induct)
  case (run_new n)
  then show ?case by (rule scheduler_with_slots_inv)
next
  case (run_submit s jobs j jobs1 i rd now config s' jobs' r)
  from submit_spec [OF run_submit.IH run_submit.hyps(2-6), of now config] run_submit.hyps(7)
  show ?case by auto
next
  case (run_restore s jobs i now config s' jobs' r)
  from restore_running_spec [OF run_restore.IH, of i now config] run_restore.hyps(2) show ?case by auto
next
  case (run_preempt s jobs i s' jobs' r)
  from sched_preempt_spec [OF run_preempt.IH, of i] run_preempt.hyps(2) show ?case by auto
next
  case (run_preempted s jobs i now config s' jobs' r)
  from on_preempted_spec [OF run_preempted.IH, of i now config] run_preempted.hyps(2) show ?case by auto
next
  case (run_requeue s jobs i now config s' jobs' r)
  from requeue_spec [OF run_requeue.IH, of i now config] run_requeue.hyps(2,3) show ?case by auto
next
  case (run_completed s jobs i now config s' jobs' out)
  from ending_calls_inv(1) [OF run_completed.IH, of i now config] run_completed.hyps(2) show ?case by auto
next
  case (run_failed s jobs i now config s' jobs' out)
  from ending_calls_inv(2) [OF run_failed.IH, of i now config] run_failed.hyps(2) show ?case by auto
next
  case (run_cancel s jobs i now config s' jobs' out)
  from ending_calls_inv(3) [OF run_cancel.IH, of i now config] run_cancel.hyps(2) show ?case by auto
next
  case (run_shares s jobs a sh s' r')
  from set_shares_spec [OF run_shares.IH, of a sh] run_shares.hyps(2) show ?case by auto
next
  case (run_forget s jobs i j)
  from run_forget.IH run_forget.hyps(2-4) show ?case by (rule forget_spec)
next
  case (run_cycle s jobs iv running now config decs s' jobs' iv' decs' co)
  from run_cycle_spec [OF run_cycle.IH run_cycle.hyps(2), of running now config decs] run_cycle.hyps(3,4)
  show ?case by auto
qed

section \<open>Dependencies never form a cycle\<close>

text \<open>
  No call but a submission adds a job or changes its dependencies, and none reopens a job that has
  ended, so none adds an edge between open jobs.
\<close>

definition no_new_edges :: "job arena \<Rightarrow> job arena \<Rightarrow> bool" where
  "no_new_edges jobs jobs' \<longleftrightarrow> (\<forall>i k'. arena_get jobs' i = Some k' \<longrightarrow>
     (\<exists>k. arena_get jobs i = Some k \<and> deps k' = deps k \<and> (is_terminal (state k) \<longrightarrow> is_terminal (state k'))))"

lemma no_new_edges_refl [simp]: "no_new_edges jobs jobs"
  by (simp add: no_new_edges_def)

lemma no_new_edges_trans: "no_new_edges a b \<Longrightarrow> no_new_edges b c \<Longrightarrow> no_new_edges a c"
  unfolding no_new_edges_def by metis

lemma no_new_edges_put:
  "arena_get jobs i = Some j \<Longrightarrow> deps j' = deps j \<Longrightarrow> (is_terminal (state j) \<longrightarrow> is_terminal (state j')) \<Longrightarrow>
     no_new_edges jobs (arena_put jobs i j')"
  by (auto simp: no_new_edges_def arena_put_get split: if_splits)

lemma no_new_edges_restated:
  assumes "restated st S jobs jobs'" and "\<forall>x\<in>S. \<forall>j. arena_get jobs x = Some j \<longrightarrow> \<not> is_terminal (state j)"
  shows "no_new_edges jobs jobs'"
  using assms by (auto simp: no_new_edges_def restated_def split: if_splits)

lemma waits_on_mono: "no_new_edges jobs jobs' \<Longrightarrow> waits_on jobs' \<subseteq> waits_on jobs"
  unfolding waits_on_def no_new_edges_def dep_pending_def by (fastforce split: option.splits)

lemma no_new_edges_remove: "no_new_edges jobs (fst (arena_remove jobs i))"
  by (auto simp: no_new_edges_def arena_remove_get split: if_splits)

lemma waits_on_into_pending: "(i, x) \<in> (waits_on jobs)\<^sup>* \<Longrightarrow> x \<noteq> i \<Longrightarrow> dep_pending jobs x"
  by (erule rtranclE) (auto simp: waits_on_def)

lemma no_new_edges_cascade:
  assumes "arena_get jobs i = Some j" and "\<not> is_terminal (state j)"
    and "set out = {x. x \<noteq> i \<and> (i, x) \<in> (waits_on jobs)\<^sup>*}"
    and "restated Cancelled (set out) (arena_put jobs i (j\<lparr>state := st\<rparr>)) jobs'"
  shows "no_new_edges jobs jobs'"
proof (rule no_new_edges_trans)
  show "no_new_edges jobs (arena_put jobs i (j\<lparr>state := st\<rparr>))"
    by (rule no_new_edges_put) (use assms in auto)
  show "no_new_edges (arena_put jobs i (j\<lparr>state := st\<rparr>)) jobs'"
    using assms(4)
  proof (rule no_new_edges_restated, intro ballI allI impI)
    fix x k assume x: "x \<in> set out" "arena_get (arena_put jobs i (j\<lparr>state := st\<rparr>)) x = Some k"
    with assms(1,3) waits_on_into_pending [of i x jobs] show "\<not> is_terminal (state k)"
      by (auto simp: arena_put_get dep_pending_def)
  qed
qed

lemma ending_calls_edges:
  assumes inv: "sched_inv s jobs"
  shows "sched_on_completed s i jobs now config = Some (s', jobs', out) \<Longrightarrow> no_new_edges jobs jobs'"
    and "on_failed s i jobs now config = Some (s', jobs', out') \<Longrightarrow> no_new_edges jobs jobs'"
    and "cancel s i jobs now config = Some (s', jobs', out') \<Longrightarrow> no_new_edges jobs jobs'"
proof -
  note E = lifecycle_errors [OF inv, of i]
  show "no_new_edges jobs jobs'" if r: "sched_on_completed s i jobs now config = Some (s', jobs', out)"
  proof (cases "arena_get jobs i")
    case (Some j)
    show ?thesis
    proof (cases "state j = Running \<or> state j = Preempted")
      case True
      from sched_on_completed_spec [OF inv Some True, of now config] r obtain xs where
        x: "set xs = {x. \<exists>k. arena_get jobs x = Some k \<and> state k = Blocked
                       \<and> (\<forall>d\<in>set (deps k). dep_pending jobs d \<longrightarrow> d = i)}"
          "restated Ready (set xs) (arena_put jobs i (j\<lparr>state := Completed\<rparr>)) jobs'" by auto
      have "no_new_edges (arena_put jobs i (j\<lparr>state := Completed\<rparr>)) jobs'"
        by (rule no_new_edges_restated [OF x(2)]) (use x(1) Some True in \<open>auto simp: arena_put_get\<close>)
      with no_new_edges_put [OF Some, of "j\<lparr>state := Completed\<rparr>"] show ?thesis
        by (auto intro: no_new_edges_trans)
    qed (use E(4) [OF Some] r in auto)
  qed (use E(1) r in auto)
  show "no_new_edges jobs jobs'" if r: "on_failed s i jobs now config = Some (s', jobs', out')"
  proof (cases "arena_get jobs i")
    case (Some j)
    show ?thesis
    proof (cases "state j = Running \<or> state j = Preempted")
      case True
      then have "\<not> is_terminal (state j)" by auto
      from on_failed_spec [OF inv Some True, of now config] r no_new_edges_cascade [OF Some this] show ?thesis by auto
    qed (use E(5) [OF Some] r in auto)
  qed (use E(2) r in auto)
  show "no_new_edges jobs jobs'" if r: "cancel s i jobs now config = Some (s', jobs', out')"
  proof (cases "arena_get jobs i")
    case (Some j)
    show ?thesis
    proof (cases "is_terminal (state j)")
      case False
      from cancel_spec [OF inv Some this, of now config] r no_new_edges_cascade [OF Some this] show ?thesis by auto
    qed (use E(6) [OF Some] r in auto)
  qed (use E(3) r in auto)
qed

lemma acyclic_fresh_target:
  assumes "acyclic r" and "i \<notin> Domain r" and "i \<notin> A"
  shows "acyclic (r \<union> A \<times> {i})"
proof (rule acyclicI, rule allI, rule notI)
  fix x assume "(x, x) \<in> (r \<union> A \<times> {i})\<^sup>+"
  moreover have "(x, y) \<in> r\<^sup>+ \<or> y = i \<and> x \<noteq> i" if "(x, y) \<in> (r \<union> A \<times> {i})\<^sup>+" for y
    using that
  proof (induction rule: trancl_induct)
    case (base y)
    with assms(2,3) show ?case by auto
  next
    case (step y z)
    moreover have "x \<noteq> i" using step.IH assms(2) by (auto dest: tranclD)
    ultimately show ?case using assms(2,3) by (auto intro: trancl_into_trancl)
  qed
  ultimately have "(x, x) \<in> r\<^sup>+" by auto
  with assms(1) show False by (simp add: acyclic_def)
qed

lemma check_submit_accepts:
  assumes "check_submit s i j jobs = Inr rd" and "rd \<noteq> Readiness_Cancelled" and "d \<in> set (deps j)"
  shows "d \<noteq> i \<and> (\<exists>k. arena_get jobs d = Some k \<and> state k \<noteq> Failed \<and> state k \<noteq> Cancelled)"
  using assms classify_loop_accepts [of i jobs "deps j" 0 rd]
  by (auto simp: check_submit_def classify_def split: if_splits sum.splits)

lemma submit_acyclic:
  assumes inv: "sched_inv s jobs" and ins: "arena_insert jobs j = Some (jobs1, i)"
    and chk: "check_submit s i j jobs = Inr rd" and ac: "acyclic (waits_on jobs)"
  shows "acyclic (waits_on (arena_put jobs1 i (j\<lparr>state := readiness_state rd\<rparr>)))" (is "acyclic (waits_on ?jobs)")
proof -
  note I = sched_invD [OF inv] note J = jobs_okD [OF I(1)]
  have get1: "arena_get jobs1 = (arena_get jobs)(i \<mapsto> j)" using arena_insert_get [OF J(1) ins] by auto
  have get: "arena_get ?jobs = (arena_get jobs)(i \<mapsto> j\<lparr>state := readiness_state rd\<rparr>)"
    by (rule ext) (simp add: arena_put_get get1)
  have fresh: "arena_get jobs i = None" using insert_not_issued [OF ins] live_issued by fastforce
  let ?A = "{a. a \<noteq> i}"
  have "waits_on ?jobs \<subseteq> waits_on jobs \<union> ?A \<times> {i}"
  proof (rule subrelI)
    fix a b assume ab: "(a, b) \<in> waits_on ?jobs"
    then obtain k where k: "arena_get ?jobs b = Some k" "\<not> is_terminal (state k)" "a \<in> set (deps k)"
      by (auto simp: waits_on_def dep_pending_def split: option.splits)
    show "(a, b) \<in> waits_on jobs \<union> ?A \<times> {i}"
    proof (cases "b = i")
      case True
      with k have "rd \<noteq> Readiness_Cancelled" by (auto simp: get)
      moreover have "a \<in> set (deps j)" using True k by (auto simp: get)
      ultimately have "a \<noteq> i" using check_submit_accepts [OF chk] by blast
      with True show ?thesis by simp
    next
      case False
      with k have b: "arena_get jobs b = Some k" by (simp add: get)
      from J(6) [OF b k(2,3)] insert_not_issued [OF ins] have "a \<noteq> i" by auto
      with False ab show ?thesis by (auto simp: waits_on_def dep_pending_def get)
    qed
  qed
  moreover have "i \<notin> Domain (waits_on jobs)" using fresh by (auto simp: waits_on_def dep_pending_def)
  ultimately show ?thesis using acyclic_fresh_target [OF ac, of i ?A] by (auto intro: acyclic_subset)
qed

lemma sched_run_edges:
  assumes "sched_inv s jobs"
  shows "restore_running s i jobs now config = Some (s', jobs', r) \<Longrightarrow> no_new_edges jobs jobs'"
    and "sched_preempt s i jobs = Some (s', jobs', r) \<Longrightarrow> no_new_edges jobs jobs'"
    and "on_preempted s i jobs now config = Some (s', jobs', r) \<Longrightarrow> no_new_edges jobs jobs'"
    and "map_option state (arena_get jobs i) \<noteq> Some Blocked \<Longrightarrow>
      requeue s i jobs now config = Some (s', jobs', r) \<Longrightarrow> no_new_edges jobs jobs'"
  using restore_running_spec [OF assms, of i now config] sched_preempt_spec [OF assms, of i]
    on_preempted_spec [OF assms, of i now config] requeue_spec [OF assms, of i now config]
  by (auto intro: no_new_edges_put split: option.splits if_splits)

lemma cycle_edges:
  assumes inv: "sched_inv s jobs" and "length (inv_slots iv) < 2 ^ 32"
    and "\<forall>i j. arena_get jobs i = Some j \<longrightarrow> state j = Ready \<longrightarrow> alloc_sound iv (request j)"
    and "run_cycle s jobs iv running now config decs = Some (s', jobs', iv', decs', co)"
  shows "no_new_edges jobs jobs'"
  using run_cycle_spec [OF assms(1,2), of running now config decs] assms(3,4)
  by (auto intro!: no_new_edges_restated)

lemma sched_run_acyclic: "sched_run s jobs \<Longrightarrow> acyclic (waits_on jobs)"
proof (induction rule: sched_run.induct)
  case (run_new n)
  have "arena_get (arena_new :: job arena) i = None" for i
    by (simp add: arena_get_def arena_new_def vec_get_def)
  then have "waits_on arena_new = {}" by (auto simp: waits_on_def)
  then show ?case by (simp add: acyclic_def)
next
  case (run_submit s jobs j jobs1 i rd now config s' jobs' r)
  note inv = sched_run_inv [OF run_submit.hyps(1)]
  from submit_spec [OF inv run_submit.hyps(2-6), of now config] run_submit.hyps(7)
  have "jobs' = arena_put jobs1 i (j\<lparr>state := readiness_state rd\<rparr>)" by auto
  with submit_acyclic [OF inv run_submit.hyps(2,4) run_submit.IH] show ?case by simp
next
  case (run_restore s jobs i now config s' jobs' r)
  from waits_on_mono [OF sched_run_edges(1) [OF sched_run_inv run_restore.hyps(2)]] run_restore
  show ?case by (auto intro: acyclic_subset)
next
  case (run_preempt s jobs i s' jobs' r)
  from waits_on_mono [OF sched_run_edges(2) [OF sched_run_inv run_preempt.hyps(2)]] run_preempt
  show ?case by (auto intro: acyclic_subset)
next
  case (run_preempted s jobs i now config s' jobs' r)
  from waits_on_mono [OF sched_run_edges(3) [OF sched_run_inv run_preempted.hyps(2)]] run_preempted
  show ?case by (auto intro: acyclic_subset)
next
  case (run_requeue s jobs i now config s' jobs' r)
  from waits_on_mono [OF sched_run_edges(4) [OF sched_run_inv run_requeue.hyps(2,3)]] run_requeue
  show ?case by (auto intro: acyclic_subset)
next
  case (run_completed s jobs i now config s' jobs' out)
  from waits_on_mono [OF ending_calls_edges(1) [OF sched_run_inv run_completed.hyps(2)]] run_completed
  show ?case by (auto intro: acyclic_subset)
next
  case (run_failed s jobs i now config s' jobs' out)
  from waits_on_mono [OF ending_calls_edges(2) [OF sched_run_inv run_failed.hyps(2)]] run_failed
  show ?case by (auto intro: acyclic_subset)
next
  case (run_cancel s jobs i now config s' jobs' out)
  from waits_on_mono [OF ending_calls_edges(3) [OF sched_run_inv run_cancel.hyps(2)]] run_cancel
  show ?case by (auto intro: acyclic_subset)
next
  case (run_forget s jobs i j)
  from waits_on_mono [OF no_new_edges_remove] run_forget show ?case by (auto intro: acyclic_subset)
next
  case (run_cycle s jobs iv running now config decs s' jobs' iv' decs' co)
  from waits_on_mono [OF cycle_edges [OF sched_run_inv run_cycle.hyps(2-4)]] run_cycle
  show ?case by (auto intro: acyclic_subset)
qed

lemma finite_live: "finite (dom (arena_get jobs))"
proof -
  have "inj_on dep_ix (dom (arena_get jobs))" by (rule inj_onI) (auto dest: live_index_inj)
  moreover have "dep_ix ` dom (arena_get jobs) \<subseteq> {..<length (arena_slots jobs)}"
    by (auto simp: arena_get_alt)
  ultimately show ?thesis by (meson finite_lessThan finite_subset inj_on_finite)
qed

lemma waits_on_wf: "sched_run s jobs \<Longrightarrow> wf (waits_on jobs)"
proof (rule finite_acyclic_wf)
  have "waits_on jobs \<subseteq> dom (arena_get jobs) \<times> dom (arena_get jobs)"
    by (auto simp: waits_on_def dep_pending_def split: option.splits)
  then show "finite (waits_on jobs)" by (rule finite_subset) (simp add: finite_live)
qed (rule sched_run_acyclic)

lemma blocked_iff_pending:
  assumes inv: "sched_inv s jobs" and j: "arena_get jobs i = Some j" "\<not> is_terminal (state j)"
  shows "state j = Blocked \<longleftrightarrow> (\<exists>d\<in>set (deps j). dep_pending jobs d)"
    and "d \<in> set (deps j) \<Longrightarrow> arena_get jobs d = Some k \<Longrightarrow> state k \<noteq> Failed \<and> state k \<noteq> Cancelled"
proof -
  note I = sched_invD [OF inv] note D = graph_invD [OF I(4)]
  have op: "open_job (dep_view jobs) x \<longleftrightarrow> dep_pending jobs x" for x by (rule open_pending [OF I(1)])
  have tr: "is_tracked (sc_deps s) i" using j by (simp add: D(2) op dep_pending_def)
  have v: "dep_view jobs i = Some (phase_of (state j), deps j)" by (simp add: dep_view_def j(1))
  have "phase_of (state j) = Waiting \<longleftrightarrow> state j = Blocked" by (cases "state j") simp_all
  with D(4) [OF tr v] D(5) [OF tr v]
  show "state j = Blocked \<longleftrightarrow> (\<exists>d\<in>set (deps j). dep_pending jobs d)"
    by (auto simp: filter_empty_conv D(2) op)
  show "state k \<noteq> Failed \<and> state k \<noteq> Cancelled" if "d \<in> set (deps j)" "arena_get jobs d = Some k"
    using D(6) [OF tr v that(1), of "deps k"] that(2) by (cases "state k") (simp_all add: dep_view_def)
qed

section \<open>A sample history\<close>

definition sample_cycle :: cycle_config where
  "sample_cycle = \<lparr>cc_priority = sample_config, cc_fairshare = fair_share_config_default,
     cc_preempt = preempt_config_default, cc_budget = pack_budget_default, max_candidates = 16\<rparr>"

definition sample_parent :: job where
  "sample_parent = job_new 1 Normal 0 sample_request 1"

definition sample_child :: job where
  "sample_child = (job_new 2 Normal 0 sample_request 1)\<lparr>deps := [0]\<rparr>"

text \<open>The arena after the parent is submitted, after the child is, and with the parent running.\<close>

definition arena_of :: "job list \<Rightarrow> job arena" where
  "arena_of js = \<lparr>arena_slots = map (Occupied 0) js, arena_free_head = None, arena_len = length js\<rparr>"

definition arena_parent :: "job arena" where
  "arena_parent = arena_of [sample_parent\<lparr>state := Ready\<rparr>]"

definition arena_chain :: "job arena" where
  "arena_chain = arena_of [sample_parent\<lparr>state := Ready\<rparr>, sample_child\<lparr>state := Blocked\<rparr>]"

definition arena_running :: "job arena" where
  "arena_running = arena_of [sample_parent\<lparr>state := Running\<rparr>, sample_child\<lparr>state := Blocked\<rparr>]"

lemma sample_get:
  "arena_get arena_chain 0 = Some (sample_parent\<lparr>state := Ready\<rparr>)"
  "arena_get arena_chain 1 = Some (sample_child\<lparr>state := Blocked\<rparr>)"
  "arena_get arena_running 0 = Some (sample_parent\<lparr>state := Running\<rparr>)"
  "arena_get arena_running 1 = Some (sample_child\<lparr>state := Blocked\<rparr>)"
  by code_simp+

lemma submit_run:
  assumes "sched_run s jobs" and "arena_insert jobs j = Some (jobs1, i)" and "state j = Submitted"
    and "check_submit s i j jobs = Inr rd" and "length (deps j) < 2 ^ 32"
    and "length (arena_slots jobs1) < 2 ^ 32 - 1"
  shows "\<exists>s'. sched_run s' (arena_put jobs1 i (j\<lparr>state := readiness_state rd\<rparr>))"
  using submit_spec [OF sched_run_inv [OF assms(1)] assms(2-6), of 0 sample_cycle] run_submit [OF assms]
  by blast

lemma sample_histories:
  shows "\<exists>s. sched_run s arena_parent" and "\<exists>s. sched_run s arena_chain" and "\<exists>s. sched_run s arena_running"
proof -
  have new: "state sample_parent = Submitted" "state sample_child = Submitted" "deps sample_parent = []"
    "deps sample_child = [0]"
    by (simp_all add: sample_parent_def sample_child_def job_new_def)
  have sz: "length (arena_slots (arena_of js)) = length js" for js by (simp add: arena_of_def)
  have p: "arena_insert arena_new sample_parent = Some (arena_of [sample_parent], 0)" by code_simp
  have c: "arena_insert arena_parent sample_child
      = Some (arena_of [sample_parent\<lparr>state := Ready\<rparr>, sample_child], 1)" by code_simp
  have ck: "check_submit s 0 sample_parent arena_new = Inr Readiness_Ready"
    "check_submit s 1 sample_child arena_parent = Inr Readiness_Blocked" for s by code_simp+
  have put: "arena_put (arena_of [sample_parent]) 0 (sample_parent\<lparr>state := Ready\<rparr>) = arena_parent"
    "arena_put (arena_of [sample_parent\<lparr>state := Ready\<rparr>, sample_child]) 1 (sample_child\<lparr>state := Blocked\<rparr>)
      = arena_chain"
    "arena_put arena_chain 0 (sample_parent\<lparr>state := Running\<rparr>) = arena_running" by code_simp+
  have "sched_run (scheduler_with_slots 4) arena_new" by (rule run_new) simp
  from submit_run [OF this p _ ck(1)] show P: "\<exists>s. sched_run s arena_parent"
    by (simp add: new put sz)
  then obtain s where s: "sched_run s arena_parent" ..
  from submit_run [OF this c _ ck(2)] show C: "\<exists>s. sched_run s arena_chain"
    by (simp add: new put sz)
  then obtain s where s: "sched_run s arena_chain" ..
  from restore_running_spec [OF sched_run_inv [OF s], of 0 0 sample_cycle] obtain s' where
    "restore_running s 0 arena_chain 0 sample_cycle = Some (s', arena_running, Inr ())"
    by (auto simp: sample_get put)
  from run_restore [OF s this] show "\<exists>s. sched_run s arena_running" ..
qed

section \<open>Properties\<close>





text \<open>
  C7. A cycle on a reachable state returns; the decisions it appends name distinct ready jobs, in an
  order in which the inventory takes every allocation; exactly these jobs become running, no other
  job changes, and the scheduler stays consistent. The inventory is one the daemon can reach, and no
  ready job asks for nothing.
\<close>

theorem cycle_starts_decisions:
  assumes "sched_run s jobs" and "inventory_run iv" and "length (inv_slots iv) < 2 ^ 32"
    and "\<forall>i j. arena_get jobs i = Some j \<longrightarrow> state j = Ready \<longrightarrow> request j \<noteq> ZERO"
  shows "\<exists>s' jobs' iv' new out.
     run_cycle s jobs iv running now config decs = Some (s', jobs', iv', decs @ new, out)
     \<and> sched_run s' jobs' \<and> distinct (map dec_job new) \<and> allocate_all jobs iv new = Some iv'
     \<and> (\<forall>d\<in>set new. \<exists>j. arena_get jobs (dec_job d) = Some j \<and> state j = Ready)
     \<and> (\<forall>i. arena_get jobs' i = (if i \<in> dec_job ` set new
            then map_option (\<lambda>j. j\<lparr>state := Running\<rparr>) (arena_get jobs i) else arena_get jobs i))"
proof -
  have snd: "\<forall>i j. arena_get jobs i = Some j \<longrightarrow> state j = Ready \<longrightarrow> alloc_sound iv (request j)"
    using assms(2,4) inventory_run_drained drained_or_within_sound by blast
  from run_cycle_spec [OF sched_run_inv [OF assms(1)] assms(3), of running now config decs] snd
  show ?thesis unfolding restated_def using run_cycle [OF assms(1,3) snd] by blast
qed

theorem cycle_starts_decisions_witness:
  "\<exists>s s' jobs' iv' new out. run_cycle s arena_chain sample_inventory [] 0 sample_cycle []
       = Some (s', jobs', iv', [] @ new, out)
     \<and> sched_run s' jobs' \<and> allocate_all arena_chain sample_inventory new = Some iv'"
proof -
  obtain s where s: "sched_run s arena_chain" using sample_histories(2) ..
  have "inventory_run sample_inventory" unfolding sample_inventory_def by (rule run_capacities) simp
  moreover have "length (inv_slots sample_inventory) < 2 ^ 32"
    by (simp add: sample_inventory_def from_capacities_def)
  moreover have "\<forall>i j. arena_get arena_chain i = Some j \<longrightarrow> state j = Ready \<longrightarrow> request j \<noteq> ZERO"
  proof (intro allI impI)
    fix i j assume "arena_get arena_chain i = Some j"
    then have "request j = sample_request"
      by (auto simp: arena_chain_def arena_of_def arena_get_alt less_Suc_eq sample_parent_def sample_child_def
          job_new_def numeral_2_eq_2)
    then show "request j \<noteq> ZERO" by (simp add: sample_request_def ZERO_def)
  qed
  ultimately show ?thesis
    using cycle_starts_decisions [OF s, of sample_inventory "[]" 0 sample_cycle "[]"] by blast
qed

text \<open>
  C15. No call panics in a reachable state, whatever handle, time and configuration it gets.
  \<open>requeue\<close> is covered for jobs that are not blocked, and a submission for one its check accepts.
\<close>

theorem scheduler_never_panics:
  assumes "sched_run s jobs"
  shows "restore_running s i jobs now config \<noteq> None \<and> sched_preempt s i jobs \<noteq> None
     \<and> on_preempted s i jobs now config \<noteq> None \<and> sched_on_completed s i jobs now config \<noteq> None
     \<and> on_failed s i jobs now config \<noteq> None \<and> cancel s i jobs now config \<noteq> None
     \<and> sched_set_shares s a sh \<noteq> None
     \<and> (map_option state (arena_get jobs i) \<noteq> Some Blocked \<longrightarrow> requeue s i jobs now config \<noteq> None)
     \<and> (\<forall>j jobs1 x rd. arena_insert jobs j = Some (jobs1, x) \<longrightarrow> state j = Submitted \<longrightarrow>
          check_submit s x j jobs = Inr rd \<longrightarrow> length (deps j) < 2 ^ 32 \<longrightarrow>
          length (arena_slots jobs1) < 2 ^ 32 - 1 \<longrightarrow> submit s x jobs1 now config \<noteq> None)"
proof -
  note inv = sched_run_inv [OF assms]
  have "submit s x jobs1 now config \<noteq> None"
    if "arena_insert jobs j = Some (jobs1, x)" "state j = Submitted" "check_submit s x j jobs = Inr rd"
      "length (deps j) < 2 ^ 32" "length (arena_slots jobs1) < 2 ^ 32 - 1" for j jobs1 x rd
    using submit_spec [OF inv that, of now config] by auto
  moreover have "map_option state (arena_get jobs i) \<noteq> Some Blocked \<longrightarrow> requeue s i jobs now config \<noteq> None"
    using requeue_spec [OF inv, of i now config] by auto
  ultimately show ?thesis
    using restore_running_spec [OF inv, of i now config] sched_preempt_spec [OF inv, of i]
      on_preempted_spec [OF inv, of i now config] ending_calls_inv [OF inv, of i now config]
      set_shares_spec [OF inv, of a sh] by fast
qed

theorem scheduler_never_panics_witness: "\<exists>s. sched_run s arena_running \<and> cancel s 0 arena_running 9 sample_cycle \<noteq> None"
proof -
  obtain s where "sched_run s arena_running" using sample_histories(3) ..
  with scheduler_never_panics [OF this] show ?thesis by blast
qed

text \<open>
  C12. Completing a running or preempted job makes ready exactly the blocked jobs for which it was
  the last open dependency, lists each of them once, and changes no other job.
\<close>

theorem completion_effect:
  assumes "sched_run s jobs" and "arena_get jobs i = Some j" and "state j = Running \<or> state j = Preempted"
  shows "\<exists>s' jobs' out. sched_on_completed s i jobs now config = Some (s', jobs', Inr out)
     \<and> sched_run s' jobs' \<and> distinct out
     \<and> set out = {x. \<exists>k. arena_get jobs x = Some k \<and> state k = Blocked
                       \<and> (\<forall>d\<in>set (deps k). dep_pending jobs d \<longrightarrow> d = i)}
     \<and> (\<forall>x. arena_get jobs' x = (if x = i then Some (j\<lparr>state := Completed\<rparr>)
            else if x \<in> set out then map_option (\<lambda>k. k\<lparr>state := Ready\<rparr>) (arena_get jobs x)
            else arena_get jobs x))"
proof -
  from sched_on_completed_spec [OF sched_run_inv [OF assms(1)] assms(2,3), of now config] obtain s' jobs' out where
    r: "sched_on_completed s i jobs now config = Some (s', jobs', Inr out)" "distinct out"
      "set out = {x. \<exists>k. arena_get jobs x = Some k \<and> state k = Blocked
                       \<and> (\<forall>d\<in>set (deps k). dep_pending jobs d \<longrightarrow> d = i)}"
      "restated Ready (set out) (arena_put jobs i (j\<lparr>state := Completed\<rparr>)) jobs'" by blast
  from r(3) assms(2,3) have "i \<notin> set out" by auto
  with r(4) assms(2) have "\<forall>x. arena_get jobs' x = (if x = i then Some (j\<lparr>state := Completed\<rparr>)
            else if x \<in> set out then map_option (\<lambda>k. k\<lparr>state := Ready\<rparr>) (arena_get jobs x)
            else arena_get jobs x)" by (auto simp: restated_def arena_put_get)
  with r run_completed [OF assms(1) r(1)] show ?thesis by blast
qed

theorem completion_effect_witness:
  "\<exists>s s' jobs' out. sched_on_completed s 0 arena_running 5 sample_cycle = Some (s', jobs', Inr out)
     \<and> 1 \<in> set out \<and> map_option state (arena_get jobs' 1) = Some Ready"
proof -
  obtain s where s: "sched_run s arena_running" using sample_histories(3) ..
  from completion_effect [OF s sample_get(3), of 5 sample_cycle] obtain s' jobs' out where
    r: "sched_on_completed s 0 arena_running 5 sample_cycle = Some (s', jobs', Inr out)"
      "set out = {x. \<exists>k. arena_get arena_running x = Some k \<and> state k = Blocked
                       \<and> (\<forall>d\<in>set (deps k). dep_pending arena_running d \<longrightarrow> d = 0)}"
      "\<forall>x. arena_get jobs' x = (if x = 0 then Some (sample_parent\<lparr>state := Running, state := Completed\<rparr>)
            else if x \<in> set out then map_option (\<lambda>k. k\<lparr>state := Ready\<rparr>) (arena_get arena_running x)
            else arena_get arena_running x)" by auto
  have "1 \<in> set out" unfolding r(2) by (simp add: sample_get) (simp add: sample_child_def)
  with r(3) have "map_option state (arena_get jobs' 1) = Some Ready" by (simp add: sample_get)
  with r(1) \<open>1 \<in> set out\<close> show ?thesis by blast
qed

text \<open>
  C13. The failure of a running or preempted job, and the cancellation of any job that has not ended,
  cancels exactly the jobs that wait on it, directly or through others; each is listed once, and no
  other job changes.
\<close>

theorem termination_cascades:
  assumes "sched_run s jobs" and "arena_get jobs i = Some j" and "\<not> is_terminal (state j)"
    and "call = cancel \<and> st = Cancelled \<or> call = on_failed \<and> st = Failed \<and> (state j = Running \<or> state j = Preempted)"
  shows "\<exists>s' jobs' out. call s i jobs now config = Some (s', jobs', Inr out)
     \<and> sched_run s' jobs' \<and> distinct out
     \<and> set out = {x. x \<noteq> i \<and> (i, x) \<in> (waits_on jobs)\<^sup>*}
     \<and> (\<forall>x. arena_get jobs' x = (if x = i then Some (j\<lparr>state := st\<rparr>)
            else if x \<in> set out then map_option (\<lambda>k. k\<lparr>state := Cancelled\<rparr>) (arena_get jobs x)
            else arena_get jobs x))"
proof -
  note inv = sched_run_inv [OF assms(1)]
  from assms(4) cancel_spec [OF inv assms(2,3), of now config] on_failed_spec [OF inv assms(2), of now config]
  obtain s' jobs' out where
    r: "call s i jobs now config = Some (s', jobs', Inr out)" "distinct out"
      "set out = {x. x \<noteq> i \<and> (i, x) \<in> (waits_on jobs)\<^sup>*}"
      "restated Cancelled (set out) (arena_put jobs i (j\<lparr>state := st\<rparr>)) jobs'" by blast
  from r(1) assms(4) have "sched_run s' jobs'" using run_cancel [OF assms(1)] run_failed [OF assms(1)] by blast
  moreover from r(3,4) assms(2) have "\<forall>x. arena_get jobs' x = (if x = i then Some (j\<lparr>state := st\<rparr>)
            else if x \<in> set out then map_option (\<lambda>k. k\<lparr>state := Cancelled\<rparr>) (arena_get jobs x)
            else arena_get jobs x)" by (auto simp: restated_def arena_put_get)
  ultimately show ?thesis using r by blast
qed

theorem termination_cascades_witness:
  "\<exists>s s' jobs' out. on_failed s 0 arena_running 5 sample_cycle = Some (s', jobs', Inr out)
     \<and> sched_run s' jobs' \<and> 1 \<in> set out"
proof -
  obtain s where s: "sched_run s arena_running" using sample_histories(3) ..
  have "(0, 1) \<in> waits_on arena_running"
    by (simp add: waits_on_def dep_pending_def sample_get) (simp add: sample_child_def)
  then have one: "1 \<in> {x. x \<noteq> 0 \<and> (0, x) \<in> (waits_on arena_running)\<^sup>*}" by auto
  from termination_cascades [OF s sample_get(3), of on_failed Failed 5 sample_cycle] obtain s' jobs' out where
    "on_failed s 0 arena_running 5 sample_cycle = Some (s', jobs', Inr out)" "sched_run s' jobs'"
    "set out = {x. x \<noteq> 0 \<and> (0, x) \<in> (waits_on arena_running)\<^sup>*}" by auto
  with one show ?thesis by blast
qed

text \<open>
  C14. A submission that its check accepts succeeds. Unless the job is cancelled on arrival, all its
  dependencies name live jobs that have neither failed nor been cancelled, and it starts blocked
  exactly if one of them is still open; it is cancelled only for a failed or cancelled dependency.
  A refused check names an account out of range or a dependency that is the job itself or unknown.
\<close>

theorem submission_classified:
  assumes "sched_run s jobs" and "arena_insert jobs j = Some (jobs1, i)" and "state j = Submitted"
    and "length (deps j) < 2 ^ 32" and "length (arena_slots jobs1) < 2 ^ 32 - 1"
  shows "case check_submit s i j jobs of
      Inl e \<Rightarrow> (e = Account (AccountError (account j)) \<and> MAX_ACCOUNTS \<le> account j)
        \<or> (\<exists>d\<in>set (deps j). e = Dependency (DependencyError i d) \<and> (d = i \<or> arena_get jobs d = None))
    | Inr rd \<Rightarrow> (\<exists>s' st. submit s i jobs1 now config = Some (s', arena_put jobs1 i (j\<lparr>state := st\<rparr>), Inr st)
        \<and> sched_run s' (arena_put jobs1 i (j\<lparr>state := st\<rparr>))
        \<and> (if \<exists>d\<in>set (deps j). \<exists>k. arena_get jobs d = Some k \<and> (state k = Failed \<or> state k = Cancelled)
           then st = Cancelled
           else (\<forall>d\<in>set (deps j). arena_get jobs d \<noteq> None)
             \<and> st = (if \<exists>d\<in>set (deps j). dep_pending jobs d then Blocked else Ready)))"
proof (cases "check_submit s i j jobs")
  case (Inl e)
  then consider "e = Account (AccountError (account j))" "MAX_ACCOUNTS \<le> account j"
    | x where "e = Dependency x" "classify_loop i jobs (deps j) 0 = Inl x"
    by (auto simp: check_submit_def classify_def split: if_splits sum.splits)
  then show ?thesis
  proof cases
    case (2 x)
    from classify_loop_rejects [OF 2(2)] 2(1) Inl show ?thesis by (cases x) auto
  qed (simp add: Inl)
next
  case (Inr rd)
  note inv = sched_run_inv [OF assms(1)]
  from submit_spec [OF inv assms(2,3) Inr assms(4,5), of now config] obtain s' where
    r: "submit s i jobs1 now config = Some (s', arena_put jobs1 i (j\<lparr>state := readiness_state rd\<rparr>),
        Inr (readiness_state rd))" by blast
  from run_submit [OF assms(1-3) Inr assms(4,5) r]
  have run: "sched_run s' (arena_put jobs1 i (j\<lparr>state := readiness_state rd\<rparr>))" .
  from Inr have c: "classify_loop i jobs (deps j) 0 = Inr rd"
    by (auto simp: check_submit_def classify_def split: if_splits sum.splits)
  have w: "word_of_nat (length (filter P (deps j))) = (0 :: u32) \<longleftrightarrow> (\<forall>d\<in>set (deps j). \<not> P d)" for P
  proof -
    have "length (filter P (deps j)) < 2 ^ 32" using assms(4) length_filter_le [of P "deps j"] by linarith
    then have "word_of_nat (length (filter P (deps j))) = (0 :: u32) \<longleftrightarrow> length (filter P (deps j)) = 0"
      by (simp add: unat_of_nat word_unat_eq_iff)
    then show ?thesis by (simp add: filter_empty_conv)
  qed
  have "if \<exists>d\<in>set (deps j). \<exists>k. arena_get jobs d = Some k \<and> (state k = Failed \<or> state k = Cancelled)
     then readiness_state rd = Cancelled
     else (\<forall>d\<in>set (deps j). arena_get jobs d \<noteq> None)
       \<and> readiness_state rd = (if \<exists>d\<in>set (deps j). dep_pending jobs d then Blocked else Ready)"
  proof (cases "rd = Readiness_Cancelled")
    case True
    with c classify_loop_dooms [of i jobs "deps j" 0] show ?thesis by auto
  next
    case False
    note A = classify_loop_accepts [OF c this]
    then have "\<not> (\<exists>d\<in>set (deps j). \<exists>k. arena_get jobs d = Some k \<and> (state k = Failed \<or> state k = Cancelled))"
      "\<forall>d\<in>set (deps j). arena_get jobs d \<noteq> None" by auto
    moreover have "readiness_state rd = (if \<exists>d\<in>set (deps j). dep_pending jobs d then Blocked else Ready)"
      using A w [of "dep_pending jobs"] by auto
    ultimately show ?thesis by simp
  qed
  with r run show ?thesis
    unfolding Inr sum.case by (intro exI [of _ s'] exI [of _ "readiness_state rd"] conjI)
qed

theorem submission_classified_witness:
  "\<exists>s s' st jobs1 i. arena_insert arena_chain sample_child = Some (jobs1, i)
     \<and> submit s i jobs1 3 sample_cycle = Some (s', arena_put jobs1 i (sample_child\<lparr>state := st\<rparr>), Inr st)
     \<and> st = Blocked"
proof -
  obtain s where s: "sched_run s arena_chain" using sample_histories(2) ..
  define jobs1 where "jobs1 = arena_of [sample_parent\<lparr>state := Ready\<rparr>, sample_child\<lparr>state := Blocked\<rparr>, sample_child]"
  have ins: "arena_insert arena_chain sample_child = Some (jobs1, 2)" unfolding jobs1_def by code_simp
  have chk: "check_submit s 2 sample_child arena_chain = Inr Readiness_Blocked" by code_simp
  have new: "state sample_child = Submitted" "deps sample_child = [0]"
    by (simp_all add: sample_child_def job_new_def)
  have "length (arena_slots jobs1) < 2 ^ 32 - 1" by (simp add: jobs1_def arena_of_def)
  from submission_classified [OF s ins new(1) _ this, of 3 sample_cycle] ins show ?thesis
    by (auto simp: chk new sample_get dep_pending_def)
qed

text \<open>
  C40. \<open>requeue\<close> does not refuse a job that is not running: a blocked job is put into the ready set
  while one of its dependencies is still open, and its account is released cpu it never held.
\<close>

theorem requeue_accepts_blocked:
  assumes "sched_run s jobs" and "arena_get jobs i = Some j" and "state j = Blocked"
  shows "\<exists>s'. requeue s i jobs now config = Some (s', arena_put jobs i (j\<lparr>state := Ready\<rparr>), Inr ())
     \<and> (priority_class j, i) \<in> ready_ids (sc_ready s')
     \<and> sc_fairshare s' = on_release (sc_fairshare s) (account j) (cpu_millis (request j)) now (cc_fairshare config)
     \<and> (\<exists>d\<in>set (deps j). dep_pending (arena_put jobs i (j\<lparr>state := Ready\<rparr>)) d)"
proof -
  note inv = sched_run_inv [OF assms(1)] note I = sched_invD [OF inv] note J = jobs_okD [OF I(1)]
  have "snd ` ready_ids (sc_ready s) \<subseteq> dom (arena_get jobs)" using I(3) waiting_live by simp
  then obtain r where
    "enqueue (sched_release s (j\<lparr>state := Ready\<rparr>) now config) i (j\<lparr>state := Ready\<rparr>) now config
       = Some (sched_release s (j\<lparr>state := Ready\<rparr>) now config \<lparr>sc_ready := r\<rparr>)"
    "ready_ids r = insert (priority_class j, i) (ready_ids (sc_ready s))"
    using enqueue_spec [of "sched_release s (j\<lparr>state := Ready\<rparr>) now config" jobs i "j\<lparr>state := Ready\<rparr>" now config,
        OF _ J(2)] I(2) assms(2)
    by (auto simp: sched_release_def)
  moreover have "\<exists>d\<in>set (deps j). dep_pending (arena_put jobs i (j\<lparr>state := Ready\<rparr>)) d"
  proof -
    have "dep_pending (arena_put jobs i (j\<lparr>state := Ready\<rparr>)) d \<longleftrightarrow> dep_pending jobs d" for d
      using assms(2,3) by (simp add: dep_pending_def arena_put_get)
    with blocked_iff_pending(1) [OF inv assms(2)] assms(3) show ?thesis by simp
  qed
  ultimately show ?thesis
    using assms(2,3) arena_put_put [OF assms(2)]
    by (simp add: requeue_def try_transition_def Let_def sched_release_def)
qed

theorem requeue_accepts_blocked_witness:
  "\<exists>s s'. requeue s 1 arena_chain 3 sample_cycle
     = Some (s', arena_put arena_chain 1 (sample_child\<lparr>state := Blocked, state := Ready\<rparr>), Inr ())"
proof -
  obtain s where "sched_run s arena_chain" using sample_histories(2) ..
  from requeue_accepts_blocked [OF this sample_get(2), of 3 sample_cycle] show ?thesis by auto
qed

end
