(* ===== verification/Codec.thy ===== *)
theory Codec
  imports Tasker_Prelude
begin

text \<open>
  Little-endian byte cursors (\<open>tasker-wal/src/codec.rs\<close>). A writer appends to a buffer; it returns
  \<open>None\<close> where the code panics. A reader takes a cursor and returns an error or a value and the
  advanced cursor; every caller propagates the error, so the cursor is not returned with it. The
  locale \<open>codec\<close> is the contract between the writer and the reader of a type: reading what was
  written gives the value back and stops right behind it. Its lemmas give the same for sequences.
\<close>

section \<open>Bytes of a word\<close>

text \<open>\<open>to_le_bytes\<close> and \<open>from_le_bytes\<close> of the standard library, for words of \<open>n\<close> bytes.\<close>

definition le_bytes :: "nat \<Rightarrow> 'a::len word \<Rightarrow> u8 list" where
  "le_bytes n w = map (\<lambda>k. ucast (drop_bit (8 * k) w)) [0..<n]"

definition from_le :: "u8 list \<Rightarrow> 'a::len word" where
  "from_le bs = foldr (\<lambda>b acc. push_bit 8 acc OR ucast b) bs 0"

lemma length_le_bytes [simp]: "length (le_bytes n w) = n"
  by (simp add: le_bytes_def)

lemma le_bytes_0 [simp]: "le_bytes 0 w = []"
  by (simp add: le_bytes_def)

lemma le_bytes_Suc: "le_bytes (Suc n) w = ucast w # le_bytes n (drop_bit 8 w)"
  unfolding le_bytes_def by (simp add: upt_conv_Cons map_Suc_upt [symmetric] del: upt_Suc) (simp add: add.commute)

lemma from_le_bytes: "from_le (le_bytes n w) = take_bit (8 * n) w"
proof (induction n arbitrary: w)
  case 0
  then show ?case by (simp add: from_le_def)
next
  case (Suc n)
  then have "from_le (le_bytes (Suc n) w) = push_bit 8 (take_bit (8 * n) (drop_bit 8 w)) OR ucast (ucast w :: u8)"
    by (simp add: le_bytes_Suc from_le_def)
  also have "\<dots> = take_bit (8 * Suc n) w"
    by (rule bit_word_eqI) (auto simp: bit_simps)
  finally show ?case .
qed

lemma le_bytes_from_le:
  assumes "length bs = n" and "8 * n \<le> LENGTH('a)"
  shows "le_bytes n (from_le bs :: 'a::len word) = bs"
  using assms
proof (induction bs arbitrary: n)
  case (Cons b bs)
  then obtain m where n: "n = Suc m" "length bs = m" "8 + 8 * m \<le> LENGTH('a)" by (cases n) auto
  let ?w = "from_le bs :: 'a word"
  have w: "from_le (b # bs) = push_bit 8 ?w OR ucast b" by (simp add: from_le_def)
  have 1: "ucast (push_bit 8 ?w OR ucast b) = b"
    by (rule bit_word_eqI) (use n(3) in \<open>auto simp: bit_simps\<close>)
  have 2: "drop_bit 8 (push_bit 8 ?w OR ucast b) = take_bit (LENGTH('a) - 8) ?w"
    by (rule bit_word_eqI) (use n(3) in \<open>auto simp: bit_simps dest: bit_imp_le_length\<close>)
  have 3: "le_bytes m (take_bit (LENGTH('a) - 8) ?w) = le_bytes m ?w"
    unfolding le_bytes_def
    by (rule map_cong [OF refl], rule bit_word_eqI) (use n(3) in \<open>auto simp: bit_simps\<close>)
  show ?case unfolding n(1) w le_bytes_Suc 1 2 3 using Cons.IH [of m] n by simp
qed simp

lemma from_le_bytes_u32 [simp]: "from_le (le_bytes 4 w) = w" for w :: u32
  by (simp add: from_le_bytes take_bit_word_eq_self)

lemma from_le_bytes_u64 [simp]: "from_le (le_bytes 8 w) = w" for w :: u64
  by (simp add: from_le_bytes take_bit_word_eq_self)

section \<open>Writers\<close>

definition put_u8 :: "u8 list \<Rightarrow> u8 \<Rightarrow> u8 list" where
  "put_u8 buf v = buf @ [v]"

definition put_u32 :: "u8 list \<Rightarrow> u32 \<Rightarrow> u8 list" where
  "put_u32 buf v = buf @ le_bytes 4 v"

definition put_u64 :: "u8 list \<Rightarrow> u64 \<Rightarrow> u8 list" where
  "put_u64 buf v = buf @ le_bytes 8 v"

definition put_bytes :: "u8 list \<Rightarrow> u8 list \<Rightarrow> u8 list option" where
  "put_bytes buf bytes = do { n \<leftarrow> expect_u32 (length bytes); Some (put_u32 buf n @ bytes) }"

definition put_opt_u32 :: "u8 list \<Rightarrow> u32 option \<Rightarrow> u8 list" where
  "put_opt_u32 buf v = (case v of Some x \<Rightarrow> put_u32 (put_u8 buf 1) x | None \<Rightarrow> put_u8 buf 0)"

section \<open>Readers\<close>

datatype codec_error = Truncated nat | BadTag u8 nat

record cursor =
  cur_buf :: "u8 list"
  cur_pos :: nat

type_synonym 'a reader = "cursor \<Rightarrow> codec_error + 'a \<times> cursor"

text \<open>The operator \<open>?\<close>: an error is returned at once.\<close>

definition and_then :: "'e + 'a \<Rightarrow> ('a \<Rightarrow> 'e + 'b) \<Rightarrow> 'e + 'b" where
  "and_then r f = (case r of Inl e \<Rightarrow> Inl e | Inr x \<Rightarrow> f x)"

lemma and_then_simps [simp]: "and_then (Inl e) f = Inl e" "and_then (Inr x) f = f x"
  by (simp_all add: and_then_def)

lemma and_then_Inr_iff: "and_then r f = Inr y \<longleftrightarrow> (\<exists>x. r = Inr x \<and> f x = Inr y)"
  by (cases r) simp_all

definition cursor_new :: "u8 list \<Rightarrow> cursor" where
  "cursor_new buf = \<lparr>cur_buf = buf, cur_pos = 0\<rparr>"

definition cursor_take :: "nat \<Rightarrow> u8 list reader" where
  "cursor_take n c =
     (let end_pos = cur_pos c + n in
      if end_pos \<le> length (cur_buf c)
      then Inr (take n (drop (cur_pos c) (cur_buf c)), c\<lparr>cur_pos := end_pos\<rparr>)
      else Inl (Truncated (cur_pos c)))"

definition get_u8 :: "u8 reader" where
  "get_u8 c = and_then (cursor_take 1 c) (\<lambda>(b, c). Inr (hd b, c))"

definition get_u32 :: "u32 reader" where
  "get_u32 c = and_then (cursor_take 4 c) (\<lambda>(b, c). Inr (from_le b, c))"

definition get_u64 :: "u64 reader" where
  "get_u64 c = and_then (cursor_take 8 c) (\<lambda>(b, c). Inr (from_le b, c))"

definition get_bytes :: "u8 list reader" where
  "get_bytes c = and_then (get_u32 c) (\<lambda>(n, c). cursor_take (unat n) c)"

definition get_tag :: "u8 \<Rightarrow> u8 reader" where
  "get_tag mx c =
     (let at = cur_pos c in
      and_then (get_u8 c) (\<lambda>(tag, c). if tag > mx then Inl (BadTag tag at) else Inr (tag, c)))"

definition get_opt_u32 :: "u32 option reader" where
  "get_opt_u32 c =
     and_then (get_tag 1 c) (\<lambda>(tag, c).
       if tag = 0 then Inr (None, c)
       else and_then (get_u32 c) (\<lambda>(x, c). Inr (Some x, c)))"

section \<open>Loops over counted sequences\<close>

text \<open>\<open>for _ in 0..n { v.push(get()?) }\<close> and \<open>for x in xs { put(buf, x) }\<close>.\<close>

fun get_n :: "nat \<Rightarrow> 'a reader \<Rightarrow> 'a list reader" where
  "get_n 0 get c = Inr ([], c)"
| "get_n (Suc n) get c =
     and_then (get c) (\<lambda>(x, c). and_then (get_n n get c) (\<lambda>(xs, c). Inr (x # xs, c)))"

fun put_all :: "(u8 list \<Rightarrow> 'a \<Rightarrow> u8 list option) \<Rightarrow> u8 list \<Rightarrow> 'a list \<Rightarrow> u8 list option" where
  "put_all put buf [] = Some buf"
| "put_all put buf (x # xs) = do { buf \<leftarrow> put buf x; put_all put buf xs }"

section \<open>Reading back\<close>

definition rest :: "cursor \<Rightarrow> u8 list" where
  "rest c = drop (cur_pos c) (cur_buf c)"

definition cursor_ok :: "cursor \<Rightarrow> bool" where
  "cursor_ok c \<longleftrightarrow> cur_pos c \<le> length (cur_buf c)"

definition advance :: "cursor \<Rightarrow> nat \<Rightarrow> cursor" where
  "advance c n = c\<lparr>cur_pos := cur_pos c + n\<rparr>"

definition reads :: "'a reader \<Rightarrow> u8 list \<Rightarrow> 'a \<Rightarrow> bool" where
  "reads get bs x \<longleftrightarrow> (\<forall>c r. cursor_ok c \<longrightarrow> rest c = bs @ r \<longrightarrow> get c = Inr (x, advance c (length bs)))"

lemma readsI: "(\<And>c r. cursor_ok c \<Longrightarrow> rest c = bs @ r \<Longrightarrow> get c = Inr (x, advance c (length bs))) \<Longrightarrow> reads get bs x"
  by (simp add: reads_def)

lemma readsD: "reads get bs x \<Longrightarrow> cursor_ok c \<Longrightarrow> rest c = bs @ r \<Longrightarrow> get c = Inr (x, advance c (length bs))"
  by (simp add: reads_def)

lemma rest_advance [simp]: "rest (advance c n) = drop n (rest c)"
  by (simp add: rest_def advance_def add.commute)

lemma advance_advance [simp]: "advance (advance c m) n = advance c (m + n)"
  by (simp add: advance_def add.assoc)

lemma advance_0 [simp]: "advance c 0 = c"
  by (simp add: advance_def)

lemma cursor_ok_advance [simp]: "cursor_ok c \<Longrightarrow> n \<le> length (rest c) \<Longrightarrow> cursor_ok (advance c n)"
  by (auto simp: cursor_ok_def advance_def rest_def)

lemma cursor_new_ok [simp]: "cursor_ok (cursor_new buf)" "rest (cursor_new buf) = buf"
  by (simp_all add: cursor_ok_def cursor_new_def rest_def)

lemma cursor_take_rest:
  "cursor_take n c = (if cur_pos c + n \<le> length (cur_buf c) then Inr (take n (rest c), advance c n)
     else Inl (Truncated (cur_pos c)))"
  by (simp add: cursor_take_def rest_def advance_def Let_def)

lemma take_reads: "length bs = n \<Longrightarrow> reads (cursor_take n) bs bs"
proof (rule readsI)
  fix c r assume n: "length bs = n" and c: "cursor_ok c" and r: "rest c = bs @ r"
  from r have "length (cur_buf c) - cur_pos c = length bs + length r"
    by (metis length_append length_drop rest_def)
  with c n r show "cursor_take n c = Inr (bs, advance c (length bs))"
    by (simp add: cursor_take_rest cursor_ok_def)
qed

lemma reads_and_then:
  assumes "reads p bs x" and "reads (q x) cs y"
  shows "reads (\<lambda>c. and_then (p c) (\<lambda>(x, c). q x c)) (bs @ cs) y"
proof (rule readsI)
  fix c r assume "cursor_ok c" and "rest c = (bs @ cs) @ r"
  with readsD [OF assms(1), of c "cs @ r"] readsD [OF assms(2), of "advance c (length bs)" r]
  show "and_then (p c) (\<lambda>(x, c). q x c) = Inr (y, advance c (length (bs @ cs)))" by simp
qed

lemma reads_return: "reads (\<lambda>c. Inr (x, c)) [] x"
  by (simp add: reads_def)

lemma reads_map: "reads p bs x \<Longrightarrow> reads (\<lambda>c. and_then (p c) (\<lambda>(x, c). Inr (f x, c))) bs (f x)"
  using reads_and_then [OF _ reads_return, of p bs x f] by simp

lemma u8_reads [simp]: "reads get_u8 [v] v"
  using reads_map [OF take_reads [of "[v]" 1], of hd] by (simp add: get_u8_def [abs_def])

lemma u32_reads [simp]: "reads get_u32 (le_bytes 4 v) v"
  using reads_map [OF take_reads [of "le_bytes 4 v" 4], of "from_le :: _ \<Rightarrow> u32"]
  by (simp add: get_u32_def [abs_def])

lemma u64_reads [simp]: "reads get_u64 (le_bytes 8 v) v"
  using reads_map [OF take_reads [of "le_bytes 8 v" 8], of "from_le :: _ \<Rightarrow> u64"]
  by (simp add: get_u64_def [abs_def])

lemma bytes_reads: "length bs < 2 ^ 32 \<Longrightarrow> reads get_bytes (le_bytes 4 (word_of_nat (length bs) :: u32) @ bs) bs"
  unfolding get_bytes_def [abs_def] by (rule reads_and_then [OF u32_reads]) (simp add: take_reads)

lemma tag_reads: "t \<le> mx \<Longrightarrow> reads (get_tag mx) [t] t"
  by (rule readsI) (simp add: get_tag_def readsD [OF u8_reads] not_less Let_def)

lemma opt_u32_reads: "reads get_opt_u32 (put_opt_u32 [] v) v"
proof (cases v)
  case None
  have "reads get_opt_u32 [0] None"
    by (rule readsI) (simp add: get_opt_u32_def readsD [OF tag_reads [of 0 1]])
  with None show ?thesis by (simp add: put_opt_u32_def put_u8_def)
next
  case (Some x)
  have "reads get_opt_u32 (1 # le_bytes 4 x) (Some x)"
  proof (rule readsI)
    fix c r assume c: "cursor_ok c" "rest c = (1 # le_bytes 4 x) @ r"
    then have t: "get_tag 1 c = Inr (1, advance c 1)"
      using readsD [OF tag_reads [of 1 1], of c "le_bytes 4 x @ r"] by simp
    from c have "get_u32 (advance c 1) = Inr (x, advance c 5)"
      using readsD [OF u32_reads, of "advance c 1" x r] by simp
    with t show "get_opt_u32 c = Inr (Some x, advance c (length (1 # le_bytes 4 x)))"
      by (simp add: get_opt_u32_def)
  qed
  with Some show ?thesis by (simp add: put_opt_u32_def put_u8_def put_u32_def)
qed

section \<open>The contract of a codec\<close>

locale codec =
  fixes put :: "u8 list \<Rightarrow> 'a \<Rightarrow> u8 list option" and get :: "'a reader"
  assumes put_append: "put buf x = map_option (\<lambda>bs. buf @ bs) (put [] x)"
    and get_put: "put [] x = Some bs \<Longrightarrow> reads get bs x"
begin

lemma put_all_append: "put_all put buf xs = map_option (\<lambda>bs. buf @ bs) (put_all put [] xs)"
proof (induction xs arbitrary: buf)
  case (Cons x xs)
  show ?case
  proof (cases "put [] x")
    case None
    then show ?thesis using put_append [of buf x] by simp
  next
    case (Some bs)
    with Cons.IH [of "buf @ bs"] Cons.IH [of bs] put_append [of buf x] show ?thesis
      by (simp add: option.map_comp comp_def)
  qed
qed simp

lemma get_n_put_all: "put_all put [] xs = Some bs \<Longrightarrow> reads (get_n (length xs) get) bs xs"
proof (induction xs arbitrary: bs)
  case Nil
  then show ?case by (simp add: reads_return)
next
  case (Cons x xs)
  then obtain b where "put [] x = Some b" "put_all put b xs = Some bs" by auto
  then obtain cs where b: "put [] x = Some b" "put_all put [] xs = Some cs" "bs = b @ cs"
    unfolding put_all_append [of b xs] by auto
  have "reads (\<lambda>c. and_then (get c)
      (\<lambda>(x, c). and_then (get_n (length xs) get c) (\<lambda>(xs, c). Inr (x # xs, c)))) (b @ cs) (x # xs)"
    by (rule reads_and_then [where q = "\<lambda>x c. and_then (get_n (length xs) get c) (\<lambda>(xs, c). Inr (x # xs, c))"])
      (rule get_put [OF b(1)], rule reads_map [OF Cons.IH [OF b(2)]])
  then show ?case by (simp add: b(3))
qed

end

interpretation u64_codec: codec "\<lambda>buf x. Some (put_u64 buf x)" get_u64
  by unfold_locales (auto simp: put_u64_def)

end
