(* ===== verification/Wal_Record.thy ===== *)
theory Wal_Record
  imports Codec Job_Model
begin

text \<open>
  The records of the write-ahead log and their frames (\<open>tasker-wal/src/record.rs\<close>). The checksum
  comes from a third-party crate and is the parameter \<open>hash\<close>. The conversions of handles and times
  to their bits are the identity here, as both are words.
\<close>

section \<open>Records\<close>

datatype wal_record =
  R_Submitted job_id job
| R_Dispatched job_id virtual_time
| R_Completed job_id virtual_time
| R_Failed job_id virtual_time
| R_Cancelled job_id virtual_time
| R_Requeued job_id virtual_time
| R_Forgotten job_id
| R_Preempted job_id virtual_time

definition SUBMITTED :: u8 where "SUBMITTED = 1"
definition DISPATCHED :: u8 where "DISPATCHED = 2"
definition COMPLETED :: u8 where "COMPLETED = 3"
definition FAILED :: u8 where "FAILED = 4"
definition CANCELLED :: u8 where "CANCELLED = 5"
definition REQUEUED :: u8 where "REQUEUED = 6"
definition FORGOTTEN :: u8 where "FORGOTTEN = 7"
definition PREEMPTED :: u8 where "PREEMPTED = 8"

lemmas kind_defs = SUBMITTED_def DISPATCHED_def COMPLETED_def FAILED_def CANCELLED_def REQUEUED_def
  FORGOTTEN_def PREEMPTED_def

definition FRAME_HEADER :: nat where
  "FRAME_HEADER = 8"

fun record_id :: "wal_record \<Rightarrow> job_id" where
  "record_id (R_Submitted i j) = i"
| "record_id (R_Dispatched i at) = i"
| "record_id (R_Completed i at) = i"
| "record_id (R_Failed i at) = i"
| "record_id (R_Cancelled i at) = i"
| "record_id (R_Requeued i at) = i"
| "record_id (R_Forgotten i) = i"
| "record_id (R_Preempted i at) = i"

section \<open>Jobs\<close>

definition state_tag :: "job_state \<Rightarrow> u8 option" where
  "state_tag st =
     do { index \<leftarrow> position (\<lambda>s. s = st) state_ALL;
          if index < 256 then Some (word_of_nat index) else None }"

definition put_job :: "u8 list \<Rightarrow> job \<Rightarrow> u8 list option" where
  "put_job b j =
     (let b = put_u32 b (account j);
          b = put_u8 b (ordinal (priority_class j));
          b = put_u64 b (submit_time j);
          b = put_u32 b (cpu_millis (request j));
          b = put_u64 b (mem_bytes (request j));
          b = put_u8 b (gpus (request j));
          b = put_u64 b (walltime_limit j)
      in do { n \<leftarrow> expect_u32 (length (deps j));
              b \<leftarrow> put_all (\<lambda>b d. Some (put_u64 b d)) (put_u32 b n) (deps j);
              b \<leftarrow> put_bytes b (payload j);
              t \<leftarrow> state_tag (state j);
              Some (put_u8 (put_u8 b t) (preemptions j)) })"

text \<open>A byte that indexes one of the lists \<open>ALL\<close>, reported with its offset when it does not.\<close>

definition get_listed :: "'a list \<Rightarrow> 'a reader" where
  "get_listed xs c =
     (let at = cur_pos c in
      and_then (get_u8 c) (\<lambda>(tag, c).
        case vec_get xs (unat tag) of Some x \<Rightarrow> Inr (x, c) | None \<Rightarrow> Inl (BadTag tag at)))"

definition get_job :: "job reader" where
  "get_job c =
     and_then (get_u32 c) (\<lambda>(acct, c).
     and_then (get_listed class_ALL c) (\<lambda>(cls, c).
     and_then (get_u64 c) (\<lambda>(submitted, c).
     and_then (get_u32 c) (\<lambda>(cpu, c).
     and_then (get_u64 c) (\<lambda>(mem, c).
     and_then (get_u8 c) (\<lambda>(gpu, c).
     and_then (get_u64 c) (\<lambda>(walltime, c).
     let j = job_new acct cls submitted \<lparr>cpu_millis = cpu, mem_bytes = mem, gpus = gpu\<rparr> walltime in
     and_then (get_u32 c) (\<lambda>(n, c).
     and_then (get_n (unat n) get_u64 c) (\<lambda>(ds, c).
     and_then (get_bytes c) (\<lambda>(bytes, c).
     and_then (get_listed state_ALL c) (\<lambda>(st, c).
     and_then (get_u8 c) (\<lambda>(pre, c).
     Inr (j\<lparr>deps := ds, payload := bytes, state := st, preemptions := pre\<rparr>, c)))))))))))))"

section \<open>Frames\<close>

definition frame :: "(u8 list \<Rightarrow> u32) \<Rightarrow> u8 list \<Rightarrow> (u8 list \<Rightarrow> u8 list option) \<Rightarrow> u8 list option" where
  "frame hash buf w =
     (let start = length buf in
      do { buf \<leftarrow> w (buf @ replicate FRAME_HEADER 0);
           let bytes = drop (start + FRAME_HEADER) buf in
           do { n \<leftarrow> expect_u32 (length bytes);
                Some (take start buf @ le_bytes 4 n @ le_bytes 4 (hash bytes) @ bytes) } })"

definition encode_submitted ::
  "(u8 list \<Rightarrow> u32) \<Rightarrow> u8 list \<Rightarrow> job_id \<Rightarrow> job \<Rightarrow> u8 list option" where
  "encode_submitted hash buf i j = frame hash buf (\<lambda>b. put_job (put_u64 (put_u8 b SUBMITTED) i) j)"

definition put_event :: "u8 list \<Rightarrow> u8 \<Rightarrow> job_id \<Rightarrow> virtual_time \<Rightarrow> u8 list" where
  "put_event b kind i at = put_u64 (put_u64 (put_u8 b kind) i) at"

fun put_record :: "u8 list \<Rightarrow> wal_record \<Rightarrow> u8 list option" where
  "put_record b (R_Submitted i j) = put_job (put_u64 (put_u8 b SUBMITTED) i) j"
| "put_record b (R_Dispatched i at) = Some (put_event b DISPATCHED i at)"
| "put_record b (R_Completed i at) = Some (put_event b COMPLETED i at)"
| "put_record b (R_Failed i at) = Some (put_event b FAILED i at)"
| "put_record b (R_Cancelled i at) = Some (put_event b CANCELLED i at)"
| "put_record b (R_Requeued i at) = Some (put_event b REQUEUED i at)"
| "put_record b (R_Forgotten i) = Some (put_u64 (put_u8 b FORGOTTEN) i)"
| "put_record b (R_Preempted i at) = Some (put_event b PREEMPTED i at)"

definition encode :: "(u8 list \<Rightarrow> u32) \<Rightarrow> u8 list \<Rightarrow> wal_record \<Rightarrow> u8 list option" where
  "encode hash buf r = frame hash buf (\<lambda>b. put_record b r)"

definition decode :: "u8 list \<Rightarrow> codec_error + wal_record" where
  "decode bytes =
     and_then (get_tag PREEMPTED (cursor_new bytes)) (\<lambda>(kind, c).
     and_then (get_u64 c) (\<lambda>(i, c).
     if kind = SUBMITTED then and_then (get_job c) (\<lambda>(j, c). Inr (R_Submitted i j))
     else if kind = FORGOTTEN then Inr (R_Forgotten i)
     else and_then (get_u64 c) (\<lambda>(at, c).
       if kind = DISPATCHED then Inr (R_Dispatched i at)
       else if kind = COMPLETED then Inr (R_Completed i at)
       else if kind = FAILED then Inr (R_Failed i at)
       else if kind = CANCELLED then Inr (R_Cancelled i at)
       else if kind = REQUEUED then Inr (R_Requeued i at)
       else if kind = PREEMPTED then Inr (R_Preempted i at)
       else Inl (BadTag kind 0))))"

section \<open>Jobs read back\<close>

lemma state_tag_reads:
  "\<exists>t. state_tag st = Some t \<and> reads (get_listed state_ALL) [t] st"
proof -
  obtain k where k: "position (\<lambda>s. s = st) state_ALL = Some k" "k < 8"
    by (cases st) (simp_all add: state_ALL_def)
  then have "state_ALL ! k = st" "k < length state_ALL" by (auto simp: position_Some_iff)
  then have "reads (get_listed state_ALL) [word_of_nat k] st"
    using k(2) by (intro readsI)
      (simp add: get_listed_def readsD [OF u8_reads] Let_def vec_get_def unat_of_nat)
  with k show ?thesis by (simp add: state_tag_def)
qed

lemma class_reads: "reads (get_listed class_ALL) [ordinal cls] cls"
  by (rule readsI, cases cls)
    (simp_all add: get_listed_def readsD [OF u8_reads] Let_def vec_get_def class_ALL_def)

definition deps_wire :: "job_id list \<Rightarrow> u8 list" where
  "deps_wire ds = concat (map (le_bytes 8) ds)"

lemma put_deps: "put_all (\<lambda>b d. Some (put_u64 b d)) b ds = Some (b @ deps_wire ds)"
  by (induction ds arbitrary: b) (simp_all add: put_u64_def deps_wire_def)

lemma deps_reads: "reads (get_n (length ds) get_u64) (deps_wire ds) ds"
  using u64_codec.get_n_put_all [of ds "deps_wire ds"] by (simp add: put_deps)

definition job_fits :: "job \<Rightarrow> bool" where
  "job_fits j \<longleftrightarrow> length (deps j) < 2 ^ 32 \<and> length (payload j) < 2 ^ 32"

definition job_wire :: "job \<Rightarrow> u8 list" where
  "job_wire j = le_bytes 4 (account j) @ [ordinal (priority_class j)] @ le_bytes 8 (submit_time j)
     @ le_bytes 4 (cpu_millis (request j)) @ le_bytes 8 (mem_bytes (request j)) @ [gpus (request j)]
     @ le_bytes 8 (walltime_limit j) @ le_bytes 4 (word_of_nat (length (deps j)) :: u32) @ deps_wire (deps j)
     @ (le_bytes 4 (word_of_nat (length (payload j)) :: u32) @ payload j)
     @ [the (state_tag (state j))] @ [preemptions j]"

lemma put_job_wire: "put_job b j = (if job_fits j then Some (b @ job_wire j) else None)"
proof -
  obtain t where t: "state_tag (state j) = Some t" using state_tag_reads by blast
  show ?thesis
  proof (cases "job_fits j")
    case True
    then show ?thesis
      by (simp add: put_job_def put_u8_def put_u32_def put_u64_def put_bytes_def expect_u32_Some
          put_deps [unfolded put_u64_def] t job_wire_def job_fits_def Let_def)
  next
    case False
    then consider "\<not> length (deps j) < 2 ^ 32" | "\<not> length (payload j) < 2 ^ 32" by (auto simp: job_fits_def)
    then show ?thesis
      by cases (simp_all add: put_job_def put_bytes_def expect_u32_def put_deps Let_def False)
  qed
qed

lemma job_reads:
  assumes "job_fits j"
  shows "reads get_job (job_wire j) j"
proof -
  obtain t where t: "state_tag (state j) = Some t" "reads (get_listed state_ALL) [t] (state j)"
    using state_tag_reads by blast
  have n: "reads (get_n (unat (word_of_nat (length (deps j)) :: u32)) get_u64) (deps_wire (deps j)) (deps j)"
    and p: "length (payload j) < 2 ^ 32" using assms deps_reads by (simp_all add: job_fits_def)
  have j: "(job_new (account j) (priority_class j) (submit_time j)
      \<lparr>cpu_millis = cpu_millis (request j), mem_bytes = mem_bytes (request j), gpus = gpus (request j)\<rparr>
      (walltime_limit j))\<lparr>deps := deps j, payload := payload j, state := state j, preemptions := preemptions j\<rparr> = j"
    by (cases j) (simp add: job_new_def)
  have "reads get_job (job_wire j) ((job_new (account j) (priority_class j) (submit_time j)
      \<lparr>cpu_millis = cpu_millis (request j), mem_bytes = mem_bytes (request j), gpus = gpus (request j)\<rparr>
      (walltime_limit j))\<lparr>deps := deps j, payload := payload j, state := state j, preemptions := preemptions j\<rparr>)"
    unfolding get_job_def [abs_def] job_wire_def Let_def t(1) option.sel
    by (rule reads_map [OF u8_reads] reads_and_then [OF u32_reads] reads_and_then [OF class_reads]
        reads_and_then [OF u64_reads] reads_and_then [OF bytes_reads [OF p]] reads_and_then [OF t(2)]
        reads_and_then [OF n] reads_and_then [OF u8_reads])+
  then show ?thesis by (simp only: j)
qed

interpretation job_codec: codec put_job get_job
  by unfold_locales (auto simp: put_job_wire job_reads split: if_splits)

section \<open>Records read back\<close>

fun record_fits :: "wal_record \<Rightarrow> bool" where
  "record_fits (R_Submitted i j) \<longleftrightarrow> job_fits j"
| "record_fits _ \<longleftrightarrow> True"

definition record_wire :: "wal_record \<Rightarrow> u8 list" where
  "record_wire r = the (put_record [] r)"

lemma put_record_wire: "put_record b r = (if record_fits r then Some (b @ record_wire r) else None)"
  by (cases r) (simp_all add: record_wire_def put_job_wire put_u8_def put_u64_def put_event_def)

lemma kind_reads: "k \<le> PREEMPTED \<Longrightarrow> get_tag PREEMPTED (cursor_new (k # bs)) = Inr (k, advance (cursor_new (k # bs)) 1)"
  using readsD [OF tag_reads, of k PREEMPTED "cursor_new (k # bs)" bs] by simp

lemma decode_wire:
  assumes "record_fits r"
  shows "decode (record_wire r) = Inr r"
proof -
  have u64: "get_u64 (advance c n) = Inr (v, advance c (n + 8))"
    if "cursor_ok c" "drop n (rest c) = le_bytes 8 v @ r" "n \<le> length (rest c)" for c n v r
    using readsD [OF u64_reads, of "advance c n" v r] that by simp
  have event: "decode (k # le_bytes 8 i @ le_bytes 8 at)
     = (if k = DISPATCHED then Inr (R_Dispatched i at) else if k = COMPLETED then Inr (R_Completed i at)
        else if k = FAILED then Inr (R_Failed i at) else if k = CANCELLED then Inr (R_Cancelled i at)
        else if k = REQUEUED then Inr (R_Requeued i at) else if k = PREEMPTED then Inr (R_Preempted i at)
        else Inl (BadTag k 0))"
    if "k \<le> PREEMPTED" "k \<noteq> SUBMITTED" "k \<noteq> FORGOTTEN" for k i at
    using that by (simp add: decode_def kind_reads u64 [where v = i] u64 [where v = at and r = "[]"])
  show ?thesis
  proof (cases r)
    case (R_Submitted i j)
    let ?bs = "SUBMITTED # le_bytes 8 i @ job_wire j"
    have "get_job (advance (cursor_new ?bs) 9) = Inr (j, advance (cursor_new ?bs) (9 + length (job_wire j)))"
      using readsD [OF job_reads, of j "advance (cursor_new ?bs) 9" "[]"] R_Submitted assms by simp
    moreover have "SUBMITTED \<le> PREEMPTED" by (simp add: kind_defs)
    ultimately show ?thesis
      using R_Submitted assms
      by (simp add: record_wire_def put_job_wire put_u8_def put_u64_def decode_def kind_reads u64 [where v = i])
  next
    case (R_Forgotten i)
    moreover have "FORGOTTEN \<le> PREEMPTED" "FORGOTTEN \<noteq> SUBMITTED" by (simp_all add: kind_defs)
    ultimately show ?thesis
      by (simp add: record_wire_def put_u8_def put_u64_def decode_def kind_reads u64 [where v = i and r = "[]"])
  qed (simp_all add: record_wire_def put_u8_def put_u64_def put_event_def event kind_defs)
qed

section \<open>Frames\<close>

definition frame_of :: "(u8 list \<Rightarrow> u32) \<Rightarrow> u8 list \<Rightarrow> u8 list" where
  "frame_of hash p = le_bytes 4 (word_of_nat (length p) :: u32) @ le_bytes 4 (hash p) @ p"

definition encodable :: "wal_record \<Rightarrow> bool" where
  "encodable r \<longleftrightarrow> record_fits r \<and> length (record_wire r) < 2 ^ 32"

lemma length_frame_of: "length (frame_of hash p) = FRAME_HEADER + length p"
  by (simp add: frame_of_def FRAME_HEADER_def)

lemma encode_frame:
  "encode hash buf r = (if encodable r then Some (buf @ frame_of hash (record_wire r)) else None)"
  by (simp add: encode_def frame_def put_record_wire encodable_def frame_of_def expect_u32_def FRAME_HEADER_def Let_def)

lemma encode_submitted_frame: "encode_submitted hash buf i j = encode hash buf (R_Submitted i j)"
  by (simp add: encode_submitted_def encode_def)

lemma encode_all_frames:
  "put_all (encode hash) buf rs
     = (if \<forall>r\<in>set rs. encodable r then Some (buf @ concat (map (frame_of hash \<circ> record_wire) rs)) else None)"
  by (induction rs arbitrary: buf) (simp_all add: encode_frame)

end
