(* ===== verification/Wal_Log.thy ===== *)
theory Wal_Log
  imports Wal_Record
begin

text \<open>
  Parsing a log image and the rule for torn tails (\<open>tasker-wal/src/log.rs\<close>). The first two lemmas
  of the last section describe the loop on intact and on torn frames; the properties follow from
  them for every cut of a log and for every image that parses.
\<close>

section \<open>Model\<close>

text \<open>The kinds of I/O errors the recovery code tells apart.\<close>

datatype io_kind = NotFound | UnexpectedEof | OtherIo

datatype wal_error =
  Io io_kind
| BadMagic string
| SnapshotChecksum
| Codec_Error codec_error

definition LOG_MAGIC :: "u8 list" where
  "LOG_MAGIC = [84, 75, 82, 87, 65, 76, 48, 50]"

record replay =
  rp_records :: "wal_record list"
  rp_torn_at :: "u64 option"

definition replay_default :: replay where
  "replay_default = \<lparr>rp_records = [], rp_torn_at = None\<rparr>"

text \<open>\<open>bytes.get(a..b)\<close>.\<close>

definition vec_slice :: "'a list \<Rightarrow> nat \<Rightarrow> nat \<Rightarrow> 'a list option" where
  "vec_slice xs a b = (if a \<le> b \<and> b \<le> length xs then Some (take (b - a) (drop a xs)) else None)"

function (sequential) parse_frames ::
  "(u8 list \<Rightarrow> u32) \<Rightarrow> u8 list \<Rightarrow> nat \<Rightarrow> wal_record list \<Rightarrow> wal_error + wal_record list \<times> nat" where
  "parse_frames hash bytes pos records =
     (if pos < length bytes then
        (case vec_slice bytes pos (pos + FRAME_HEADER) of
           None \<Rightarrow> Inr (records, pos)
         | Some header \<Rightarrow>
             let len = unat (from_le (take 4 header) :: u32);
                 crc = (from_le (drop 4 header) :: u32)
             in (case vec_slice bytes (pos + FRAME_HEADER) (pos + FRAME_HEADER + len) of
                   None \<Rightarrow> Inr (records, pos)
                 | Some p \<Rightarrow>
                     if hash p \<noteq> crc then Inr (records, pos)
                     else (case decode p of
                             Inl e \<Rightarrow> Inl (Codec_Error e)
                           | Inr r \<Rightarrow> parse_frames hash bytes (pos + (FRAME_HEADER + len)) (records @ [r]))))
      else Inr (records, pos))"
  by pat_completeness auto

termination
  by (relation "measure (\<lambda>(hash, bytes, pos, records). length bytes - pos)")
    (auto simp: FRAME_HEADER_def)

declare parse_frames.simps [simp del]

definition parse_log :: "(u8 list \<Rightarrow> u32) \<Rightarrow> u8 list \<Rightarrow> wal_error + replay" where
  "parse_log hash bytes =
     (if length bytes < length LOG_MAGIC \<or> take (length LOG_MAGIC) bytes \<noteq> LOG_MAGIC
      then Inl (BadMagic ''log'')
      else and_then (parse_frames hash bytes (length LOG_MAGIC) []) (\<lambda>(records, pos).
        Inr \<lparr>rp_records = records, rp_torn_at = (if pos < length bytes then Some (word_of_nat pos) else None)\<rparr>))"

section \<open>The loop\<close>

lemma length_LOG_MAGIC [simp]: "length LOG_MAGIC = 8"
  by (simp add: LOG_MAGIC_def)

lemma FRAME_HEADER_pos [simp]: "FRAME_HEADER \<noteq> 0"
  by (simp add: FRAME_HEADER_def)

lemma vec_slice_append: "length ys = n \<Longrightarrow> vec_slice (xs @ ys @ zs) (length xs) (length xs + n) = Some ys"
  by (simp add: vec_slice_def)

lemma parse_frames_end: "length bytes \<le> pos \<Longrightarrow> parse_frames hash bytes pos rs = Inr (rs, pos)"
  by (subst parse_frames.simps) simp

text \<open>An intact frame is read and the loop continues behind it.\<close>

lemma parse_frames_step:
  assumes "encodable r"
  shows "parse_frames hash (pre @ frame_of hash (record_wire r) @ post) (length pre) rs
     = parse_frames hash (pre @ frame_of hash (record_wire r) @ post)
         (length pre + length (frame_of hash (record_wire r))) (rs @ [r])"
proof -
  let ?p = "record_wire r"
  let ?h = "le_bytes 4 (word_of_nat (length ?p) :: u32) @ le_bytes 4 (hash ?p)"
  let ?b = "pre @ frame_of hash ?p @ post"
  have n: "length ?p < 2 ^ 32" and d: "decode ?p = Inr r" using assms decode_wire by (auto simp: encodable_def)
  have b: "?b = pre @ ?h @ ?p @ post" "?b = (pre @ ?h) @ ?p @ post" by (simp_all add: frame_of_def)
  have h: "vec_slice ?b (length pre) (length pre + FRAME_HEADER) = Some ?h"
    unfolding b(1) using vec_slice_append [of ?h FRAME_HEADER pre "?p @ post"] by (simp add: FRAME_HEADER_def)
  have p: "vec_slice ?b (length pre + FRAME_HEADER) (length pre + FRAME_HEADER + length ?p) = Some ?p"
    unfolding b(2) using vec_slice_append [of ?p "length ?p" "pre @ ?h" post] by (simp add: FRAME_HEADER_def)
  have l: "length pre < length ?b" by (simp add: length_frame_of FRAME_HEADER_def)
  show ?thesis
    by (subst parse_frames.simps) (use n d in \<open>simp add: l h p Let_def length_frame_of del: append_assoc\<close>)
qed

text \<open>A frame cut short stops it there.\<close>

lemma parse_frames_torn:
  assumes "encodable r" and "k < length (frame_of hash (record_wire r))"
  shows "parse_frames hash (pre @ take k (frame_of hash (record_wire r))) (length pre) rs = Inr (rs, length pre)"
proof (cases "k < FRAME_HEADER")
  case True
  then have "vec_slice (pre @ take k (frame_of hash (record_wire r))) (length pre) (length pre + FRAME_HEADER) = None"
    by (simp add: vec_slice_def)
  then show ?thesis by (subst parse_frames.simps) simp
next
  case False
  let ?p = "record_wire r"
  let ?h = "le_bytes 4 (word_of_nat (length ?p) :: u32) @ le_bytes 4 (hash ?p)"
  let ?q = "take (k - FRAME_HEADER) ?p"
  have n: "length ?p < 2 ^ 32" using assms(1) by (auto simp: encodable_def)
  have b: "pre @ take k (frame_of hash ?p) = pre @ ?h @ ?q"
    using False by (simp add: frame_of_def FRAME_HEADER_def)
  have h: "vec_slice (pre @ ?h @ ?q) (length pre) (length pre + FRAME_HEADER) = Some ?h"
    using vec_slice_append [of ?h FRAME_HEADER pre ?q] by (simp add: FRAME_HEADER_def)
  have p: "vec_slice (pre @ ?h @ ?q) (length pre + FRAME_HEADER) (length pre + FRAME_HEADER + length ?p) = None"
    using assms(2) False by (simp add: vec_slice_def length_frame_of FRAME_HEADER_def)
  show ?thesis
    unfolding b by (subst parse_frames.simps) (use n in \<open>simp add: h p Let_def del: append_assoc\<close>)
qed

definition log_of :: "(u8 list \<Rightarrow> u32) \<Rightarrow> wal_record list \<Rightarrow> u8 list" where
  "log_of hash rs = concat (map (frame_of hash \<circ> record_wire) rs)"

lemma log_of_Cons: "log_of hash (r # rs) = frame_of hash (record_wire r) @ log_of hash rs"
  by (simp add: log_of_def)

lemma log_of_Nil [simp]: "log_of hash [] = []"
  by (simp add: log_of_def)

lemma encode_all_log:
  "put_all (encode hash) buf rs = Some bs \<Longrightarrow> (\<forall>r\<in>set rs. encodable r) \<and> bs = buf @ log_of hash rs"
  by (simp add: encode_all_frames log_of_def split: if_splits)

text \<open>
  Intact frames followed by a cut: the loop reads the frames that are whole and stops at the first
  one that is not.
\<close>

lemma parse_frames_cut:
  assumes "\<forall>r\<in>set rs. encodable r" and "k \<le> length (log_of hash rs)"
  shows "\<exists>m \<le> length rs. parse_frames hash (pre @ take k (log_of hash rs)) (length pre) acc
       = Inr (acc @ take m rs, length pre + length (log_of hash (take m rs)))
     \<and> length (log_of hash (take m rs)) \<le> k
     \<and> (m < length rs \<longrightarrow> k < length (log_of hash (take (Suc m) rs)))"
  using assms
proof (induction rs arbitrary: pre acc k)
  case Nil
  then show ?case by (simp add: parse_frames_end)
next
  case (Cons r rs)
  let ?f = "frame_of hash (record_wire r)"
  have r: "encodable r" using Cons.prems(1) by simp
  show ?case
  proof (cases "k < length ?f")
    case True
    then have "pre @ take k (log_of hash (r # rs)) = pre @ take k ?f" by (simp add: log_of_Cons)
    with parse_frames_torn [OF r True] True show ?thesis
      by (intro exI [of _ 0]) (simp add: log_of_Cons)
  next
    case False
    then have b: "pre @ take k (log_of hash (r # rs)) = (pre @ ?f) @ take (k - length ?f) (log_of hash rs)"
      by (simp add: log_of_Cons)
    have "k - length ?f \<le> length (log_of hash rs)" using Cons.prems(2) by (simp add: log_of_Cons)
    from Cons.IH [OF _ this, of "pre @ ?f" "acc @ [r]"] Cons.prems(1) obtain m where
      m: "m \<le> length rs" "parse_frames hash ((pre @ ?f) @ take (k - length ?f) (log_of hash rs)) (length (pre @ ?f)) (acc @ [r])
          = Inr ((acc @ [r]) @ take m rs, length (pre @ ?f) + length (log_of hash (take m rs)))"
        "length (log_of hash (take m rs)) \<le> k - length ?f"
        "m < length rs \<longrightarrow> k - length ?f < length (log_of hash (take (Suc m) rs))" by auto
    have "parse_frames hash (pre @ take k (log_of hash (r # rs))) (length pre) acc
        = parse_frames hash ((pre @ ?f) @ take (k - length ?f) (log_of hash rs)) (length (pre @ ?f)) (acc @ [r])"
      unfolding b using parse_frames_step [OF r, of hash pre "take (k - length ?f) (log_of hash rs)" acc] by simp
    with m False show ?thesis
      by (intro exI [of _ "Suc m"]) (auto simp: log_of_Cons)
  qed
qed

text \<open>What the loop read does not depend on what follows the place where it stopped.\<close>

lemma vec_slice_take:
  "vec_slice xs a b = Some ys \<Longrightarrow> b \<le> p \<Longrightarrow> vec_slice (take p xs @ zs) a b = Some ys"
  by (auto simp: vec_slice_def min_def drop_take split: if_splits)

lemma parse_frames_prefix:
  assumes "parse_frames hash bytes pos acc = Inr (rs, p)" and "pos \<le> length bytes"
  shows "pos \<le> p \<and> p \<le> length bytes
     \<and> parse_frames hash (take p bytes @ tail) pos acc = parse_frames hash (take p bytes @ tail) p rs"
  using assms
proof (induction hash bytes pos acc rule: parse_frames.induct)
  case (1 hash bytes pos acc)
  show ?case
  proof (cases "rs = acc \<and> p = pos")
    case True
    with "1.prems"(2) show ?thesis by simp
  next
    case False
    with "1.prems"(1) obtain header q r where
      s: "pos < length bytes" "vec_slice bytes pos (pos + FRAME_HEADER) = Some header"
        "vec_slice bytes (pos + FRAME_HEADER) (pos + FRAME_HEADER + unat (from_le (take 4 header) :: u32)) = Some q"
        "hash q = from_le (drop 4 header)" "decode q = Inr r"
      and n: "parse_frames hash bytes (pos + (FRAME_HEADER + unat (from_le (take 4 header) :: u32))) (acc @ [r]) = Inr (rs, p)"
      by (subst (asm) parse_frames.simps) (auto simp: Let_def split: if_splits option.splits sum.splits)
    let ?n = "pos + (FRAME_HEADER + unat (from_le (take 4 header) :: u32))"
    from s(3) have "?n \<le> length bytes" by (auto simp: vec_slice_def split: if_splits)
    from "1.IH" [OF s(1,2) refl refl s(3) _ s(5) n this] s(4)
    have ih: "?n \<le> p" "p \<le> length bytes"
      "parse_frames hash (take p bytes @ tail) ?n (acc @ [r]) = parse_frames hash (take p bytes @ tail) p rs" by auto
    have "pos < length (take p bytes @ tail)" using ih(1,2) by (simp add: FRAME_HEADER_def)
    moreover have "vec_slice (take p bytes @ tail) pos (pos + FRAME_HEADER) = Some header"
      by (rule vec_slice_take [OF s(2)]) (use ih(1) in simp)
    moreover have "vec_slice (take p bytes @ tail) (pos + FRAME_HEADER)
        (pos + FRAME_HEADER + unat (from_le (take 4 header) :: u32)) = Some q"
      by (rule vec_slice_take [OF s(3)]) (use ih(1) in simp)
    ultimately have "parse_frames hash (take p bytes @ tail) pos acc
        = parse_frames hash (take p bytes @ tail) ?n (acc @ [r])"
      by (subst parse_frames.simps) (simp add: s(4,5) Let_def)
    with ih show ?thesis by simp
  qed
qed

lemma parse_frames_all:
  assumes "\<forall>r\<in>set rs. encodable r"
  shows "parse_frames hash (pre @ log_of hash rs) (length pre) acc = Inr (acc @ rs, length pre + length (log_of hash rs))"
  using assms
proof (induction rs arbitrary: pre acc)
  case (Cons r rs)
  with parse_frames_step [of r hash pre "log_of hash rs" acc]
    Cons.IH [of "pre @ frame_of hash (record_wire r)" "acc @ [r]"] show ?case
    by (simp add: log_of_Cons add.assoc)
qed (simp add: parse_frames_end)

text \<open>
  Cutting an image at the offset the parser reports makes it clean: on every image that parses,
  torn or not, truncating to the intact part and appending the frames of new records gives an image
  that parses to the old records followed by the new ones, with no torn tail.
\<close>

lemma parse_log_extend:
  assumes "parse_log hash bytes = Inr rep" and "length bytes < 2 ^ 64"
    and "p = (case rp_torn_at rep of None \<Rightarrow> length bytes | Some at \<Rightarrow> unat at)"
    and "put_all (encode hash) (take p bytes) rs = Some bytes'"
  shows "p \<le> length bytes \<and> parse_log hash bytes' = Inr \<lparr>rp_records = rp_records rep @ rs, rp_torn_at = None\<rparr>"
proof -
  from encode_all_log [OF assms(4)] have e: "\<forall>r\<in>set rs. encodable r" and b': "bytes' = take p bytes @ log_of hash rs"
    by simp_all
  from assms(1) obtain records q where
    q: "8 \<le> length bytes" "take 8 bytes = LOG_MAGIC" "parse_frames hash bytes 8 [] = Inr (records, q)"
      "rep = \<lparr>rp_records = records, rp_torn_at = (if q < length bytes then Some (word_of_nat q) else None)\<rparr>"
    by (auto simp: parse_log_def and_then_Inr_iff split: if_splits)
  from parse_frames_prefix [OF q(3,1), of "log_of hash rs"] have
    f: "8 \<le> q" "q \<le> length bytes" "parse_frames hash (take q bytes @ log_of hash rs) 8 []
        = parse_frames hash (take q bytes @ log_of hash rs) q records" by auto
  have p: "p = q"
  proof (cases "q < length bytes")
    case True
    with assms(2) have "unat (word_of_nat q :: u64) = q" by (simp add: unat_of_nat)
    with assms(3) q(4) True show ?thesis by simp
  qed (use assms(3) q(4) f(2) in simp)
  have "parse_frames hash bytes' 8 [] = Inr (records @ rs, length bytes')"
    using f parse_frames_all [OF e, of hash "take q bytes" records] by (simp add: b' p)
  moreover have "take 8 bytes' = LOG_MAGIC" "8 \<le> length bytes'" using q(2) f by (simp_all add: b' p)
  ultimately show ?thesis using f(2) q(4) p by (simp add: parse_log_def)
qed

lemma parse_log_fresh:
  assumes "put_all (encode hash) [] rs = Some frames"
  shows "parse_log hash (LOG_MAGIC @ frames) = Inr \<lparr>rp_records = rs, rp_torn_at = None\<rparr>"
  using encode_all_log [OF assms] parse_frames_all [of rs hash LOG_MAGIC "[]"]
  by (simp add: parse_log_def)

section \<open>Properties\<close>

text \<open>
  C11. A log survives a crash at any byte: cut a log of any records anywhere behind its magic, and
  parsing returns exactly the records whose frames are whole, with the offset of the first torn
  frame, or none if the cut is at a frame boundary.
\<close>

theorem torn_log_recovers:
  assumes "put_all (encode hash) LOG_MAGIC rs = Some bytes" and "8 \<le> k" and "k \<le> length bytes"
  shows "\<exists>m \<le> length rs. \<exists>whole. put_all (encode hash) LOG_MAGIC (take m rs) = Some whole
     \<and> length whole \<le> k
     \<and> (m < length rs \<longrightarrow> (\<exists>next. encode hash whole (rs ! m) = Some next \<and> k < length next))
     \<and> parse_log hash (take k bytes) = Inr \<lparr>rp_records = take m rs,
          rp_torn_at = (if length whole < k then Some (word_of_nat (length whole)) else None)\<rparr>"
proof -
  from encode_all_log [OF assms(1)] have e: "\<forall>r\<in>set rs. encodable r" and b: "bytes = LOG_MAGIC @ log_of hash rs"
    by simp_all
  have "k - 8 \<le> length (log_of hash rs)" using assms(3) b by simp
  from parse_frames_cut [OF e this, of LOG_MAGIC "[]"] obtain m where
    m: "m \<le> length rs" "parse_frames hash (LOG_MAGIC @ take (k - 8) (log_of hash rs)) 8 []
         = Inr (take m rs, 8 + length (log_of hash (take m rs)))"
      "length (log_of hash (take m rs)) \<le> k - 8"
      "m < length rs \<longrightarrow> k - 8 < length (log_of hash (take (Suc m) rs))" by auto
  let ?w = "LOG_MAGIC @ log_of hash (take m rs)"
  have tk: "take k bytes = LOG_MAGIC @ take (k - 8) (log_of hash rs)" using assms(2) b by simp
  have len: "length (take k bytes) = k" using assms(3) by simp
  have p: "parse_log hash (take k bytes) = Inr \<lparr>rp_records = take m rs,
          rp_torn_at = (if length ?w < k then Some (word_of_nat (length ?w)) else None)\<rparr>"
    using m(2) len assms(2) unfolding parse_log_def tk by simp
  have whole: "put_all (encode hash) LOG_MAGIC (take m rs) = Some ?w"
    using e by (auto simp: encode_all_frames log_of_def dest: in_set_takeD)
  have "encode hash ?w (rs ! m) = Some (?w @ frame_of hash (record_wire (rs ! m)))
      \<and> k < length (?w @ frame_of hash (record_wire (rs ! m)))" if "m < length rs"
    using m(4) that e assms(2) by (simp add: encode_frame log_of_def take_Suc_conv_app_nth)
  then have nx: "m < length rs \<longrightarrow> (\<exists>next. encode hash ?w (rs ! m) = Some next \<and> k < length next)" by blast
  have "length ?w \<le> k" using m(3) assms(2) by simp
  with m(1) whole nx p show ?thesis by blast
qed

definition sample_records :: "wal_record list" where
  "sample_records = [R_Dispatched 1 5, R_Forgotten 1]"

theorem torn_log_recovers_witness:
  "\<exists>bytes. put_all (encode (\<lambda>_. 7)) LOG_MAGIC sample_records = Some bytes \<and> length bytes = 50
     \<and> (\<exists>m \<le> 2. \<exists>t. parse_log (\<lambda>_. 7) (take 40 bytes) = Inr \<lparr>rp_records = take m sample_records, rp_torn_at = t\<rparr>)"
proof -
  obtain bytes where b: "put_all (encode (\<lambda>_. 7)) LOG_MAGIC sample_records = Some bytes" "length bytes = 50"
    by (simp add: sample_records_def encode_frame encodable_def record_wire_def put_event_def put_u8_def put_u64_def
        length_frame_of FRAME_HEADER_def)
  then have "8 \<le> (40 :: nat)" "40 \<le> length bytes" by simp_all
  from torn_log_recovers [OF b(1) this] obtain m and whole :: "u8 list" where
    "m \<le> length sample_records" "parse_log (\<lambda>_. 7) (take 40 bytes) = Inr \<lparr>rp_records = take m sample_records,
       rp_torn_at = (if length whole < 40 then Some (word_of_nat (length whole)) else None)\<rparr>" by blast
  moreover have "length sample_records = 2" by (simp add: sample_records_def)
  ultimately show ?thesis using b by (intro exI [of _ bytes]) auto
qed

end
