(* ===== verification/Wal_Snapshot.thy ===== *)
theory Wal_Snapshot
  imports Wal_Log Fair_Share
begin

text \<open>
  Snapshots (\<open>tasker-wal/src/snapshot.rs\<close>): the arena's slots, the running handles and the ledgers
  in one checksummed image. The reader refuses an image whose magic or checksum is wrong before it
  decodes anything.
\<close>

section \<open>Model\<close>

definition SNAPSHOT_MAGIC :: "u8 list" where
  "SNAPSHOT_MAGIC = [84, 75, 82, 83, 78, 80, 48, 50]"

record snapshot =
  sn_taken_at :: virtual_time
  sn_slots :: "job slot list"
  sn_free_head :: "u32 option"
  sn_running :: "job_id list"
  sn_ledgers :: "ledger list"

definition put_slot :: "u8 list \<Rightarrow> job slot \<Rightarrow> u8 list option" where
  "put_slot buf s =
     (case s of
        Occupied g j \<Rightarrow> put_job (put_u32 (put_u8 buf 1) g) j
      | Vacant g nf \<Rightarrow> Some (put_opt_u32 (put_u32 (put_u8 buf 0) g) nf))"

definition put_ledger :: "u8 list \<Rightarrow> ledger \<Rightarrow> u8 list" where
  "put_ledger buf l =
     put_u64 (put_u64 (put_u32 (put_u64 (put_u64 buf (lg_usage l)) (lg_running_cpu l)) (lg_shares l))
       (lg_accrued_to l)) (lg_decayed_to l)"

definition put_body ::
  "u8 list \<Rightarrow> virtual_time \<Rightarrow> job slot list \<Rightarrow> u32 option \<Rightarrow> job_id list \<Rightarrow> ledger list \<Rightarrow> u8 list option" where
  "put_body buf at slots free_head run ls =
     do { n \<leftarrow> expect_u32 (length slots);
          buf \<leftarrow> put_all put_slot (put_u32 (put_u64 buf at) n) slots;
          r \<leftarrow> expect_u32 (length run);
          buf \<leftarrow> put_all (\<lambda>b i. Some (put_u64 b i)) (put_u32 (put_opt_u32 buf free_head) r) run;
          l \<leftarrow> expect_u32 (length ls);
          put_all (\<lambda>b x. Some (put_ledger b x)) (put_u32 buf l) ls }"

definition encode_snapshot ::
  "(u8 list \<Rightarrow> u32) \<Rightarrow> u8 list \<Rightarrow> virtual_time \<Rightarrow> job slot list \<Rightarrow> u32 option \<Rightarrow> job_id list \<Rightarrow> ledger list
     \<Rightarrow> u8 list option" where
  "encode_snapshot hash buf at slots free_head run ls =
     (let body_start = length (buf @ SNAPSHOT_MAGIC) in
      do { buf \<leftarrow> put_body (buf @ SNAPSHOT_MAGIC) at slots free_head run ls;
           Some (put_u32 buf (hash (drop body_start buf))) })"

definition get_slot :: "job slot reader" where
  "get_slot c =
     and_then (get_tag 1 c) (\<lambda>(tag, c).
       if tag = 1
       then and_then (get_u32 c) (\<lambda>(g, c). and_then (get_job c) (\<lambda>(j, c). Inr (Occupied g j, c)))
       else and_then (get_u32 c) (\<lambda>(g, c). and_then (get_opt_u32 c) (\<lambda>(nf, c). Inr (Vacant g nf, c))))"

definition get_ledger :: "ledger reader" where
  "get_ledger c =
     and_then (get_u64 c) (\<lambda>(u, c).
     and_then (get_u64 c) (\<lambda>(cpu, c).
     and_then (get_u32 c) (\<lambda>(sh, c).
     and_then (get_u64 c) (\<lambda>(accrued, c).
     and_then (get_u64 c) (\<lambda>(decayed, c).
     Inr (ledger_from_parts u cpu sh accrued decayed, c))))))"

definition get_snapshot :: "snapshot reader" where
  "get_snapshot c =
     and_then (get_u64 c) (\<lambda>(at, c).
     and_then (get_u32 c) (\<lambda>(n, c).
     and_then (get_n (unat n) get_slot c) (\<lambda>(slots, c).
     and_then (get_opt_u32 c) (\<lambda>(free_head, c).
     and_then (get_u32 c) (\<lambda>(r, c).
     and_then (get_n (unat r) get_u64 c) (\<lambda>(run, c).
     and_then (get_u32 c) (\<lambda>(l, c).
     and_then (get_n (unat l) get_ledger c) (\<lambda>(ls, c).
     Inr (\<lparr>sn_taken_at = at, sn_slots = slots, sn_free_head = free_head, sn_running = run,
           sn_ledgers = ls\<rparr>, c)))))))))"

definition decode_snapshot :: "(u8 list \<Rightarrow> u32) \<Rightarrow> u8 list \<Rightarrow> wal_error + snapshot" where
  "decode_snapshot hash bytes =
     (if length bytes < 12 \<or> take 8 bytes \<noteq> SNAPSHOT_MAGIC then Inl (BadMagic ''snapshot'')
      else
        let body = take (length bytes - 12) (drop 8 bytes);
            crc = from_le (drop (length bytes - 12) (drop 8 bytes)) :: u32
        in if hash body \<noteq> crc then Inl SnapshotChecksum
           else case get_snapshot (cursor_new body) of
             Inl e \<Rightarrow> Inl (Codec_Error e) | Inr (s, c) \<Rightarrow> Inr s)"

section \<open>Reading back\<close>

definition slot_wire :: "job slot \<Rightarrow> u8 list" where
  "slot_wire s = (case s of
        Occupied g j \<Rightarrow> [1] @ le_bytes 4 g @ job_wire j
      | Vacant g nf \<Rightarrow> [0] @ le_bytes 4 g @ put_opt_u32 [] nf)"

definition slot_fits :: "job slot \<Rightarrow> bool" where
  "slot_fits s \<longleftrightarrow> (case s of Occupied g j \<Rightarrow> job_fits j | Vacant g nf \<Rightarrow> True)"

lemma put_opt_u32_append: "put_opt_u32 b v = b @ put_opt_u32 [] v"
  by (cases v) (simp_all add: put_opt_u32_def put_u8_def put_u32_def)

lemma put_slot_wire: "put_slot b s = (if slot_fits s then Some (b @ slot_wire s) else None)"
proof (cases s)
  case (Occupied g j)
  then show ?thesis by (simp add: put_slot_def slot_wire_def slot_fits_def put_job_wire put_u8_def put_u32_def)
next
  case (Vacant g nf)
  then show ?thesis
    using put_opt_u32_append [of "b @ [0] @ le_bytes 4 g" nf]
    by (simp add: put_slot_def slot_wire_def slot_fits_def put_u8_def put_u32_def)
qed

lemma slot_reads:
  assumes "slot_fits s"
  shows "reads get_slot (slot_wire s) s"
proof (cases s)
  case (Occupied g j)
  with assms have j: "job_fits j" by (simp add: slot_fits_def)
  have "reads (\<lambda>c. and_then (get_u32 c) (\<lambda>(g, c). and_then (get_job c) (\<lambda>(j, c). Inr (Occupied g j, c))))
      (le_bytes 4 g @ job_wire j) (Occupied g j)"
    by (rule reads_and_then [OF u32_reads], rule reads_map [OF job_reads [OF j]])
  then have "reads (\<lambda>c. and_then (get_tag 1 c) (\<lambda>(tag, c). (\<lambda>tag c. if tag = 1
       then and_then (get_u32 c) (\<lambda>(g, c). and_then (get_job c) (\<lambda>(j, c). Inr (Occupied g j, c)))
       else and_then (get_u32 c) (\<lambda>(g, c). and_then (get_opt_u32 c) (\<lambda>(nf, c). Inr (Vacant g nf, c)))) tag c))
      ([1] @ (le_bytes 4 g @ job_wire j)) (Occupied g j)"
    by (intro reads_and_then [OF tag_reads]) simp_all
  with Occupied show ?thesis by (simp add: get_slot_def [abs_def] slot_wire_def)
next
  case (Vacant g nf)
  have "reads (\<lambda>c. and_then (get_u32 c) (\<lambda>(g, c). and_then (get_opt_u32 c) (\<lambda>(nf, c). Inr (Vacant g nf, c))))
      (le_bytes 4 g @ put_opt_u32 [] nf) (Vacant g nf)"
    by (rule reads_and_then [OF u32_reads], rule reads_map [OF opt_u32_reads])
  then have "reads (\<lambda>c. and_then (get_tag 1 c) (\<lambda>(tag, c). (\<lambda>tag c. if tag = 1
       then and_then (get_u32 c) (\<lambda>(g, c). and_then (get_job c) (\<lambda>(j, c). Inr (Occupied g j, c)))
       else and_then (get_u32 c) (\<lambda>(g, c). and_then (get_opt_u32 c) (\<lambda>(nf, c). Inr (Vacant g nf, c)))) tag c))
      ([0] @ (le_bytes 4 g @ put_opt_u32 [] nf)) (Vacant g nf)"
    by (intro reads_and_then [OF tag_reads]) simp_all
  with Vacant show ?thesis by (simp add: get_slot_def [abs_def] slot_wire_def)
qed

interpretation slot_codec: codec put_slot get_slot
  by unfold_locales (auto simp: put_slot_wire slot_reads split: if_splits)

definition ledger_wire :: "ledger \<Rightarrow> u8 list" where
  "ledger_wire l = le_bytes 8 (lg_usage l) @ le_bytes 8 (lg_running_cpu l) @ le_bytes 4 (lg_shares l)
     @ le_bytes 8 (lg_accrued_to l) @ le_bytes 8 (lg_decayed_to l)"

lemma put_ledger_wire: "put_ledger b l = b @ ledger_wire l"
  by (simp add: put_ledger_def ledger_wire_def put_u64_def put_u32_def)

lemma ledger_reads: "reads get_ledger (ledger_wire l) l"
proof -
  have "reads get_ledger (ledger_wire l) (ledger_from_parts (lg_usage l) (lg_running_cpu l) (lg_shares l)
      (lg_accrued_to l) (lg_decayed_to l))"
    unfolding get_ledger_def [abs_def] ledger_wire_def
    by (rule reads_map [OF u64_reads] reads_and_then [OF u64_reads] reads_and_then [OF u32_reads])+
  then show ?thesis by (cases l) (simp add: ledger_from_parts_def)
qed

interpretation ledger_codec: codec "\<lambda>b l. Some (put_ledger b l)" get_ledger
  by unfold_locales (auto simp: put_ledger_wire ledger_reads)

text \<open>A counted sequence of any of the codecs.\<close>

context codec
begin

lemma counted_reads:
  assumes "put_all put [] xs = Some bs" and "length xs < 2 ^ 32"
  shows "reads (get_n (unat (word_of_nat (length xs) :: u32)) get) bs xs"
  using get_n_put_all [OF assms(1)] assms(2) by simp

end

lemma body_reads:
  assumes "put_body buf at slots free_head run ls = Some bs"
  shows "\<exists>b. bs = buf @ b \<and> reads get_snapshot b \<lparr>sn_taken_at = at, sn_slots = slots,
     sn_free_head = free_head, sn_running = run, sn_ledgers = ls\<rparr>"
proof -
  from assms obtain b1 b2 where lens: "length slots < 2 ^ 32" "length run < 2 ^ 32" "length ls < 2 ^ 32"
    and b1: "put_all put_slot (put_u32 (put_u64 buf at) (word_of_nat (length slots))) slots = Some b1"
    and b2: "put_all (\<lambda>b i. Some (put_u64 b i)) (put_u32 (put_opt_u32 b1 free_head) (word_of_nat (length run))) run = Some b2"
    and b3: "put_all (\<lambda>b x. Some (put_ledger b x)) (put_u32 b2 (word_of_nat (length ls))) ls = Some bs"
    by (auto simp: put_body_def expect_u32_def split: if_splits)
  from b1 obtain s where s: "put_all put_slot [] slots = Some s"
    "b1 = put_u32 (put_u64 buf at) (word_of_nat (length slots)) @ s"
    unfolding slot_codec.put_all_append [of "put_u32 _ _"] by blast
  from b2 obtain r where r: "put_all (\<lambda>b i. Some (put_u64 b i)) [] run = Some r"
    "b2 = put_u32 (put_opt_u32 b1 free_head) (word_of_nat (length run)) @ r"
    unfolding u64_codec.put_all_append [of "put_u32 _ _"] by blast
  from b3 obtain l where l: "put_all (\<lambda>b x. Some (put_ledger b x)) [] ls = Some l"
    "bs = put_u32 b2 (word_of_nat (length ls)) @ l"
    unfolding ledger_codec.put_all_append [of "put_u32 _ _"] by blast
  let ?b = "le_bytes 8 at @ le_bytes 4 (word_of_nat (length slots) :: u32) @ s @ put_opt_u32 [] free_head
     @ le_bytes 4 (word_of_nat (length run) :: u32) @ r @ le_bytes 4 (word_of_nat (length ls) :: u32) @ l"
  have "bs = buf @ ?b"
    using s(2) r(2) l(2) put_opt_u32_append [of b1 free_head] by (simp add: put_u32_def put_u64_def)
  moreover have "reads get_snapshot ?b \<lparr>sn_taken_at = at, sn_slots = slots,
     sn_free_head = free_head, sn_running = run, sn_ledgers = ls\<rparr>"
    unfolding get_snapshot_def [abs_def]
    by (rule reads_map [OF ledger_codec.counted_reads [OF l(1) lens(3)]] reads_and_then [OF u64_reads]
        reads_and_then [OF u32_reads] reads_and_then [OF slot_codec.counted_reads [OF s(1) lens(1)]]
        reads_and_then [OF opt_u32_reads] reads_and_then [OF u64_codec.counted_reads [OF r(1) lens(2)]])+
  ultimately show ?thesis by blast
qed

lemma snapshot_decodes:
  assumes "encode_snapshot hash [] at slots free_head run ls = Some bytes"
  shows "decode_snapshot hash bytes = Inr \<lparr>sn_taken_at = at, sn_slots = slots, sn_free_head = free_head,
     sn_running = run, sn_ledgers = ls\<rparr>"
proof -
  from assms obtain bs where
    "put_body SNAPSHOT_MAGIC at slots free_head run ls = Some bs"
    "bytes = put_u32 bs (hash (drop (length SNAPSHOT_MAGIC) bs))"
    by (auto simp: encode_snapshot_def Let_def)
  with body_reads obtain b where
    b: "reads get_snapshot b \<lparr>sn_taken_at = at, sn_slots = slots, sn_free_head = free_head, sn_running = run,
        sn_ledgers = ls\<rparr>" "bytes = SNAPSHOT_MAGIC @ b @ le_bytes 4 (hash b)"
    by (fastforce simp: put_u32_def)
  have m: "length SNAPSHOT_MAGIC = 8" by (simp add: SNAPSHOT_MAGIC_def)
  with readsD [OF b(1), of "cursor_new b" "[]"] b(2) show ?thesis
    by (simp add: decode_snapshot_def Let_def)
qed

section \<open>Properties\<close>

text \<open>
  C31. A snapshot reads back exactly: whatever the encoder accepts, decoding its image returns the
  same slots, free-list head, running handles, ledgers and time, for every checksum function. And no
  image is decoded whose magic is wrong or whose body does not have the checksum stored behind it.
\<close>

theorem snapshot_roundtrip:
  "(\<forall>at slots free_head run ls bytes. encode_snapshot hash [] at slots free_head run ls = Some bytes \<longrightarrow>
      decode_snapshot hash bytes = Inr \<lparr>sn_taken_at = at, sn_slots = slots, sn_free_head = free_head,
        sn_running = run, sn_ledgers = ls\<rparr>)
   \<and> (\<forall>img s. decode_snapshot hash img = Inr s \<longrightarrow>
      (\<exists>body. img = SNAPSHOT_MAGIC @ body @ le_bytes 4 (hash body)))"
proof (intro conjI allI impI)
  fix img s assume "decode_snapshot hash img = Inr s"
  then have d: "12 \<le> length img" "take 8 img = SNAPSHOT_MAGIC"
    "hash (take (length img - 12) (drop 8 img)) = from_le (drop (length img - 12) (drop 8 img))"
    by (auto simp: decode_snapshot_def Let_def split: if_splits)
  let ?body = "take (length img - 12) (drop 8 img)" and ?crc = "drop (length img - 12) (drop 8 img)"
  have "img = take 8 img @ ?body @ ?crc" by (simp only: append_take_drop_id)
  moreover have "?crc = le_bytes 4 (from_le ?crc :: u32)"
    using d(1) by (intro le_bytes_from_le [symmetric]) simp_all
  ultimately show "\<exists>body. img = SNAPSHOT_MAGIC @ body @ le_bytes 4 (hash body)" using d(2,3) by metis
qed (rule snapshot_decodes)

definition sample_ledger :: ledger where
  "sample_ledger = ledger_from_parts 10 0 1 5 5"

theorem snapshot_roundtrip_witness:
  "\<exists>bytes. encode_snapshot (\<lambda>b. word_of_nat (length b)) [] 9 [Vacant 3 None] (Some 0) [] [sample_ledger] = Some bytes
     \<and> decode_snapshot (\<lambda>b. word_of_nat (length b)) bytes = Inr \<lparr>sn_taken_at = 9, sn_slots = [Vacant 3 None],
          sn_free_head = Some 0, sn_running = [], sn_ledgers = [sample_ledger]\<rparr>"
proof -
  obtain bytes where
    "encode_snapshot (\<lambda>b. word_of_nat (length b)) [] 9 [Vacant 3 None] (Some 0) [] [sample_ledger] = Some bytes"
    by (simp add: encode_snapshot_def put_body_def expect_u32_def put_slot_def)
  with snapshot_roundtrip [of "\<lambda>b. word_of_nat (length b)"] show ?thesis by blast
qed

end
