(* ===== verification/Wal_Store.thy ===== *)
theory Wal_Store
  imports Wal_Snapshot "HOL-Library.AList"
begin

text \<open>
  The data directory (\<open>tasker-wal/src/store.rs\<close>) and the open log file of \<open>log.rs\<close>. The directory is
  an association list from file names to contents, changed by the file operations the code calls;
  paths are relative to it. Operations of the file system succeed, except that a missing file is
  reported as such and a file shorter than its magic ends a read early; what a crash between or
  inside two operations leaves behind is described by \<open>rotate_crash\<close>.
\<close>

section \<open>File names\<close>

type_synonym directory = "(string \<times> u8 list) list"

definition digit_char :: "nat \<Rightarrow> char" where
  "digit_char d = char_of (48 + d)"

fun dec_digits :: "nat \<Rightarrow> string" where
  "dec_digits n = (if n < 10 then [digit_char n] else dec_digits (n div 10) @ [digit_char (n mod 10)])"

declare dec_digits.simps [simp del]

text \<open>\<open>format!("{generation:06}")\<close>.\<close>

definition pad6 :: "string \<Rightarrow> string" where
  "pad6 s = replicate (6 - length s) (CHR ''0'') @ s"

definition snapshot_path :: "u64 \<Rightarrow> string" where
  "snapshot_path g = ''snapshot-'' @ pad6 (dec_digits (unat g)) @ ''.bin''"

definition log_path :: "u64 \<Rightarrow> string" where
  "log_path g = ''wal-'' @ pad6 (dec_digits (unat g)) @ ''.log''"

text \<open>\<open>final_path.with_extension("bin.tmp")\<close>.\<close>

definition tmp_path :: "u64 \<Rightarrow> string" where
  "tmp_path g = ''snapshot-'' @ pad6 (dec_digits (unat g)) @ ''.bin.tmp''"

definition strip_prefix :: "string \<Rightarrow> string \<Rightarrow> string option" where
  "strip_prefix p s = (if take (length p) s = p then Some (drop (length p) s) else None)"

definition strip_suffix :: "string \<Rightarrow> string \<Rightarrow> string option" where
  "strip_suffix p s =
     (if length p \<le> length s \<and> drop (length s - length p) s = p
      then Some (take (length s - length p) s) else None)"

definition is_digit :: "char \<Rightarrow> bool" where
  "is_digit c \<longleftrightarrow> 48 \<le> (of_char c :: nat) \<and> (of_char c :: nat) \<le> 57"

definition digits_value :: "string \<Rightarrow> nat" where
  "digits_value ds = foldl (\<lambda>v c. v * 10 + (of_char c - 48)) 0 ds"

text \<open>\<open>str::parse::<u64>\<close>: an optional plus sign, then at least one digit, and no overflow.\<close>

definition parse_u64 :: "string \<Rightarrow> u64 option" where
  "parse_u64 s =
     (let ds = (case s of c # cs \<Rightarrow> if c = CHR ''+'' \<and> cs \<noteq> [] then cs else s | [] \<Rightarrow> [])
      in if ds \<noteq> [] \<and> list_all is_digit ds \<and> digits_value ds < 2 ^ 64
         then Some (word_of_nat (digits_value ds)) else None)"

definition generation_of :: "string \<Rightarrow> u64 option" where
  "generation_of name =
     (case strip_prefix ''snapshot-'' name of
        Some r \<Rightarrow> Option.bind (strip_suffix ''.bin'' r) parse_u64
      | None \<Rightarrow>
          (case strip_prefix ''wal-'' name of
             Some r \<Rightarrow> Option.bind (strip_suffix ''.log'' r) parse_u64
           | None \<Rightarrow> None))"

section \<open>The open log\<close>

record log_writer =
  lw_path :: string
  lw_len :: u64

definition file_bytes :: "directory \<Rightarrow> string \<Rightarrow> u8 list" where
  "file_bytes dir path = (case map_of dir path of None \<Rightarrow> [] | Some bytes \<Rightarrow> bytes)"

text \<open>Opening for append creates the file if it is missing.\<close>

definition log_open :: "directory \<Rightarrow> string \<Rightarrow> directory \<times> (wal_error + log_writer)" where
  "log_open dir path =
     (let bytes = file_bytes dir path;
          dir = AList.update path bytes dir
      in if bytes = []
         then (AList.update path LOG_MAGIC dir,
               Inr \<lparr>lw_path = path, lw_len = word_of_nat (length LOG_MAGIC)\<rparr>)
         else if length bytes < 8 then (dir, Inl (Io UnexpectedEof))
         else if take 8 bytes \<noteq> LOG_MAGIC then (dir, Inl (BadMagic ''log''))
         else (dir, Inr \<lparr>lw_path = path, lw_len = word_of_nat (length bytes)\<rparr>))"

definition log_append :: "log_writer \<Rightarrow> directory \<Rightarrow> u8 list \<Rightarrow> log_writer \<times> directory" where
  "log_append lw dir frames =
     (lw\<lparr>lw_len := lw_len lw + word_of_nat (length frames)\<rparr>,
      AList.update (lw_path lw) (file_bytes dir (lw_path lw) @ frames) dir)"

definition log_is_empty :: "log_writer \<Rightarrow> bool" where
  "log_is_empty lw \<longleftrightarrow> lw_len lw \<le> word_of_nat (length LOG_MAGIC)"

definition read_log :: "(u8 list \<Rightarrow> u32) \<Rightarrow> directory \<Rightarrow> string \<Rightarrow> wal_error + replay" where
  "read_log hash dir path =
     (case map_of dir path of None \<Rightarrow> Inl (Io NotFound) | Some bytes \<Rightarrow> parse_log hash bytes)"

text \<open>\<open>set_len\<close> cuts a longer file and fills a shorter one with zeros.\<close>

definition truncate_log :: "directory \<Rightarrow> string \<Rightarrow> u64 \<Rightarrow> directory \<times> (wal_error + unit)" where
  "truncate_log dir path n =
     (case map_of dir path of
        None \<Rightarrow> (dir, Inl (Io NotFound))
      | Some bytes \<Rightarrow>
          (AList.update path (take (unat n) bytes @ replicate (unat n - length bytes) 0) dir, Inr ()))"

section \<open>The store\<close>

record recovered =
  rc_generation :: u64
  rc_snapshot :: "snapshot option"
  rc_records :: "wal_record list"
  rc_torn_at :: "u64 option"

record store =
  st_generation :: u64
  st_log :: log_writer

definition highest_generation :: "directory \<Rightarrow> u64" where
  "highest_generation dir =
     foldl (\<lambda>g (name, _). case generation_of name of Some h \<Rightarrow> max g h | None \<Rightarrow> g) 0 dir"

definition recover :: "(u8 list \<Rightarrow> u32) \<Rightarrow> directory \<Rightarrow> directory \<times> (wal_error + recovered)" where
  "recover hash dir =
     (let g = highest_generation dir;
          snap = (case map_of dir (snapshot_path g) of
                    None \<Rightarrow> Inr None
                  | Some bytes \<Rightarrow> and_then (decode_snapshot hash bytes) (\<lambda>s. Inr (Some s)))
      in case snap of
           Inl e \<Rightarrow> (dir, Inl e)
         | Inr snap \<Rightarrow>
             (case (if map_of dir (log_path g) = None then Inr replay_default
                    else read_log hash dir (log_path g)) of
                Inl e \<Rightarrow> (dir, Inl e)
              | Inr rp \<Rightarrow>
                  let ok = Inr \<lparr>rc_generation = g, rc_snapshot = snap, rc_records = rp_records rp,
                                rc_torn_at = rp_torn_at rp\<rparr>
                  in case rp_torn_at rp of
                       None \<Rightarrow> (dir, ok)
                     | Some at \<Rightarrow>
                         (case truncate_log dir (log_path g) at of
                            (dir, Inl e) \<Rightarrow> (dir, Inl e)
                          | (dir, Inr _) \<Rightarrow> (dir, ok))))"

definition resume :: "directory \<Rightarrow> u64 \<Rightarrow> directory \<times> (wal_error + store)" where
  "resume dir g =
     (case log_open dir (log_path g) of
        (dir, Inl e) \<Rightarrow> (dir, Inl e)
      | (dir, Inr lw) \<Rightarrow> (dir, Inr \<lparr>st_generation = g, st_log = lw\<rparr>))"

text \<open>\<open>std::fs::rename\<close> replaces the target.\<close>

definition rename_file :: "string \<Rightarrow> string \<Rightarrow> directory \<Rightarrow> directory" where
  "rename_file a b dir = AList.update b (file_bytes dir a) (AList.delete a dir)"

text \<open>On an error the store keeps its generation and its log, as the assignments come later.\<close>

definition rotate :: "store \<Rightarrow> directory \<Rightarrow> u8 list \<Rightarrow> store \<times> directory \<times> (wal_error + unit)" where
  "rotate st dir snap =
     (let nxt = st_generation st + 1;
          dir = AList.update (tmp_path nxt) snap dir;
          dir = rename_file (tmp_path nxt) (snapshot_path nxt) dir
      in case log_open dir (log_path nxt) of
           (dir, Inl e) \<Rightarrow> (st, dir, Inl e)
         | (dir, Inr lw) \<Rightarrow>
             let old = st_generation st in
             (\<lparr>st_generation = nxt, st_log = lw\<rparr>,
              AList.delete (log_path old) (AList.delete (snapshot_path old) dir), Inr ()))"

definition store_append :: "store \<Rightarrow> directory \<Rightarrow> u8 list \<Rightarrow> store \<times> directory" where
  "store_append st dir frames =
     (case log_append (st_log st) dir frames of (lw, dir) \<Rightarrow> (st\<lparr>st_log := lw\<rparr>, dir))"

section \<open>Names and generations\<close>

lemma of_char_digit: "d < 10 \<Longrightarrow> (of_char (digit_char d) :: nat) = 48 + d"
  by (simp add: digit_char_def of_char_of)

lemma is_digit_digit [simp]: "d < 10 \<Longrightarrow> is_digit (digit_char d)"
  by (simp add: is_digit_def of_char_digit)

lemma dec_digits_digits: "dec_digits n \<noteq> [] \<and> list_all is_digit (dec_digits n)"
proof (induction n rule: dec_digits.induct)
  case (1 n)
  then show ?case unfolding dec_digits.simps [of n] by auto
qed

lemma digits_value_snoc: "digits_value (ds @ [c]) = digits_value ds * 10 + (of_char c - 48)"
  by (simp add: digits_value_def)

lemma digits_value_dec: "digits_value (dec_digits n) = n"
proof (induction n rule: dec_digits.induct)
  case (1 n)
  show ?case
  proof (cases "n < 10")
    case True
    then show ?thesis by (simp add: dec_digits.simps [of n] digits_value_def of_char_digit)
  next
    case False
    with 1 show ?thesis by (simp add: dec_digits.simps [of n] digits_value_snoc of_char_digit)
  qed
qed

lemma digits_value_zeros: "digits_value (replicate k (CHR ''0'') @ ds) = digits_value ds"
proof -
  have "foldl (\<lambda>v c. v * 10 + (of_char c - 48)) (0 :: nat) (replicate k (CHR ''0'')) = 0"
    by (induction k) simp_all
  then show ?thesis by (simp add: digits_value_def)
qed

lemma pad6_digits: "pad6 (dec_digits n) \<noteq> [] \<and> list_all is_digit (pad6 (dec_digits n))"
  using dec_digits_digits [of n] by (auto simp: pad6_def list_all_iff is_digit_def)

lemma parse_pad6: "n < 2 ^ 64 \<Longrightarrow> parse_u64 (pad6 (dec_digits n)) = Some (word_of_nat n)"
proof -
  assume n: "n < 2 ^ 64"
  have d: "pad6 (dec_digits n) \<noteq> []" "list_all is_digit (pad6 (dec_digits n))" using pad6_digits by auto
  then obtain c cs where c: "pad6 (dec_digits n) = c # cs" "is_digit c" by (cases "pad6 (dec_digits n)") auto
  from c(2) have "c \<noteq> CHR ''+''" by (auto simp: is_digit_def)
  with c(1) have "(case pad6 (dec_digits n) of c # cs \<Rightarrow> if c = CHR ''+'' \<and> cs \<noteq> [] then cs
      else pad6 (dec_digits n) | [] \<Rightarrow> []) = pad6 (dec_digits n)" by simp
  moreover have "digits_value (pad6 (dec_digits n)) = n" by (simp add: pad6_def digits_value_zeros digits_value_dec)
  ultimately show ?thesis using d n by (simp add: parse_u64_def)
qed

lemma parse_generation: "parse_u64 (pad6 (dec_digits (unat g))) = Some g"
  using parse_pad6 [of "unat g"] unat_lt [of g] by simp

lemma strip_suffix_append [simp]: "strip_suffix p (s @ p) = Some s"
  by (simp add: strip_suffix_def)

lemma strip_prefix_append [simp]: "strip_prefix p (p @ s) = Some s"
  by (simp add: strip_prefix_def)

lemma generation_of_snapshot [simp]: "generation_of (snapshot_path g) = Some g"
proof -
  have "strip_prefix ''snapshot-'' (snapshot_path g) = Some (pad6 (dec_digits (unat g)) @ ''.bin'')"
    unfolding snapshot_path_def by (rule strip_prefix_append)
  then show ?thesis by (simp add: generation_of_def parse_generation)
qed

lemma generation_of_log [simp]: "generation_of (log_path g) = Some g"
proof -
  have "strip_prefix ''wal-'' (log_path g) = Some (pad6 (dec_digits (unat g)) @ ''.log'')"
    unfolding log_path_def by (rule strip_prefix_append)
  moreover have "strip_prefix ''snapshot-'' (log_path g) = None" by (simp add: strip_prefix_def log_path_def)
  ultimately show ?thesis by (simp add: generation_of_def parse_generation)
qed

lemma generation_of_tmp [simp]: "generation_of (tmp_path g) = None"
proof -
  have "strip_prefix ''snapshot-'' (tmp_path g) = Some (pad6 (dec_digits (unat g)) @ ''.bin.tmp'')"
    unfolding tmp_path_def by (rule strip_prefix_append)
  moreover have "strip_suffix ''.bin'' (s @ ''.bin.tmp'') = None" for s by (simp add: strip_suffix_def)
  ultimately show ?thesis by (simp add: generation_of_def)
qed

lemma paths_differ [simp]:
  "snapshot_path g \<noteq> log_path h" "log_path g \<noteq> snapshot_path h" "tmp_path g \<noteq> snapshot_path h"
  "tmp_path g \<noteq> log_path h" "snapshot_path h \<noteq> tmp_path g" "log_path h \<noteq> tmp_path g"
  "snapshot_path g = snapshot_path h \<longleftrightarrow> g = h" "log_path g = log_path h \<longleftrightarrow> g = h"
proof -
  show "snapshot_path g \<noteq> log_path h" "log_path g \<noteq> snapshot_path h"
    by (simp_all add: snapshot_path_def log_path_def)
  show "tmp_path g \<noteq> snapshot_path h" "tmp_path g \<noteq> log_path h" "snapshot_path h \<noteq> tmp_path g" "log_path h \<noteq> tmp_path g"
    by (metis generation_of_tmp generation_of_snapshot generation_of_log option.distinct(1))+
  show "snapshot_path g = snapshot_path h \<longleftrightarrow> g = h" "log_path g = log_path h \<longleftrightarrow> g = h"
    by (metis generation_of_snapshot generation_of_log option.inject)+
qed

section \<open>What recovery sees\<close>

definition generations :: "directory \<Rightarrow> u64 set" where
  "generations dir = {h. \<exists>n \<in> dom (map_of dir). generation_of n = Some h}"

lemma finite_generations: "finite (generations dir)"
proof -
  have "generations dir \<subseteq> (\<lambda>n. the (generation_of n)) ` dom (map_of dir)"
    unfolding generations_def by (force simp: image_iff)
  then show ?thesis by (rule finite_subset) (simp add: finite_dom_map_of)
qed

lemma generations_update: "generations (AList.update n v dir) = set_option (generation_of n) \<union> generations dir"
  by (auto simp: generations_def update_conv' split: if_splits)

lemma generations_delete: "generations (AList.delete n dir) \<subseteq> generations dir"
  by (auto simp: generations_def delete_conv' split: if_splits)

lemma highest_foldl:
  fixes g0 :: u64
  shows "foldl (\<lambda>g (name, _). case generation_of name of Some h \<Rightarrow> max g h | None \<Rightarrow> g) g0 dir
     = Max (insert g0 (generations dir))"
proof (induction dir arbitrary: g0)
  case Nil
  then show ?case by (simp add: generations_def)
next
  case (Cons e dir)
  obtain n b where e: "e = (n, b)" by (cases e)
  show ?case
  proof (cases "generation_of n")
    case None
    then have "generations (e # dir) = generations dir" by (auto simp: generations_def e)
    with Cons.IH [of g0] None show ?thesis by (simp add: e)
  next
    case (Some h)
    then have gs: "generations (e # dir) = insert h (generations dir)" by (auto simp: generations_def e)
    have "Max (insert (max g0 h) (generations dir)) = Max (insert g0 (insert h (generations dir)))"
      using finite_generations [of dir] by (cases "generations dir = {}") (simp_all add: max.assoc)
    with Cons.IH [of "max g0 h"] Some gs show ?thesis by (simp add: e)
  qed
qed

lemma highest_generation_eq:
  assumes "\<forall>h\<in>generations dir. h \<le> g" and "g = 0 \<or> g \<in> generations dir"
  shows "highest_generation dir = g"
proof -
  have "Max (insert 0 (generations dir)) = g"
    by (rule Max_eqI) (use assms finite_generations in auto)
  then show ?thesis by (simp add: highest_generation_def highest_foldl)
qed

lemma highest_generation_upper: "h \<in> generations dir \<Longrightarrow> h \<le> highest_generation dir"
  by (simp add: highest_generation_def highest_foldl finite_generations)

lemma highest_generation_in: "highest_generation dir = 0 \<or> highest_generation dir \<in> generations dir"
  using Max_in [of "insert 0 (generations dir)"] by (simp add: highest_generation_def highest_foldl finite_generations)

text \<open>The result of recovery from the highest generation and the contents of its two files.\<close>

definition loaded :: "(u8 list \<Rightarrow> u32) \<Rightarrow> u64 \<Rightarrow> u8 list option \<Rightarrow> u8 list option \<Rightarrow> wal_error + recovered" where
  "loaded hash g snap log =
     and_then (case snap of None \<Rightarrow> Inr None | Some bytes \<Rightarrow> and_then (decode_snapshot hash bytes) (\<lambda>s. Inr (Some s)))
       (\<lambda>s. and_then (case log of None \<Rightarrow> Inr replay_default | Some bytes \<Rightarrow> parse_log hash bytes)
         (\<lambda>rp. Inr \<lparr>rc_generation = g, rc_snapshot = s, rc_records = rp_records rp, rc_torn_at = rp_torn_at rp\<rparr>))"

lemma recover_loaded:
  "snd (recover hash dir) = loaded hash (highest_generation dir)
     (map_of dir (snapshot_path (highest_generation dir))) (map_of dir (log_path (highest_generation dir)))"
  by (auto simp: recover_def loaded_def read_log_def truncate_log_def replay_default_def and_then_def Let_def
      split: sum.splits option.splits)

lemma parse_magic: "parse_log hash LOG_MAGIC = Inr \<lparr>rp_records = [], rp_torn_at = None\<rparr>"
  by (simp add: parse_log_def parse_frames_end)

lemma parse_partial_magic: "k < 8 \<Longrightarrow> parse_log hash (take k LOG_MAGIC) = Inl (BadMagic ''log'')"
  by (simp add: parse_log_def)

section \<open>Crashes during a rotation\<close>

text \<open>
  The directories a crash during \<open>rotate\<close> can leave: before anything happened, with part of the new
  snapshot in the temporary file, after the rename, with part of the new log's magic written, and
  with the old snapshot or both old files removed.
\<close>

definition dir_renamed :: "directory \<Rightarrow> u64 \<Rightarrow> u8 list \<Rightarrow> directory" where
  "dir_renamed dir g snap =
     rename_file (tmp_path (g + 1)) (snapshot_path (g + 1)) (AList.update (tmp_path (g + 1)) snap dir)"

inductive rotate_crash :: "directory \<Rightarrow> u64 \<Rightarrow> u8 list \<Rightarrow> directory \<Rightarrow> bool" for dir g snap where
  crash_before: "rotate_crash dir g snap dir"
| crash_writing: "k \<le> length snap \<Longrightarrow> rotate_crash dir g snap (AList.update (tmp_path (g + 1)) (take k snap) dir)"
| crash_renamed: "rotate_crash dir g snap (dir_renamed dir g snap)"
| crash_log: "k \<le> 8 \<Longrightarrow>
    rotate_crash dir g snap (AList.update (log_path (g + 1)) (take k LOG_MAGIC) (dir_renamed dir g snap))"
| crash_old_snapshot: "rotate_crash dir g snap (AList.delete (snapshot_path g)
    (AList.update (log_path (g + 1)) LOG_MAGIC (dir_renamed dir g snap)))"
| crash_done: "rotate_crash dir g snap (AList.delete (log_path g) (AList.delete (snapshot_path g)
    (AList.update (log_path (g + 1)) LOG_MAGIC (dir_renamed dir g snap))))"

lemma dir_renamed_view:
  "map_of (dir_renamed dir g snap) = (map_of dir)(tmp_path (g + 1) := None, snapshot_path (g + 1) \<mapsto> snap)"
  by (rule ext) (simp add: dir_renamed_def rename_file_def file_bytes_def update_conv' delete_conv')

lemma update_update_same_view: "map_of (AList.update k v (AList.update k w dir)) = map_of (AList.update k v dir)"
  by (simp add: update_conv')

text \<open>The last of them is what a rotation that succeeds leaves.\<close>

lemma rotate_view:
  assumes "map_of dir (log_path (st_generation st + 1)) = None" and "rotate st dir snap = (st', dir', r)"
  shows "r = Inr () \<and> st_generation st' = st_generation st + 1
     \<and> map_of dir' = map_of (AList.delete (log_path (st_generation st)) (AList.delete (snapshot_path (st_generation st))
         (AList.update (log_path (st_generation st + 1)) LOG_MAGIC (dir_renamed dir (st_generation st) snap))))"
proof -
  have "file_bytes (dir_renamed dir (st_generation st) snap) (log_path (st_generation st + 1)) = []"
    using assms(1) by (simp add: file_bytes_def dir_renamed_view)
  then show ?thesis
    using assms(2) by (auto simp: rotate_def log_open_def dir_renamed_def [symmetric] Let_def delete_conv' update_conv')
qed

lemma next_generation_greater: "g \<noteq> - 1 \<Longrightarrow> g < g + 1" for g :: u64
proof -
  assume "g \<noteq> - 1"
  then have "unat g \<noteq> unat (- 1 :: u64)" by (metis unsigned_word_eqI)
  then have "unat g + unat (1 :: u64) < 2 ^ 64" using unat_lt [of g] by (simp add: unat_minus_one_word_eq)
  then have "unat (g + 1) = Suc (unat g)" by (simp add: unat_add_exact)
  then show ?thesis by (simp add: word_less_nat_alt)
qed



section \<open>Appending\<close>

lemma parse_log_magic: "parse_log hash bytes = Inr rep \<Longrightarrow> 8 \<le> length bytes \<and> take 8 bytes = LOG_MAGIC"
  by (auto simp: parse_log_def split: if_splits)

lemma highest_generation_update:
  "generation_of n = Some (highest_generation dir) \<Longrightarrow>
     highest_generation (AList.update n v dir) = highest_generation dir"
  using highest_generation_upper [of _ dir] highest_generation_in [of dir]
  by (intro highest_generation_eq) (auto simp: generations_update)

text \<open>A log file of intact frames only, and what the loop does with bytes written behind them.\<close>

definition log_image :: "(u8 list \<Rightarrow> u32) \<Rightarrow> u8 list \<Rightarrow> wal_record list \<Rightarrow> bool" where
  "log_image hash bytes rs \<longleftrightarrow> 8 \<le> length bytes \<and> take 8 bytes = LOG_MAGIC
     \<and> parse_frames hash bytes 8 [] = Inr (rs, length bytes)"

lemma log_image_tail:
  "log_image hash bytes rs \<Longrightarrow>
     parse_frames hash (bytes @ extra) 8 [] = parse_frames hash (bytes @ extra) (length bytes) rs"
  using parse_frames_prefix [of hash bytes 8 "[]" rs "length bytes" extra] by (simp add: log_image_def)

lemma log_image_append:
  assumes "log_image hash bytes rs" and "put_all (encode hash) [] new = Some frames"
  shows "log_image hash (bytes @ frames) (rs @ new)"
  using assms(1) log_image_tail [OF assms(1), of frames] encode_all_log [OF assms(2)]
    parse_frames_all [of new hash bytes rs] by (simp add: log_image_def)

lemma log_image_fresh: "log_image hash LOG_MAGIC []"
  by (simp add: log_image_def parse_frames_end)

lemma log_image_parse: "log_image hash bytes rs \<longleftrightarrow> parse_log hash bytes = Inr \<lparr>rp_records = rs, rp_torn_at = None\<rparr>"
proof
  assume "log_image hash bytes rs"
  then show "parse_log hash bytes = Inr \<lparr>rp_records = rs, rp_torn_at = None\<rparr>"
    by (simp add: log_image_def parse_log_def)
next
  assume a: "parse_log hash bytes = Inr \<lparr>rp_records = rs, rp_torn_at = None\<rparr>"
  then obtain q where q: "8 \<le> length bytes" "take 8 bytes = LOG_MAGIC" "parse_frames hash bytes 8 [] = Inr (rs, q)"
    "\<not> q < length bytes" by (auto simp: parse_log_def and_then_Inr_iff split: if_splits)
  from parse_frames_prefix [OF q(3,1)] q show "log_image hash bytes rs" by (simp add: log_image_def)
qed

text \<open>After a recovery the log of its generation holds exactly the frames it returned.\<close>

lemma recover_cuts:
  assumes "recover hash dir = (dir1, Inr R)" and "map_of dir (log_path (rc_generation R)) = Some bytes"
    and "length bytes < 2 ^ 64"
  shows "\<exists>c. map_of dir1 = (map_of dir)(log_path (rc_generation R) \<mapsto> c)
     \<and> highest_generation dir1 = rc_generation R
     \<and> log_image hash c (rc_records R)"
proof -
  let ?g = "highest_generation dir" let ?p = "log_path ?g"
  have "loaded hash ?g (map_of dir (snapshot_path ?g)) (map_of dir ?p) = Inr R"
    using recover_loaded [of hash dir] assms(1) by simp
  then have g: "rc_generation R = ?g" by (auto simp: loaded_def and_then_Inr_iff)
  with assms(2) have b: "map_of dir ?p = Some bytes" by simp
  with assms(1) obtain rp where rp: "parse_log hash bytes = Inr rp" "rc_records R = rp_records rp"
    and d1: "dir1 = (case rp_torn_at rp of None \<Rightarrow> dir | Some at \<Rightarrow> fst (truncate_log dir ?p at))"
    by (auto simp: recover_def read_log_def truncate_log_def Let_def split: sum.splits option.splits)
  define q where "q = (case rp_torn_at rp of None \<Rightarrow> length bytes | Some at \<Rightarrow> unat at)"
  have "put_all (encode hash) (take q bytes) [] = Some (take q bytes)" by simp
  from parse_log_extend [OF rp(1) assms(3) q_def this] have
    q: "q \<le> length bytes" and ext: "log_image hash (take q bytes) (rc_records R)" by (simp_all add: rp(2) log_image_parse)
  have v: "map_of dir1 = (map_of dir)(?p \<mapsto> take q bytes)"
    using q b by (cases "rp_torn_at rp") (auto simp: d1 q_def truncate_log_def update_conv')
  have "dom (map_of dir1) = dom (map_of dir)" using b by (auto simp: v)
  then have "generations dir1 = generations dir" by (simp add: generations_def)
  then have "highest_generation dir1 = ?g" by (simp add: highest_generation_def highest_foldl)
  with v ext show ?thesis unfolding g by blast
qed

lemma recover_no_log:
  assumes "recover hash dir = (dir1, Inr R)" and "map_of dir (log_path (rc_generation R)) = None"
  shows "dir1 = dir \<and> rc_records R = [] \<and> highest_generation dir = rc_generation R"
proof -
  have "loaded hash (highest_generation dir) (map_of dir (snapshot_path (highest_generation dir)))
      (map_of dir (log_path (highest_generation dir))) = Inr R"
    using recover_loaded [of hash dir] assms(1) by simp
  then have g: "rc_generation R = highest_generation dir" by (auto simp: loaded_def and_then_Inr_iff)
  with assms show ?thesis
    by (auto simp: recover_def replay_default_def Let_def split: sum.splits option.splits)
qed

section \<open>What the store holds\<close>

text \<open>
  An open store and its directory hold a generation: it is the highest one, the store's log is its
  log and has intact frames only, and its snapshot decodes.
\<close>

definition store_holds :: "(u8 list \<Rightarrow> u32) \<Rightarrow> store \<Rightarrow> directory \<Rightarrow> recovered \<Rightarrow> bool" where
  "store_holds hash st dir R \<longleftrightarrow>
     st_generation st = rc_generation R \<and> lw_path (st_log st) = log_path (rc_generation R)
     \<and> highest_generation dir = rc_generation R \<and> rc_torn_at R = None
     \<and> (\<exists>bytes. map_of dir (log_path (rc_generation R)) = Some bytes \<and> log_image hash bytes (rc_records R))
     \<and> (case map_of dir (snapshot_path (rc_generation R)) of
          None \<Rightarrow> rc_snapshot R = None
        | Some bytes \<Rightarrow> \<exists>s. decode_snapshot hash bytes = Inr s \<and> rc_snapshot R = Some s)"

lemma store_holds_recover: "store_holds hash st dir R \<Longrightarrow> snd (recover hash dir) = Inr R"
  by (cases R) (auto simp: store_holds_def recover_loaded loaded_def log_image_parse split: option.splits)

lemma store_holds_append:
  assumes "store_holds hash st dir R" and "put_all (encode hash) [] rs = Some frames"
    and "store_append st dir frames = (st', dir')"
  shows "store_holds hash st' dir' (R\<lparr>rc_records := rc_records R @ rs\<rparr>)"
  using assms log_image_append [OF _ assms(2)]
  by (auto simp: store_holds_def store_append_def log_append_def file_bytes_def update_conv' highest_generation_update split: option.splits)

lemma store_holds_rotate:
  assumes h: "store_holds hash st dir R" and g: "rc_generation R \<noteq> - 1" and d: "decode_snapshot hash snap = Inr s"
    and r: "rotate st dir snap = (st', dir', res)"
  shows "res = Inr () \<and> store_holds hash st' dir'
     \<lparr>rc_generation = rc_generation R + 1, rc_snapshot = Some s, rc_records = [], rc_torn_at = None\<rparr>"
proof -
  let ?g = "rc_generation R"
  have gs: "st_generation st = ?g" "highest_generation dir = ?g" using h by (auto simp: store_holds_def)
  have lt: "?g < ?g + 1" by (rule next_generation_greater [OF g])
  have none: "map_of dir (log_path (?g + 1)) = None"
  proof (rule ccontr)
    assume "map_of dir (log_path (?g + 1)) \<noteq> None"
    then have "?g + 1 \<in> generations dir"
      unfolding generations_def by (intro CollectI bexI [of _ "log_path (?g + 1)"]) auto
    from highest_generation_upper [OF this] gs lt show False by simp
  qed
  from rotate_view [OF _ r] none gs have v: "res = Inr ()" "st_generation st' = ?g + 1"
    "map_of dir' = (map_of dir)(tmp_path (?g + 1) := None, snapshot_path (?g + 1) \<mapsto> snap, log_path (?g + 1) \<mapsto> LOG_MAGIC,
       snapshot_path ?g := None, log_path ?g := None)"
    by (auto simp: update_conv' delete_conv' dir_renamed_view)
  have "?g + 1 \<noteq> ?g" using lt by simp
  then have f: "map_of dir' (snapshot_path (?g + 1)) = Some snap" "map_of dir' (log_path (?g + 1)) = Some LOG_MAGIC"
    by (simp_all add: v(3))
  have "generations dir' \<subseteq> insert (?g + 1) (generations dir)"
    by (auto simp: generations_def v(3) split: if_splits)
  moreover have "?g + 1 \<in> generations dir'"
    using f(2) unfolding generations_def by (intro CollectI bexI [of _ "log_path (?g + 1)"]) auto
  ultimately have hi: "highest_generation dir' = ?g + 1"
    using highest_generation_upper [of _ dir] gs(2) lt by (intro highest_generation_eq) fastforce+
  have "lw_path (st_log st') = log_path (?g + 1)"
    using r v(1) gs(1) by (auto simp: rotate_def log_open_def Let_def split: if_splits)
  with v(1,2) f hi d show ?thesis by (simp add: store_holds_def log_image_fresh)
qed

text \<open>Recovery and resumption give an open store that holds what was recovered.\<close>

lemma resume_holds:
  assumes rec: "recover hash dir = (dir1, Inr R)" and res: "resume dir1 (rc_generation R) = (dir2, r)"
    and len: "length (file_bytes dir (log_path (rc_generation R))) < 2 ^ 64"
  shows "\<exists>st. r = Inr st \<and> store_holds hash st dir2 (R\<lparr>rc_torn_at := None\<rparr>)"
proof -
  let ?p = "log_path (rc_generation R)"
  have l: "loaded hash (highest_generation dir) (map_of dir (snapshot_path (highest_generation dir)))
      (map_of dir (log_path (highest_generation dir))) = Inr R"
    using recover_loaded [of hash dir] rec by simp
  then have g: "rc_generation R = highest_generation dir" by (auto simp: loaded_def and_then_Inr_iff)
  have sn: "case map_of dir (snapshot_path (rc_generation R)) of None \<Rightarrow> rc_snapshot R = None
        | Some bytes \<Rightarrow> \<exists>s. decode_snapshot hash bytes = Inr s \<and> rc_snapshot R = Some s"
    using l by (auto simp: loaded_def and_then_Inr_iff g split: option.splits)
  have "\<exists>c st. r = Inr st \<and> map_of dir2 = (map_of dir)(?p \<mapsto> c) \<and> st_generation st = rc_generation R
     \<and> lw_path (st_log st) = ?p \<and> log_image hash c (rc_records R)"
  proof (cases "map_of dir ?p")
    case None
    from recover_no_log [OF rec None] have d: "dir1 = dir" "rc_records R = []" by auto
    with None res show ?thesis
      by (auto simp: resume_def log_open_def file_bytes_def Let_def update_conv' log_image_fresh intro!: exI [of _ LOG_MAGIC])
  next
    case (Some bytes)
    have "length bytes < 2 ^ 64" using len Some by (simp add: file_bytes_def)
    from recover_cuts [OF rec Some this] obtain c where
      c: "map_of dir1 = (map_of dir)(?p \<mapsto> c)" and i: "log_image hash c (rc_records R)" by blast
    from i have "8 \<le> length c" "take 8 c = LOG_MAGIC" by (simp_all add: log_image_def)
    with res i show ?thesis
      by (intro exI [of _ c]) (auto simp: resume_def log_open_def file_bytes_def c Let_def update_conv' split: if_splits)
  qed
  then obtain c st where c: "r = Inr st" "map_of dir2 = (map_of dir)(?p \<mapsto> c)" "st_generation st = rc_generation R"
    "lw_path (st_log st) = ?p" "log_image hash c (rc_records R)" by blast
  have "generations dir2 = insert (rc_generation R) (generations dir)"
    unfolding generations_def by (auto simp: c(2) split: if_splits intro: bexI [of _ "log_path (rc_generation R)"])
  then have "highest_generation dir2 = rc_generation R"
    using highest_generation_upper [of _ dir] g by (intro highest_generation_eq) auto
  with c sn show ?thesis by (auto simp: store_holds_def split: option.splits)
qed

end
