(* ===== verification/Messages.thy ===== *)
theory Messages
  imports Scheduler_Run Wal_Store
begin

text \<open>
  The messages into and out of the scheduler thread, from \<open>taskerd/src/command.rs\<close>. A reply channel
  is a one-shot sender; the model names it by a number, and answering on it appends the number and
  the answer to the list of answers sent. The rings of \<open>inbox.rs\<close> and \<open>outbox.rs\<close> belong to a
  library: their \<open>push\<close> and \<open>pop\<close> are arguments of the definitions that use them.
\<close>

section \<open>Commands\<close>

type_synonym reply = nat

datatype query =
  Status job_id reply
| Queue reply
| Nodes reply
| Demand reply
| Accounts reply

datatype command =
  Cmd_Submit job reply
| Cmd_Cancel job_id reply
| Cmd_Completed job_id
| Cmd_Failed job_id
| Cmd_Preempted job_id
| Cmd_WorkerJoined string resources "job_id list" reply
| Cmd_WorkerLeft slot_index
| Cmd_WorkerDraining slot_index
| Cmd_Query query

section \<open>Answers\<close>

record queue_summary =
  qs_ready :: nat
  qs_blocked :: nat
  qs_running :: nat
  qs_cycles :: u64

record node_summary =
  ns_slot :: slot_index
  ns_name :: string
  ns_capacity :: resources
  ns_allocated :: resources
  ns_attached :: bool

record account_summary =
  as_account :: u32
  as_shares :: u32
  as_usage :: u64
  as_running_cpu :: u64
  as_fairshare :: u64

record demand =
  dm_desired :: u32
  dm_attached :: u32
  dm_cpu_ready :: u64
  dm_cpu_running :: u64

definition demand_default :: demand where
  "demand_default = \<lparr>dm_desired = 0, dm_attached = 0, dm_cpu_ready = 0, dm_cpu_running = 0\<rparr>"

datatype answer =
  Ans_Submit "lifecycle_error + job_id \<times> job_state"
| Ans_Cancel "lifecycle_error + job_id list"
| Ans_Slot slot_index
| Ans_Status "job_state option"
| Ans_Queue queue_summary
| Ans_Nodes "node_summary list"
| Ans_Demand demand
| Ans_Accounts "account_summary list"

section \<open>Dispatches\<close>

datatype dispatch =
  Assign slot_index job_id "u8 list" virtual_duration
| Kill slot_index job_id
| Preempt slot_index job_id virtual_duration

text \<open>
  What the scheduler thread touches outside its own state: the dispatcher's ring, of the library's
  type \<open>'q\<close>, and the answers sent so far.
\<close>

record 'q world =
  wd_outbox :: 'q
  wd_sent :: "(reply \<times> answer) list"

text \<open>The library functions the daemon calls: the checksum of \<open>crc32fast\<close> and the ring's \<open>push\<close>.\<close>

record 'q libs =
  crc32 :: "u8 list \<Rightarrow> u32"
  ring_push :: "'q \<Rightarrow> dispatch \<Rightarrow> 'q \<times> (dispatch + unit)"

definition send_reply :: "reply \<Rightarrow> answer \<Rightarrow> 'q world \<Rightarrow> 'q world" where
  "send_reply r a w = w\<lparr>wd_sent := wd_sent w @ [(r, a)]\<rparr>"

definition outbox_push :: "'q libs \<Rightarrow> 'q world \<Rightarrow> dispatch \<Rightarrow> 'q world \<times> (dispatch + unit)" where
  "outbox_push L w d =
     (case ring_push L (wd_outbox w) d of (q, r) \<Rightarrow> (w\<lparr>wd_outbox := q\<rparr>, r))"

text \<open>
  \<open>push_with_retry\<close>: between two attempts the ring changes as its other users please, here by
  \<open>pause\<close>, which takes the attempt's number.
\<close>

fun push_with_retry ::
  "('r \<Rightarrow> command \<Rightarrow> 'r \<times> (command + unit)) \<Rightarrow> (nat \<Rightarrow> 'r \<Rightarrow> 'r) \<Rightarrow> 'r \<Rightarrow> command \<Rightarrow> nat
     \<Rightarrow> 'r \<times> (command + unit)" where
  "push_with_retry push pause q c 0 = (q, Inl c)"
| "push_with_retry push pause q c (Suc n) =
     (case push q c of
        (q, Inr u) \<Rightarrow> (q, Inr ())
      | (q, Inl back) \<Rightarrow> push_with_retry push pause (pause n q) back n)"

end
