(* ===== verification/Journal.thy ===== *)
theory Journal
  imports Messages
begin

text \<open>
  The write-ahead side of the engine, from \<open>taskerd/src/journal.rs\<close>: the batch the engine builds
  during a tick, the bounded channel to the writer thread, and the writer, which appends each batch
  to the data directory and then releases the replies and dispatches that waited for it. An
  acknowledgement is a closure that sends one reply; the model keeps that reply.
\<close>

section \<open>Model\<close>

definition COMMIT_QUEUE_DEPTH :: nat where
  "COMMIT_QUEUE_DEPTH = 1"

type_synonym ack = "reply \<times> answer"

record commit =
  cm_before :: "u8 list"
  cm_frames :: "u8 list"
  cm_acks :: "ack list"
  cm_dispatches :: "dispatch list"
  cm_snapshot :: "u8 list option"

definition commit_default :: commit where
  "commit_default = \<lparr>cm_before = [], cm_frames = [], cm_acks = [], cm_dispatches = [], cm_snapshot = None\<rparr>"

definition commit_is_empty :: "commit \<Rightarrow> bool" where
  "commit_is_empty c \<longleftrightarrow> cm_before c = [] \<and> cm_frames c = [] \<and> cm_acks c = [] \<and> cm_dispatches c = []
     \<and> cm_snapshot c = None"

text \<open>The bounded channel of the standard library: its messages, its bound, and whether the receiver lives.\<close>

record channel =
  ch_queue :: "commit list"
  ch_bound :: nat
  ch_open :: bool

datatype try_send_error = Full commit | Disconnected commit

definition try_send :: "channel \<Rightarrow> commit \<Rightarrow> channel \<times> (try_send_error + unit)" where
  "try_send ch c =
     (if \<not> ch_open ch then (ch, Inl (Disconnected c))
      else if ch_bound ch \<le> length (ch_queue ch) then (ch, Inl (Full c))
      else (ch\<lparr>ch_queue := ch_queue ch @ [c]\<rparr>, Inr ()))"

text \<open>A blocking \<open>send\<close> waits behind the messages there are; it fails when the receiver is gone.\<close>

definition send :: "channel \<Rightarrow> commit \<Rightarrow> channel \<times> (commit + unit)" where
  "send ch c =
     (if ch_open ch then (ch\<lparr>ch_queue := ch_queue ch @ [c]\<rparr>, Inr ()) else (ch, Inl c))"

record journal =
  jn_tx :: channel
  jn_pending :: commit
  jn_rotate_bytes :: u64
  jn_bytes_since_rotate :: u64

definition journal_new :: "channel \<Rightarrow> u64 \<Rightarrow> journal" where
  "journal_new tx bytes =
     \<lparr>jn_tx = tx, jn_pending = commit_default, jn_rotate_bytes = bytes, jn_bytes_since_rotate = 0\<rparr>"

definition grew :: "journal \<Rightarrow> nat \<Rightarrow> journal" where
  "grew jn start =
     jn\<lparr>jn_bytes_since_rotate :=
          jn_bytes_since_rotate jn + word_of_nat (length (cm_frames (jn_pending jn)) - start)\<rparr>"

definition set_frames :: "journal \<Rightarrow> u8 list \<Rightarrow> journal" where
  "set_frames jn frames = jn\<lparr>jn_pending := (jn_pending jn)\<lparr>cm_frames := frames\<rparr>\<rparr>"

definition journal_record :: "(u8 list \<Rightarrow> u32) \<Rightarrow> journal \<Rightarrow> wal_record \<Rightarrow> journal option" where
  "journal_record hash jn r =
     (let start = length (cm_frames (jn_pending jn))
      in do { frames \<leftarrow> encode hash (cm_frames (jn_pending jn)) r;
              Some (grew (set_frames jn frames) start) })"

definition record_submitted :: "(u8 list \<Rightarrow> u32) \<Rightarrow> journal \<Rightarrow> job_id \<Rightarrow> job \<Rightarrow> journal option" where
  "record_submitted hash jn i j =
     (let start = length (cm_frames (jn_pending jn))
      in do { frames \<leftarrow> encode_submitted hash (cm_frames (jn_pending jn)) i j;
              Some (grew (set_frames jn frames) start) })"

definition defer_ack :: "journal \<Rightarrow> ack \<Rightarrow> journal" where
  "defer_ack jn a = jn\<lparr>jn_pending := (jn_pending jn)\<lparr>cm_acks := cm_acks (jn_pending jn) @ [a]\<rparr>\<rparr>"

definition hold :: "journal \<Rightarrow> dispatch \<Rightarrow> journal" where
  "hold jn d =
     jn\<lparr>jn_pending := (jn_pending jn)\<lparr>cm_dispatches := cm_dispatches (jn_pending jn) @ [d]\<rparr>\<rparr>"

definition wants_snapshot :: "journal \<Rightarrow> bool" where
  "wants_snapshot jn \<longleftrightarrow>
     cm_snapshot (jn_pending jn) = None \<and> jn_bytes_since_rotate jn \<ge> jn_rotate_bytes jn"

definition attach_snapshot :: "journal \<Rightarrow> u8 list \<Rightarrow> journal" where
  "attach_snapshot jn bytes =
     jn\<lparr>jn_pending := (jn_pending jn)\<lparr>cm_before := cm_frames (jn_pending jn), cm_frames := [],
          cm_snapshot := Some bytes\<rparr>, jn_bytes_since_rotate := 0\<rparr>"

definition journal_commit :: "journal \<Rightarrow> journal \<times> bool" where
  "journal_commit jn =
     (if commit_is_empty (jn_pending jn) then (jn, True)
      else
        let batch = jn_pending jn; jn = jn\<lparr>jn_pending := commit_default\<rparr>
        in case try_send (jn_tx jn) batch of
             (tx, Inr u) \<Rightarrow> (jn\<lparr>jn_tx := tx\<rparr>, True)
           | (tx, Inl (Full batch)) \<Rightarrow> (jn\<lparr>jn_tx := tx, jn_pending := batch\<rparr>, False)
           | (tx, Inl (Disconnected batch)) \<Rightarrow> (jn\<lparr>jn_tx := tx, jn_pending := batch\<rparr>, False))"

definition flush :: "journal \<Rightarrow> journal" where
  "flush jn =
     (if commit_is_empty (jn_pending jn) then jn
      else jn\<lparr>jn_pending := commit_default, jn_tx := fst (send (jn_tx jn) (jn_pending jn))\<rparr>)"

section \<open>The writer\<close>

datatype sync_policy = Sync_Full | Sync_Data | Sync_None

text \<open>
  What the disk does with one append and the sync behind it: the write may fail after some of the
  bytes, and the sync may fail.
\<close>

record disk_answer =
  short_write :: "nat option"
  sync_fails :: bool

definition try_append ::
  "store \<Rightarrow> directory \<Rightarrow> u8 list \<Rightarrow> disk_answer \<Rightarrow> store \<times> directory \<times> (wal_error + unit)" where
  "try_append st dir frames a =
     (case short_write a of
        None \<Rightarrow> (case store_append st dir frames of (st, dir) \<Rightarrow> (st, dir, Inr ()))
      | Some k \<Rightarrow> (st, snd (store_append st dir (take k frames)), Inl (Io OtherIo)))"

definition store_sync :: "sync_policy \<Rightarrow> disk_answer \<Rightarrow> wal_error + unit" where
  "store_sync policy a = (if policy \<noteq> Sync_None \<and> sync_fails a then Inl (Io OtherIo) else Inr ())"

definition append_sync ::
  "store \<Rightarrow> directory \<Rightarrow> sync_policy \<Rightarrow> u8 list \<Rightarrow> disk_answer \<Rightarrow> store \<times> directory \<times> (wal_error + unit)" where
  "append_sync st dir policy frames a =
     (case try_append st dir frames a of
        (st, dir, Inl e) \<Rightarrow> (st, dir, Inl e)
      | (st, dir, Inr u) \<Rightarrow> (st, dir, store_sync policy a))"

definition persist ::
  "store \<Rightarrow> directory \<Rightarrow> sync_policy \<Rightarrow> commit \<Rightarrow> disk_answer \<times> disk_answer
     \<Rightarrow> store \<times> directory \<times> (wal_error + unit)" where
  "persist st dir policy c a =
     (case (if cm_before c \<noteq> [] then append_sync st dir policy (cm_before c) (fst a) else (st, dir, Inr ())) of
        (st, dir, Inl e) \<Rightarrow> (st, dir, Inl e)
      | (st, dir, Inr u) \<Rightarrow>
          (case (case cm_snapshot c of Some snap \<Rightarrow> rotate st dir snap | None \<Rightarrow> (st, dir, Inr ())) of
             (st, dir, Inl e) \<Rightarrow> (st, dir, Inl e)
           | (st, dir, Inr u) \<Rightarrow> append_sync st dir policy (cm_frames c) (snd a)))"

text \<open>
  The loop around the ring's \<open>push\<close>. While it spins, the dispatcher empties the ring, here by
  \<open>drain\<close>; the fuel bounds the number of turns, and \<open>None\<close> means that it is still spinning.
\<close>

fun push_spin ::
  "'q libs \<Rightarrow> ('q \<Rightarrow> 'q) \<Rightarrow> nat \<Rightarrow> 'q world \<Rightarrow> dispatch \<Rightarrow> 'q world option" where
  "push_spin L drain 0 w d = None"
| "push_spin L drain (Suc n) w d =
     (case outbox_push L w d of
        (w, Inr u) \<Rightarrow> Some w
      | (w, Inl back) \<Rightarrow> push_spin L drain n (w\<lparr>wd_outbox := drain (wd_outbox w)\<rparr>) back)"

fun push_all :: "'q libs \<Rightarrow> ('q \<Rightarrow> 'q) \<Rightarrow> nat \<Rightarrow> 'q world \<Rightarrow> dispatch list \<Rightarrow> 'q world option" where
  "push_all L drain n w [] = Some w"
| "push_all L drain n w (d # ds) = do { w \<leftarrow> push_spin L drain n w d; push_all L drain n w ds }"

definition run_acks :: "ack list \<Rightarrow> 'q world \<Rightarrow> 'q world" where
  "run_acks acks w = foldl (\<lambda>w (r, a). send_reply r a w) w acks"

text \<open>One turn of the writer's loop, on the batch it received.\<close>

definition write_commit ::
  "'q libs \<Rightarrow> ('q \<Rightarrow> 'q) \<Rightarrow> nat \<Rightarrow> sync_policy \<Rightarrow> store \<Rightarrow> directory \<Rightarrow> 'q world \<Rightarrow> commit
     \<Rightarrow> disk_answer \<times> disk_answer \<Rightarrow> (store \<times> directory \<times> 'q world) option" where
  "write_commit L drain n policy st dir w c a =
     (case persist st dir policy c a of
        (st, dir, Inl e) \<Rightarrow> Some (st, dir, w)
      | (st, dir, Inr u) \<Rightarrow>
          do { w \<leftarrow> push_all L drain n (run_acks (cm_acks c) w) (cm_dispatches c);
               Some (st, dir, w) })"

fun run_writer ::
  "'q libs \<Rightarrow> ('q \<Rightarrow> 'q) \<Rightarrow> nat \<Rightarrow> sync_policy \<Rightarrow> store \<Rightarrow> directory \<Rightarrow> 'q world
     \<Rightarrow> (commit \<times> disk_answer \<times> disk_answer) list \<Rightarrow> (store \<times> directory \<times> 'q world) option" where
  "run_writer L drain n policy st dir w [] = Some (st, dir, w)"
| "run_writer L drain n policy st dir w ((c, a) # cs) =
     do { (st, dir, w) \<leftarrow> write_commit L drain n policy st dir w c a;
          run_writer L drain n policy st dir w cs }"

section \<open>Batches\<close>

text \<open>
  The content of a batch: the records in front of its snapshot, the snapshot, and the records
  behind it. The journal's operations extend it; a hand-off leaves the empty batch.
\<close>

type_synonym batch = "wal_record list \<times> snapshot option \<times> wal_record list"

definition commit_holds :: "(u8 list \<Rightarrow> u32) \<Rightarrow> commit \<Rightarrow> batch \<Rightarrow> bool" where
  "commit_holds hash c b \<longleftrightarrow>
     (case b of (rs1, sn, rs2) \<Rightarrow>
        put_all (encode hash) [] rs1 = Some (cm_before c) \<and> put_all (encode hash) [] rs2 = Some (cm_frames c)
        \<and> (case cm_snapshot c of
             None \<Rightarrow> sn = None \<and> rs1 = []
           | Some bytes \<Rightarrow> \<exists>s. sn = Some s \<and> decode_snapshot hash bytes = Inr s))"

lemma commit_holds_default: "commit_holds hash commit_default ([], None, [])"
  by (simp add: commit_holds_def commit_default_def)

lemma put_all_snoc: "put_all put buf (xs @ [x]) = do { b \<leftarrow> put_all put buf xs; put b x }"
  by (induction xs arbitrary: buf) (auto split: Option.bind_splits)

text \<open>The journal holds a batch when its pending commit does.\<close>

abbreviation journal_holds :: "(u8 list \<Rightarrow> u32) \<Rightarrow> journal \<Rightarrow> batch \<Rightarrow> bool" where
  "journal_holds hash jn b \<equiv> commit_holds hash (jn_pending jn) b"

lemma journal_record_holds:
  "journal_holds hash jn (rs1, sn, rs2) \<Longrightarrow> journal_record hash jn r = Some jn' \<Longrightarrow>
     journal_holds hash jn' (rs1, sn, rs2 @ [r])"
  by (auto simp: commit_holds_def journal_record_def grew_def set_frames_def Let_def put_all_snoc
      split: Option.bind_splits)

lemma record_submitted_record: "record_submitted hash jn i j = journal_record hash jn (R_Submitted i j)"
  by (simp add: record_submitted_def journal_record_def encode_submitted_frame)

lemma defer_hold_holds [simp]:
  "journal_holds hash (defer_ack jn a) b = journal_holds hash jn b"
  "journal_holds hash (hold jn d) b = journal_holds hash jn b"
  by (simp_all add: commit_holds_def defer_ack_def hold_def)

lemma attach_snapshot_holds:
  "journal_holds hash jn ([], None, rs) \<Longrightarrow> decode_snapshot hash bytes = Inr s \<Longrightarrow>
     journal_holds hash (attach_snapshot jn bytes) (rs, Some s, [])"
  by (simp add: commit_holds_def attach_snapshot_def)

section \<open>The writer's effect on the store\<close>

fun apply_batch :: "batch \<Rightarrow> recovered \<Rightarrow> recovered" where
  "apply_batch (rs1, None, rs2) R = R\<lparr>rc_records := rc_records R @ rs2\<rparr>"
| "apply_batch (rs1, Some s, rs2) R =
     \<lparr>rc_generation = rc_generation R + 1, rc_snapshot = Some s, rc_records = rs2, rc_torn_at = None\<rparr>"

definition disk_ok :: "disk_answer \<Rightarrow> bool" where
  "disk_ok a \<longleftrightarrow> short_write a = None \<and> \<not> sync_fails a"

lemma append_sync_ok:
  assumes "disk_ok a"
  shows "append_sync st dir policy frames a = (fst (store_append st dir frames), snd (store_append st dir frames), Inr ())"
  using assms by (simp add: append_sync_def try_append_def store_sync_def disk_ok_def split: prod.splits)

lemma log_of_empty:
  assumes "log_of hash rs = []"
  shows "rs = []"
proof (cases rs)
  case (Cons r rs')
  with assms have "length (frame_of hash (record_wire r)) = 0" by (simp add: log_of_Cons)
  then show ?thesis by (simp only: length_frame_of) (simp add: FRAME_HEADER_def)
qed simp

lemma persist_holds:
  assumes h: "store_holds hash st dir R" and b: "commit_holds hash c b"
    and ok: "disk_ok (fst a)" "disk_ok (snd a)" and g: "rc_generation R \<noteq> - 1"
  shows "\<exists>st' dir'. persist st dir policy c a = (st', dir', Inr ()) \<and> store_holds hash st' dir' (apply_batch b R)"
proof -
  obtain rs1 sn rs2 where bs: "b = (rs1, sn, rs2)" by (metis prod_cases3)
  note e = b [unfolded commit_holds_def bs, simplified]
  define sd where "sd = (if cm_before c \<noteq> [] then store_append st dir (cm_before c) else (st, dir))"
  have one: "(if cm_before c \<noteq> [] then append_sync st dir policy (cm_before c) (fst a) else (st, dir, Inr ()))
      = (fst sd, snd sd, Inr ())" by (simp add: sd_def append_sync_ok [OF ok(1)])
  have h1: "store_holds hash (fst sd) (snd sd) (R\<lparr>rc_records := rc_records R @ rs1\<rparr>)"
  proof (cases "cm_before c = []")
    case True
    with e have "log_of hash rs1 = []" using encode_all_log [of hash "[]" rs1] by simp
    then have "rs1 = []" by (rule log_of_empty)
    with h True show ?thesis by (simp add: sd_def)
  next
    case False
    with store_holds_append [OF h, of rs1 "cm_before c"] e show ?thesis by (simp add: sd_def)
  qed
  show ?thesis
  proof (cases "cm_snapshot c")
    case None
    with e have "sn = None" "rs1 = []" by auto
    with store_holds_append [OF h1, of rs2 "cm_frames c"] e None show ?thesis
      by (simp add: persist_def sd_def append_sync_ok [OF ok(2)] bs)
  next
    case (Some bytes)
    with e obtain s where s: "sn = Some s" "decode_snapshot hash bytes = Inr s" by auto
    obtain st2 dir2 r where r: "rotate (fst sd) (snd sd) bytes = (st2, dir2, r)" by (metis prod_cases3)
    from store_holds_rotate [OF h1 _ s(2) r] g have h2: "r = Inr ()" "store_holds hash st2 dir2
        \<lparr>rc_generation = rc_generation R + 1, rc_snapshot = Some s, rc_records = [], rc_torn_at = None\<rparr>" by auto
    from store_holds_append [OF h2(2), of rs2 "cm_frames c"] e Some r h2(1) s show ?thesis
      by (simp add: persist_def one append_sync_ok [OF ok(2)] bs)
  qed
qed

text \<open>
  The ring's contract: a full ring gives the dispatch back unchanged, and a ring the dispatcher
  keeps draining takes a dispatch after fewer than \<open>n\<close> refusals.
\<close>

definition ring_clears :: "'q libs \<Rightarrow> ('q \<Rightarrow> 'q) \<Rightarrow> nat \<Rightarrow> bool" where
  "ring_clears L drain n \<longleftrightarrow>
     (\<forall>q d back. snd (ring_push L q d) = Inl back \<longrightarrow> ring_push L q d = (q, Inl d))
     \<and> (\<forall>q d. \<exists>k<n. snd (ring_push L ((drain ^^ k) q) d) = Inr ())"

lemma push_spin_returns:
  assumes full: "\<And>q d back. snd (ring_push L q d) = Inl back \<Longrightarrow> ring_push L q d = (q, Inl d)"
    and "k < n" and "snd (ring_push L ((drain ^^ k) (wd_outbox w)) d) = Inr ()"
  shows "\<exists>q. push_spin L drain n w d = Some (w\<lparr>wd_outbox := q\<rparr>)"
  using assms(2,3)
proof (induction n arbitrary: k w)
  case (Suc n)
  obtain q r where p: "ring_push L (wd_outbox w) d = (q, r)" by (cases "ring_push L (wd_outbox w) d")
  show ?case
  proof (cases r)
    case (Inr u)
    with p show ?thesis by (auto simp: outbox_push_def)
  next
    case (Inl b)
    with full [of "wd_outbox w" d b] p have q: "q = wd_outbox w" "b = d" by auto
    with Suc.prems p Inl obtain j where j: "k = Suc j" by (cases k) auto
    let ?w = "w\<lparr>wd_outbox := drain (wd_outbox w)\<rparr>"
    from Suc.IH [of j ?w] Suc.prems j obtain q' where "push_spin L drain n ?w d = Some (?w\<lparr>wd_outbox := q'\<rparr>)"
      by (auto simp: funpow_Suc_right simp del: funpow.simps)
    with p Inl q show ?thesis by (auto simp: outbox_push_def)
  qed
qed simp

lemma push_all_returns:
  "ring_clears L drain n \<Longrightarrow> \<exists>q. push_all L drain n w ds = Some (w\<lparr>wd_outbox := q\<rparr>)"
proof (induction ds arbitrary: w)
  case Nil
  show ?case by (auto intro!: exI [of _ "wd_outbox w"])
next
  case (Cons d ds)
  then obtain k where k: "k < n" "snd (ring_push L ((drain ^^ k) (wd_outbox w)) d) = Inr ()"
    unfolding ring_clears_def by blast
  from push_spin_returns [OF _ k] Cons.prems obtain q where q: "push_spin L drain n w d = Some (w\<lparr>wd_outbox := q\<rparr>)"
    by (auto simp: ring_clears_def)
  from Cons.IH [OF Cons.prems, of "w\<lparr>wd_outbox := q\<rparr>"] q show ?case by auto
qed

lemma run_acks_sent [simp]:
  "wd_sent (run_acks acks w) = wd_sent w @ acks" "wd_outbox (run_acks acks w) = wd_outbox w"
  by (induction acks arbitrary: w) (auto simp: run_acks_def send_reply_def)

lemma write_commit_holds:
  assumes "store_holds (crc32 L) st dir R" and "commit_holds (crc32 L) c b"
    and "disk_ok (fst a)" and "disk_ok (snd a)" and "rc_generation R \<noteq> - 1" and "ring_clears L drain n"
  shows "\<exists>st' dir' w'. write_commit L drain n policy st dir w c a = Some (st', dir', w')
     \<and> store_holds (crc32 L) st' dir' (apply_batch b R) \<and> wd_sent w' = wd_sent w @ cm_acks c"
  using persist_holds [OF assms(1-5), of policy] push_all_returns [OF assms(6), of "run_acks (cm_acks c) w" "cm_dispatches c"]
  by (auto simp: write_commit_def)

lemma apply_batch_generation: "rc_generation (apply_batch b R) \<in> {rc_generation R, rc_generation R + 1}"
  by (cases "(b, R)" rule: apply_batch.cases) auto

text \<open>A batch of the writer's input, whose disk answers are good, and its content.\<close>

definition good_batch :: "(u8 list \<Rightarrow> u32) \<Rightarrow> commit \<times> disk_answer \<times> disk_answer \<Rightarrow> batch \<Rightarrow> bool" where
  "good_batch hash ca b \<longleftrightarrow> commit_holds hash (fst ca) b \<and> disk_ok (fst (snd ca)) \<and> disk_ok (snd (snd ca))"

lemma run_writer_holds:
  assumes "store_holds (crc32 L) st dir R" and "list_all2 (good_batch (crc32 L)) cs bs"
    and "unat (rc_generation R) + length cs < 2 ^ 64" and "ring_clears L drain n"
  shows "\<exists>st' dir' w'. run_writer L drain n policy st dir w cs = Some (st', dir', w')
     \<and> store_holds (crc32 L) st' dir' (fold apply_batch bs R) \<and> wd_sent w' = wd_sent w @ concat (map (cm_acks \<circ> fst) cs)"
  using assms(2,1,3)
proof (induction cs bs arbitrary: st dir w R rule: list_all2_induct)
  case (Cons ca cs b bs)
  obtain c a where ca: "ca = (c, a)" by (cases ca)
  with Cons.hyps have g: "commit_holds (crc32 L) c b" "disk_ok (fst a)" "disk_ok (snd a)" by (auto simp: good_batch_def)
  have "unat (rc_generation R) \<noteq> 2 ^ 64 - 1" using Cons.prems(2) by simp
  then have n: "rc_generation R \<noteq> - 1" by (auto simp: unat_minus_one_word_eq)
  from write_commit_holds [OF Cons.prems(1) g n assms(4), of policy w] obtain st1 dir1 w1 where
    one: "write_commit L drain n policy st dir w c a = Some (st1, dir1, w1)"
      "store_holds (crc32 L) st1 dir1 (apply_batch b R)" "wd_sent w1 = wd_sent w @ cm_acks c" by blast
  have "unat (rc_generation (apply_batch b R)) + length cs < 2 ^ 64"
    using apply_batch_generation [of b R] Cons.prems(2) next_generation_greater [OF n] by (auto simp: unat_word_ariths)
  from Cons.IH [OF one(2) this, of w1] one ca show ?case by auto
qed simp

section \<open>Properties\<close>


lemma sample_ring_clears: "ring_clears \<lparr>crc32 = (\<lambda>_. 7), ring_push = (\<lambda>q d. (q @ [d], Inr ()))\<rparr> drain 1"
  by (simp add: ring_clears_def)


text \<open>The loop stops at a frame whose header is there and whose payload reaches past the end of the file.\<close>

lemma parse_frames_short:
  assumes "encodable r" and "8 \<le> k" and "k + length extra < length (frame_of hash (record_wire r))"
  shows "parse_frames hash (pre @ take k (frame_of hash (record_wire r)) @ extra) (length pre) rs = Inr (rs, length pre)"
proof -
  let ?p = "record_wire r"
  let ?h = "le_bytes 4 (word_of_nat (length ?p) :: u32) @ le_bytes 4 (hash ?p)"
  let ?q = "take (k - FRAME_HEADER) ?p @ extra"
  have n: "length ?p < 2 ^ 32" using assms(1) by (auto simp: encodable_def)
  have b: "pre @ take k (frame_of hash ?p) @ extra = pre @ ?h @ ?q"
    using assms(2) by (simp add: frame_of_def FRAME_HEADER_def)
  have h: "vec_slice (pre @ ?h @ ?q) (length pre) (length pre + FRAME_HEADER) = Some ?h"
    using vec_slice_append [of ?h FRAME_HEADER pre ?q] by (simp add: FRAME_HEADER_def)
  have p: "vec_slice (pre @ ?h @ ?q) (length pre + FRAME_HEADER) (length pre + FRAME_HEADER + length ?p) = None"
    using assms(2,3) by (simp add: vec_slice_def length_frame_of FRAME_HEADER_def)
  show ?thesis
    unfolding b by (subst parse_frames.simps) (use n in \<open>simp add: h p Let_def del: append_assoc\<close>)
qed

text \<open>
  C23. The writer goes on after a failed write, and what it acknowledges afterwards can be lost: if
  the write of one record's frame stops behind its header and the next batch is shorter than the
  missing rest, that batch is written and its replies are sent, while recovery returns none of its
  records.
\<close>

theorem batch_after_failed_write_lost:
  assumes "store_holds (crc32 L) st dir R" and "put_all (encode (crc32 L)) [] [r] = Some frame1"
    and "put_all (encode (crc32 L)) [] rs = Some frames2" and "8 \<le> k" and "k + length frames2 < length frame1"
    and "ring_clears L drain n"
    and "write_commit L drain n policy st dir w (commit_default\<lparr>cm_frames := frame1, cm_acks := acks1\<rparr>)
           (ok, \<lparr>short_write = Some k, sync_fails = False\<rparr>) = Some (st1, dir1, w1)"
    and "disk_ok ok"
  shows "\<exists>st2 dir2 w2 torn. w1 = w
     \<and> write_commit L drain n policy st1 dir1 w (commit_default\<lparr>cm_frames := frames2, cm_acks := acks2\<rparr>) (ok, ok)
         = Some (st2, dir2, w2)
     \<and> wd_sent w2 = wd_sent w @ acks2
     \<and> snd (recover (crc32 L) dir2) = Inr (R\<lparr>rc_torn_at := Some torn\<rparr>)"
proof -
  let ?p = "log_path (rc_generation R)"
  from assms(1) obtain bytes where im: "map_of dir ?p = Some bytes" "log_image (crc32 L) bytes (rc_records R)"
    "lw_path (st_log st) = ?p" by (auto simp: store_holds_def)
  have one: "w1 = w" "st1 = st" "dir1 = AList.update ?p (bytes @ take k frame1) dir"
    using assms(7) by (auto simp: write_commit_def persist_def append_sync_def try_append_def store_append_def
        log_append_def file_bytes_def im commit_default_def)
  obtain q where q: "push_all L drain n (run_acks acks2 w) [] = Some ((run_acks acks2 w)\<lparr>wd_outbox := q\<rparr>)"
    using push_all_returns [OF assms(6)] by blast
  let ?d2 = "AList.update ?p ((bytes @ take k frame1) @ frames2) dir1"
  obtain st2 where two: "write_commit L drain n policy st1 dir1 w (commit_default\<lparr>cm_frames := frames2, cm_acks := acks2\<rparr>) (ok, ok)
      = Some (st2, ?d2, run_acks acks2 w)"
    by (simp add: write_commit_def persist_def append_sync_ok [OF assms(8)] store_append_def
        log_append_def file_bytes_def one im commit_default_def update_conv')
  have e: "encodable r" "frame1 = frame_of (crc32 L) (record_wire r)"
    using encode_all_log [OF assms(2)] by (simp_all add: log_of_Cons)
  let ?b = "bytes @ take k frame1 @ frames2"
  have "parse_frames (crc32 L) ?b 8 [] = Inr (rc_records R, length bytes)"
    using log_image_tail [OF im(2), of "take k frame1 @ frames2"] parse_frames_short [OF e(1) assms(4), of frames2 "crc32 L" bytes "rc_records R"]
      assms(5) e(2) by simp
  moreover have "length bytes < length ?b" "8 \<le> length ?b" "take 8 ?b = LOG_MAGIC"
    using im(2) assms(4,5) by (auto simp: log_image_def)
  ultimately have "parse_log (crc32 L) ?b = Inr \<lparr>rp_records = rc_records R, rp_torn_at = Some (word_of_nat (length bytes))\<rparr>"
    by (simp add: parse_log_def)
  moreover have "highest_generation ?d2 = rc_generation R"
    using assms(1) by (simp add: one(3) highest_generation_update store_holds_def)
  ultimately have rec: "snd (recover (crc32 L) ?d2) = Inr (R\<lparr>rc_torn_at := Some (word_of_nat (length bytes))\<rparr>)"
    using assms(1) by (cases R) (auto simp: store_holds_def recover_loaded loaded_def update_conv' one(3) split: option.splits)
  show ?thesis
    by (intro exI [of _ st2] exI [of _ ?d2] exI [of _ "run_acks acks2 w"] exI [of _ "word_of_nat (length bytes)"] conjI)
      (rule one(1) two run_acks_sent(1) rec)+
qed

theorem batch_after_failed_write_lost_witness:
  "\<exists>st dir R frame1 frames2 st1 dir1 w1 st2 dir2 w2 torn.
     put_all (encode (\<lambda>_. 7)) [] [R_Submitted 0 (sample_parent\<lparr>payload := replicate 64 1\<rparr>)] = Some frame1
     \<and> put_all (encode (\<lambda>_. 7)) [] sample_records = Some frames2
     \<and> write_commit \<lparr>crc32 = (\<lambda>_. 7), ring_push = (\<lambda>q d. (q @ [d], Inr ()))\<rparr> (\<lambda>_. []) 1 Sync_Data st dir
         \<lparr>wd_outbox = [], wd_sent = []\<rparr> (commit_default\<lparr>cm_frames := frame1, cm_acks := [(3, Ans_Slot 1)]\<rparr>)
         (\<lparr>short_write = None, sync_fails = False\<rparr>, \<lparr>short_write = Some 8, sync_fails = False\<rparr>) = Some (st1, dir1, w1)
     \<and> write_commit \<lparr>crc32 = (\<lambda>_. 7), ring_push = (\<lambda>q d. (q @ [d], Inr ()))\<rparr> (\<lambda>_. []) 1 Sync_Data st1 dir1
         \<lparr>wd_outbox = [], wd_sent = []\<rparr> (commit_default\<lparr>cm_frames := frames2, cm_acks := [(4, Ans_Slot 1)]\<rparr>)
         (\<lparr>short_write = None, sync_fails = False\<rparr>, \<lparr>short_write = None, sync_fails = False\<rparr>) = Some (st2, dir2, w2)
     \<and> wd_sent w2 = [(4, Ans_Slot 1)] \<and> snd (recover (\<lambda>_. 7) dir2) = Inr (R\<lparr>rc_torn_at := Some torn\<rparr>) \<and> rc_records R = []"
proof -
  let ?L = "\<lparr>crc32 = (\<lambda>_. 7), ring_push = (\<lambda>q d. (q @ [d], Inr ()))\<rparr>"
  let ?ok = "\<lparr>short_write = None, sync_fails = False\<rparr>" let ?w = "\<lparr>wd_outbox = [], wd_sent = []\<rparr>"
  let ?r = "R_Submitted 0 (sample_parent\<lparr>payload := replicate 64 1\<rparr>)"
  have l: "64 \<le> length (record_wire ?r) \<and> encodable ?r"
    by (simp add: encodable_def record_wire_def put_job_wire job_fits_def job_wire_def put_u8_def put_u64_def deps_wire_def
        sample_parent_def job_new_def)
  then obtain frame1 where f1: "put_all (encode (crc32 ?L)) [] [?r] = Some frame1" "72 \<le> length frame1"
    by (simp add: encode_frame length_frame_of FRAME_HEADER_def)
  obtain frames2 where f2: "put_all (encode (crc32 ?L)) [] sample_records = Some frames2" "length frames2 < 60"
    by (simp add: sample_records_def encode_frame encodable_def record_wire_def put_event_def put_u8_def put_u64_def
        length_frame_of FRAME_HEADER_def)
  let ?R = "\<lparr>rc_generation = 0, rc_snapshot = None, rc_records = [], rc_torn_at = None\<rparr>"
  have r: "recover (crc32 ?L) [] = ([], Inr ?R)"
    by (simp add: recover_def replay_default_def Let_def highest_generation_def)
  obtain dir st where "resume [] (rc_generation ?R) = (dir, Inr st)"
    by (simp add: resume_def log_open_def file_bytes_def Let_def)
  from resume_holds [OF r this] have h: "store_holds (crc32 ?L) st dir ?R" by (simp add: file_bytes_def)
  obtain st1 dir1 w1 where one: "write_commit ?L (\<lambda>_. []) 1 Sync_Data st dir ?w
      (commit_default\<lparr>cm_frames := frame1, cm_acks := [(3, Ans_Slot 1)]\<rparr>) (?ok, \<lparr>short_write = Some 8, sync_fails = False\<rparr>)
      = Some (st1, dir1, w1)"
    by (simp add: write_commit_def persist_def append_sync_def try_append_def commit_default_def)
  have k: "8 + length frames2 < length frame1" "disk_ok ?ok" using f1(2) f2(2) by (auto simp: disk_ok_def)
  from batch_after_failed_write_lost [OF h f1(1) f2(1) order.refl k(1) sample_ring_clears one k(2), of "[(4, Ans_Slot 1)]"]
  obtain st2 dir2 w2 torn where two: "w1 = ?w" "write_commit ?L (\<lambda>_. []) 1 Sync_Data st1 dir1 ?w
        (commit_default\<lparr>cm_frames := frames2, cm_acks := [(4, Ans_Slot 1)]\<rparr>) (?ok, ?ok) = Some (st2, dir2, w2)"
      "wd_sent w2 = [(4, Ans_Slot 1)]" "snd (recover (\<lambda>_. 7) dir2) = Inr (?R\<lparr>rc_torn_at := Some torn\<rparr>)" by auto
  show ?thesis
    by (rule exI [of _ st], rule exI [of _ dir], rule exI [of _ ?R], rule exI [of _ frame1], rule exI [of _ frames2],
        rule exI [of _ st1], rule exI [of _ dir1], rule exI [of _ w1], rule exI [of _ st2], rule exI [of _ dir2],
        rule exI [of _ w2], rule exI [of _ torn], intro conjI)
      (use f1(1) f2(1) one two in simp_all)
qed

end
