(* ===== verification/Engine.thy ===== *)
theory Engine
  imports Journal
begin

text \<open>
  The scheduler thread, from \<open>taskerd/src/engine.rs\<close>: its state, the handler of every command, the
  tick, and the loop around them. Metrics and tracing have no counterpart. The scratch buffers of
  the source are local values. A panic is \<open>None\<close>.
\<close>

section \<open>State\<close>

text \<open>\<open>u32::try_from(n).unwrap_or(u32::MAX)\<close> and its like for \<open>u64\<close>.\<close>

definition or_max :: "nat \<Rightarrow> 'a::len word" where
  "or_max n = (if n < 2 ^ LENGTH('a) then word_of_nat n else - 1)"

lemma or_max_code [code]: "(or_max n :: 'a::len word) = (if int n < 2 ^ LENGTH('a) then word_of_int (int n) else - 1)"
proof -
  have "n < 2 ^ LENGTH('a) \<longleftrightarrow> int n < int (2 ^ LENGTH('a))" by (simp only: of_nat_less_iff)
  then show ?thesis by (simp add: or_max_def)
qed

text \<open>The fields of the configuration the engine reads; its two durations are in nanoseconds.\<close>

record daemon_config =
  dc_drain_budget :: nat
  dc_heartbeat_timeout :: nat
  dc_worker_cpu_millis :: u32
  dc_min_workers :: u32
  dc_max_workers :: u32
  dc_shares :: "(u32 \<times> u32) list"
  dc_retain :: nat
  dc_cycle :: cycle_config

datatype recover_error =
  RE_Wal wal_error
| RE_Arena arena_restore_error
| RE_Lifecycle lifecycle_error
| IdMismatch job_id job_id

record engine =
  en_cycle :: cycle_config
  en_drain_budget :: nat
  en_jobs :: "job arena"
  en_inventory :: slot_inventory
  en_scheduler :: scheduler
  en_running :: "running_job list"
  en_names :: "string option list"
  en_overflow :: "dispatch list"
  en_cycles :: u64
  en_demand :: demand
  en_worker_cpu :: u64
  en_min_workers :: u32
  en_max_workers :: u32
  en_account_metrics_at :: virtual_time
  en_journal :: "journal option"
  en_terminal :: "(virtual_time \<times> job_id) list"
  en_retain :: virtual_duration
  en_reconciling :: "job_id list"
  en_reconcile_until :: "virtual_time option"
  en_reconcile_window :: virtual_duration
  en_quiescing :: bool

fun for_each :: "('a \<Rightarrow> 's \<Rightarrow> 's option) \<Rightarrow> 'a list \<Rightarrow> 's \<Rightarrow> 's option" where
  "for_each f [] s = Some s"
| "for_each f (x # xs) s = do { s \<leftarrow> f x s; for_each f xs s }"

text \<open>Shares of an invalid account are ignored.\<close>

definition set_account_shares :: "u32 \<times> u32 \<Rightarrow> engine \<Rightarrow> engine option" where
  "set_account_shares p e =
     do { (s, r) \<leftarrow> sched_set_shares (en_scheduler e) (fst p) (snd p);
          Some (case r of Inl err \<Rightarrow> e | Inr u \<Rightarrow> e\<lparr>en_scheduler := s\<rparr>) }"

definition engine_build :: "daemon_config \<Rightarrow> journal option \<Rightarrow> engine option" where
  "engine_build config jn =
     (let e = \<lparr>en_cycle = dc_cycle config, en_drain_budget = dc_drain_budget config,
                en_jobs = arena_new, en_inventory = from_capacities [],
                en_scheduler = scheduler_with_slots (max_candidates (dc_cycle config)),
                en_running = [], en_names = [], en_overflow = [], en_cycles = 0,
                en_demand = demand_default,
                en_worker_cpu = ucast (max (dc_worker_cpu_millis config) 1),
                en_min_workers = dc_min_workers config,
                en_max_workers = max (dc_max_workers config) (dc_min_workers config),
                en_account_metrics_at = 0, en_journal = jn, en_terminal = [],
                en_retain = or_max (dc_retain config),
                en_reconciling = [], en_reconcile_until = None,
                en_reconcile_window = saturating_mul (or_max (dc_heartbeat_timeout config)) 2,
                en_quiescing = False\<rparr>
      in for_each set_account_shares (dc_shares config) e)"

section \<open>Bookkeeping\<close>

definition engine_record :: "'q libs \<Rightarrow> engine \<Rightarrow> wal_record \<Rightarrow> engine option" where
  "engine_record L e r =
     (case en_journal e of
        None \<Rightarrow> Some e
      | Some jn \<Rightarrow> do { jn \<leftarrow> journal_record (crc32 L) jn r; Some (e\<lparr>en_journal := Some jn\<rparr>) })"

definition note_terminal :: "engine \<Rightarrow> job_id \<Rightarrow> virtual_time \<Rightarrow> engine" where
  "note_terminal e i at = e\<lparr>en_terminal := en_terminal e @ [(at, i)]\<rparr>"

definition note_all :: "engine \<Rightarrow> job_id list \<Rightarrow> virtual_time \<Rightarrow> engine" where
  "note_all e is at = foldl (\<lambda>e i. note_terminal e i at) e is"

text \<open>A reply waits for durability when there is a journal.\<close>

definition reply_durably :: "engine \<Rightarrow> 'q world \<Rightarrow> reply \<Rightarrow> answer \<Rightarrow> engine \<times> 'q world" where
  "reply_durably e w r a =
     (case en_journal e of
        Some jn \<Rightarrow> (e\<lparr>en_journal := Some (defer_ack jn (r, a))\<rparr>, w)
      | None \<Rightarrow> (e, send_reply r a w))"

definition push_dispatch :: "'q libs \<Rightarrow> engine \<Rightarrow> 'q world \<Rightarrow> dispatch \<Rightarrow> engine \<times> 'q world" where
  "push_dispatch L e w d =
     (case outbox_push L w d of
        (w, Inr u) \<Rightarrow> (e, w)
      | (w, Inl back) \<Rightarrow> (e\<lparr>en_overflow := en_overflow e @ [back]\<rparr>, w))"

text \<open>A dispatch that waits for durability when there is a journal.\<close>

definition dispatch_durably :: "'q libs \<Rightarrow> engine \<Rightarrow> 'q world \<Rightarrow> dispatch \<Rightarrow> engine \<times> 'q world" where
  "dispatch_durably L e w d =
     (case en_journal e of
        Some jn \<Rightarrow> (e\<lparr>en_journal := Some (hold jn d)\<rparr>, w)
      | None \<Rightarrow> push_dispatch L e w d)"

text \<open>The result of a scheduler call, with the scheduler and the arena stored back.\<close>

definition with_sched :: "engine \<Rightarrow> 'a call \<Rightarrow> (engine \<times> (lifecycle_error + 'a)) option" where
  "with_sched e c = do { (s, jobs, r) \<leftarrow> c; Some (e\<lparr>en_scheduler := s, en_jobs := jobs\<rparr>, r) }"

text \<open>\<open>let _ = self.inventory...\<close> and the logged errors: a refused change leaves the inventory.\<close>

definition inventory_or_keep :: "engine \<Rightarrow> capacity_error + slot_inventory \<Rightarrow> engine" where
  "inventory_or_keep e r = (case r of Inl err \<Rightarrow> e | Inr iv \<Rightarrow> e\<lparr>en_inventory := iv\<rparr>)"

definition engine_release :: "engine \<Rightarrow> job_id \<Rightarrow> (engine \<times> slot_index option) option" where
  "engine_release e i =
     (case position (\<lambda>r. run_job r = i) (en_running e) of
        None \<Rightarrow> Some (e, None)
      | Some pos \<Rightarrow>
          do { (r, running) \<leftarrow> swap_remove (en_running e) pos;
               let e = e\<lparr>en_running := running\<rparr>
               in Some (inventory_or_keep e (release (en_inventory e) (run_slot r) (run_resources r)),
                        Some (run_slot r)) })"

definition unhold :: "engine \<Rightarrow> job_id \<Rightarrow> (engine \<times> bool) option" where
  "unhold e i =
     (case position (\<lambda>r. r = i) (en_reconciling e) of
        None \<Rightarrow> Some (e, False)
      | Some pos \<Rightarrow>
          do { (_, held) \<leftarrow> swap_remove (en_reconciling e) pos;
               Some (e\<lparr>en_reconciling := held\<rparr>, True) })"

text \<open>\<open>self.release(id).is_some() || self.unhold(id)\<close>.\<close>

definition release_or_unhold :: "engine \<Rightarrow> job_id \<Rightarrow> (engine \<times> bool) option" where
  "release_or_unhold e i =
     do { (e, slot) \<leftarrow> engine_release e i;
          if slot \<noteq> None then Some (e, True) else unhold e i }"

definition requeue_logged :: "'q libs \<Rightarrow> engine \<Rightarrow> job_id \<Rightarrow> virtual_time \<Rightarrow> engine option" where
  "requeue_logged L e i now =
     do { (e, r) \<leftarrow> with_sched e (requeue (en_scheduler e) i (en_jobs e) now (en_cycle e));
          case r of Inr u \<Rightarrow> engine_record L e (R_Requeued i now) | Inl err \<Rightarrow> Some e }"

section \<open>Clients\<close>

definition on_submit ::
  "'q libs \<Rightarrow> engine \<Rightarrow> 'q world \<Rightarrow> job \<Rightarrow> reply \<Rightarrow> virtual_time \<Rightarrow> (engine \<times> 'q world) option" where
  "on_submit L e w j rp now =
     do { i \<leftarrow> next_id (en_jobs e);
          case check_submit (en_scheduler e) i j (en_jobs e) of
            Inl err \<Rightarrow> Some (e, send_reply rp (Ans_Submit (Inl err)) w)
          | Inr rd \<Rightarrow>
              do { (jobs, inserted) \<leftarrow> arena_insert (en_jobs e) j;
                   e \<leftarrow> (case (en_journal e, arena_get jobs i) of
                          (Some jn, Some j) \<Rightarrow>
                            do { jn \<leftarrow> record_submitted (crc32 L) jn i j;
                                 Some (e\<lparr>en_jobs := jobs, en_journal := Some jn\<rparr>) }
                        | _ \<Rightarrow> Some (e\<lparr>en_jobs := jobs\<rparr>));
                   (e, r) \<leftarrow> with_sched e (submit (en_scheduler e) i (en_jobs e) now (en_cycle e));
                   case r of
                     Inl err \<Rightarrow> Some (reply_durably e w rp (Ans_Submit (Inl err)))
                   | Inr st \<Rightarrow>
                       Some (reply_durably (if is_terminal st then note_terminal e i now else e) w rp
                               (Ans_Submit (Inr (i, st)))) } }"

definition on_cancel ::
  "'q libs \<Rightarrow> engine \<Rightarrow> 'q world \<Rightarrow> job_id \<Rightarrow> reply \<Rightarrow> virtual_time \<Rightarrow> (engine \<times> 'q world) option" where
  "on_cancel L e w i rp now =
     do { (e, slot) \<leftarrow> engine_release e i;
          (e, _) \<leftarrow> unhold e i;
          (e, r) \<leftarrow> with_sched e (cancel (en_scheduler e) i (en_jobs e) now (en_cycle e));
          case r of
            Inl err \<Rightarrow> Some (reply_durably e w rp (Ans_Cancel (Inl err)))
          | Inr cascade \<Rightarrow>
              do { e \<leftarrow> engine_record L e (R_Cancelled i now);
                   let e = note_all (note_terminal e i now) cascade now;
                       (e, w) = (case slot of Some sl \<Rightarrow> push_dispatch L e w (Kill sl i) | None \<Rightarrow> (e, w))
                   in Some (reply_durably e w rp (Ans_Cancel (Inr cascade))) } }"

section \<open>Workers\<close>

definition on_completed_report :: "'q libs \<Rightarrow> engine \<Rightarrow> job_id \<Rightarrow> virtual_time \<Rightarrow> engine option" where
  "on_completed_report L e i now =
     do { (e, mine) \<leftarrow> release_or_unhold e i;
          if \<not> mine then Some e
          else do { (e, r) \<leftarrow> with_sched e (sched_on_completed (en_scheduler e) i (en_jobs e) now (en_cycle e));
                    case r of
                      Inr promoted \<Rightarrow>
                        do { e \<leftarrow> engine_record L e (R_Completed i now); Some (note_terminal e i now) }
                    | Inl err \<Rightarrow> Some e } }"

definition on_failed_report :: "'q libs \<Rightarrow> engine \<Rightarrow> job_id \<Rightarrow> virtual_time \<Rightarrow> engine option" where
  "on_failed_report L e i now =
     do { (e, mine) \<leftarrow> release_or_unhold e i;
          if \<not> mine then Some e
          else do { (e, r) \<leftarrow> with_sched e (on_failed (en_scheduler e) i (en_jobs e) now (en_cycle e));
                    case r of
                      Inr cascade \<Rightarrow>
                        do { e \<leftarrow> engine_record L e (R_Failed i now);
                             Some (note_all (note_terminal e i now) cascade now) }
                    | Inl err \<Rightarrow> Some e } }"

definition on_preempted_report :: "'q libs \<Rightarrow> engine \<Rightarrow> job_id \<Rightarrow> virtual_time \<Rightarrow> engine option" where
  "on_preempted_report L e i now =
     do { (e, mine) \<leftarrow> release_or_unhold e i;
          if \<not> mine then Some e
          else do { (e, r) \<leftarrow> with_sched e (on_preempted (en_scheduler e) i (en_jobs e) now (en_cycle e));
                    case r of
                      Inr u \<Rightarrow> engine_record L e (R_Requeued i now)
                    | Inl err \<Rightarrow> Some e } }"

definition adopt_running ::
  "'q libs \<Rightarrow> job_id \<Rightarrow> slot_index \<Rightarrow> virtual_time \<Rightarrow> engine \<times> 'q world \<Rightarrow> (engine \<times> 'q world) option" where
  "adopt_running L i slot now ew =
     (case ew of (e, w) \<Rightarrow>
      case arena_get (en_jobs e) i of
        None \<Rightarrow> Some (e, w)
      | Some j \<Rightarrow>
          if state j \<noteq> Running then Some (e, w)
          else case try_allocate (en_inventory e) slot (request j) of
            Inr iv \<Rightarrow>
              Some (e\<lparr>en_inventory := iv, en_running := en_running e @
                       [\<lparr>run_job = i, run_slot = slot, run_resources = request j,
                         run_ends_at = time_saturating_add now (walltime_limit j)\<rparr>]\<rparr>, w)
          | Inl err \<Rightarrow>
              do { e \<leftarrow> requeue_logged L e i now; Some (push_dispatch L e w (Kill slot i)) })"

definition claim ::
  "'q libs \<Rightarrow> slot_index \<Rightarrow> virtual_time \<Rightarrow> job_id \<Rightarrow> engine \<times> 'q world \<Rightarrow> (engine \<times> 'q world) option" where
  "claim L slot now i ew =
     (case ew of (e, w) \<Rightarrow>
      do { (e, held) \<leftarrow> unhold e i;
           if held then adopt_running L i slot now (e, w)
           else case position (\<lambda>r. run_job r = i) (en_running e) of
             Some pos \<Rightarrow>
               do { r \<leftarrow> vec_index (en_running e) pos;
                    let e = inventory_or_keep e (release (en_inventory e) (run_slot r) (run_resources r))
                    in case try_allocate (en_inventory e) slot (run_resources r) of
                         Inr iv \<Rightarrow>
                           do { running \<leftarrow> vec_set (en_running e) pos (r\<lparr>run_slot := slot\<rparr>);
                                Some (e\<lparr>en_inventory := iv, en_running := running\<rparr>, w) }
                       | Inl err \<Rightarrow>
                           do { (_, running) \<leftarrow> swap_remove (en_running e) pos;
                                e \<leftarrow> requeue_logged L (e\<lparr>en_running := running\<rparr>) i now;
                                Some (push_dispatch L e w (Kill slot i)) } }
           | None \<Rightarrow> Some (push_dispatch L e w (Kill slot i)) })"

text \<open>The first slot that has no worker's name and no capacity.\<close>

fun find_vacant :: "slot_inventory \<Rightarrow> nat \<Rightarrow> string option list \<Rightarrow> slot_index option" where
  "find_vacant iv k [] = None"
| "find_vacant iv k (n # ns) =
     (if k < 2 ^ 32 \<and> n = None \<and> map_option capacity (inv_slot iv (word_of_nat k)) = Some ZERO
      then Some (word_of_nat k) else find_vacant iv (Suc k) ns)"

definition on_worker_joined ::
  "'q libs \<Rightarrow> engine \<Rightarrow> 'q world \<Rightarrow> string \<Rightarrow> resources \<Rightarrow> job_id list \<Rightarrow> reply \<Rightarrow> virtual_time
     \<Rightarrow> (engine \<times> 'q world) option" where
  "on_worker_joined L e w name cap in_flight rp now =
     do { (e, slot) \<leftarrow> (case find_vacant (en_inventory e) 0 (en_names e) of
             Some slot \<Rightarrow> Some (inventory_or_keep e (set_capacity (en_inventory e) slot cap), slot)
           | None \<Rightarrow> do { (iv, slot) \<leftarrow> push_slot (en_inventory e) cap; Some (e\<lparr>en_inventory := iv\<rparr>, slot) });
          let index = unat slot;
              ns = (if length (en_names e) \<le> index then vec_resize (en_names e) (index + 1) None else en_names e)
          in do { ns \<leftarrow> vec_set ns index (Some name);
                  (e, w) \<leftarrow> for_each (claim L slot now) in_flight (e\<lparr>en_names := ns\<rparr>, w);
                  Some (e, send_reply rp (Ans_Slot slot) w) } }"

definition evict_slot :: "'q libs \<Rightarrow> engine \<Rightarrow> slot_index \<Rightarrow> virtual_time \<Rightarrow> engine option" where
  "evict_slot L e slot now =
     (let evicted = map run_job (filter (\<lambda>r. run_slot r = slot) (en_running e));
          e = e\<lparr>en_running := filter (\<lambda>r. run_slot r \<noteq> slot) (en_running e)\<rparr>
      in do { e \<leftarrow> (if en_quiescing e then Some e
                   else for_each (\<lambda>i e. requeue_logged L e i now) evicted e);
              let e = inventory_or_keep e (clear_allocation (en_inventory e) slot);
                  e = inventory_or_keep e (set_capacity (en_inventory e) slot ZERO)
              in Some (if unat slot < length (en_names e)
                       then e\<lparr>en_names := (en_names e)[unat slot := None]\<rparr> else e) })"

section \<open>Queries\<close>

definition count_state :: "job_state \<Rightarrow> (job_id \<times> job) list \<Rightarrow> nat" where
  "count_state st ijs = length (filter (\<lambda>(i, j). state j = st) ijs)"

definition queue_summary :: "engine \<Rightarrow> queue_summary option" where
  "queue_summary e =
     do { ijs \<leftarrow> arena_iter (en_jobs e);
          Some \<lparr>qs_ready = sched_pending (en_scheduler e), qs_blocked = count_state Blocked ijs,
                qs_running = length (en_running e), qs_cycles = en_cycles e\<rparr> }"

definition node_of :: "engine \<Rightarrow> slot_index \<Rightarrow> node_summary option" where
  "node_of e slot =
     map_option (\<lambda>s.
       let name = Option.bind (vec_get (en_names e) (unat slot)) (\<lambda>n. n)
       in \<lparr>ns_slot = slot, ns_name = (case name of None \<Rightarrow> [] | Some n \<Rightarrow> n), ns_capacity = capacity s,
           ns_allocated = allocated s, ns_attached = name \<noteq> None\<rparr>) (inv_slot (en_inventory e) slot)"

definition nodes :: "engine \<Rightarrow> node_summary list option" where
  "nodes e =
     do { n \<leftarrow> inv_len (en_inventory e);
          Some (List.map_filter (node_of e) (map word_of_nat [0..<unat n])) }"

definition accounts :: "engine \<Rightarrow> account_summary list" where
  "accounts e =
     (let fs = sc_fairshare (en_scheduler e)
      in map (\<lambda>(k, l, f). \<lparr>as_account = or_max k, as_shares = lg_shares l, as_usage = lg_usage l,
                as_running_cpu = lg_running_cpu l, as_fairshare = f\<rparr>)
           (enumerate 0 (zip (fs_ledgers fs) (fs_factors fs))))"

fun on_query :: "engine \<Rightarrow> 'q world \<Rightarrow> query \<Rightarrow> 'q world option" where
  "on_query e w (Status i rp) = Some (send_reply rp (Ans_Status (map_option state (arena_get (en_jobs e) i))) w)"
| "on_query e w (Queue rp) = do { s \<leftarrow> queue_summary e; Some (send_reply rp (Ans_Queue s) w) }"
| "on_query e w (Nodes rp) = do { ns \<leftarrow> nodes e; Some (send_reply rp (Ans_Nodes ns) w) }"
| "on_query e w (Demand rp) = Some (send_reply rp (Ans_Demand (en_demand e)) w)"
| "on_query e w (Accounts rp) = Some (send_reply rp (Ans_Accounts (accounts e)) w)"

section \<open>Commands\<close>

fun handle ::
  "'q libs \<Rightarrow> command \<Rightarrow> virtual_time \<Rightarrow> engine \<times> 'q world \<Rightarrow> (engine \<times> 'q world) option" where
  "handle L (Cmd_Submit j rp) now (e, w) = on_submit L e w j rp now"
| "handle L (Cmd_Cancel i rp) now (e, w) = on_cancel L e w i rp now"
| "handle L (Cmd_Completed i) now (e, w) = do { e \<leftarrow> on_completed_report L e i now; Some (e, w) }"
| "handle L (Cmd_Failed i) now (e, w) = do { e \<leftarrow> on_failed_report L e i now; Some (e, w) }"
| "handle L (Cmd_Preempted i) now (e, w) = do { e \<leftarrow> on_preempted_report L e i now; Some (e, w) }"
| "handle L (Cmd_WorkerJoined name cap in_flight rp) now (e, w) = on_worker_joined L e w name cap in_flight rp now"
| "handle L (Cmd_WorkerLeft slot) now (e, w) = do { e \<leftarrow> evict_slot L e slot now; Some (e, w) }"
| "handle L (Cmd_WorkerDraining slot) now (e, w) =
     Some (inventory_or_keep e (set_capacity (en_inventory e) slot ZERO), w)"
| "handle L (Cmd_Query q) now (e, w) = do { w \<leftarrow> on_query e w q; Some (e, w) }"

text \<open>At most \<open>drain_budget\<close> commands are taken from the inbox, whose \<open>pop\<close> is the library's.\<close>

fun drain_inbox ::
  "'q libs \<Rightarrow> ('i \<Rightarrow> 'i \<times> command option) \<Rightarrow> nat \<Rightarrow> virtual_time \<Rightarrow> 'i \<Rightarrow> engine \<times> 'q world \<Rightarrow> nat
     \<Rightarrow> ('i \<times> (engine \<times> 'q world) \<times> nat) option" where
  "drain_inbox L pop 0 now ib ew applied = Some (ib, ew, applied)"
| "drain_inbox L pop (Suc n) now ib ew applied =
     (case pop ib of
        (ib, None) \<Rightarrow> Some (ib, ew, applied)
      | (ib, Some c) \<Rightarrow> do { ew \<leftarrow> handle L c now ew; drain_inbox L pop n now ib ew (applied + 1) })"

definition drain ::
  "'q libs \<Rightarrow> ('i \<Rightarrow> 'i \<times> command option) \<Rightarrow> virtual_time \<Rightarrow> 'i \<Rightarrow> engine \<times> 'q world
     \<Rightarrow> ('i \<times> (engine \<times> 'q world) \<times> nat) option" where
  "drain L pop now ib ew = drain_inbox L pop (en_drain_budget (fst ew)) now ib ew 0"

section \<open>The tick\<close>

text \<open>The overflow is popped from its end; a dispatch the ring refuses goes back there.\<close>

fun flush_rev :: "'q libs \<Rightarrow> dispatch list \<Rightarrow> 'q world \<Rightarrow> dispatch list \<times> 'q world" where
  "flush_rev L [] w = ([], w)"
| "flush_rev L (d # ds) w =
     (case outbox_push L w d of
        (w, Inr u) \<Rightarrow> flush_rev L ds w
      | (w, Inl back) \<Rightarrow> (back # ds, w))"

definition flush_overflow :: "'q libs \<Rightarrow> engine \<Rightarrow> 'q world \<Rightarrow> engine \<times> 'q world" where
  "flush_overflow L e w =
     (case flush_rev L (rev (en_overflow e)) w of (ds, w) \<Rightarrow> (e\<lparr>en_overflow := rev ds\<rparr>, w))"

definition on_dispatched ::
  "'q libs \<Rightarrow> virtual_time \<Rightarrow> dispatch_decision \<Rightarrow> engine \<times> 'q world \<Rightarrow> (engine \<times> 'q world) option" where
  "on_dispatched L now d ew =
     (case ew of (e, w) \<Rightarrow>
      case arena_get (en_jobs e) (dec_job d) of
        None \<Rightarrow> Some (e, w)
      | Some j \<Rightarrow>
          let e = e\<lparr>en_running := en_running e @
                [\<lparr>run_job = dec_job d, run_slot = dec_slot d, run_resources = request j,
                  run_ends_at = time_saturating_add now (walltime_limit j)\<rparr>]\<rparr>
          in do { e \<leftarrow> engine_record L e (R_Dispatched (dec_job d) now);
                  Some (dispatch_durably L e w (Assign (dec_slot d) (dec_job d) (payload j) (walltime_limit j))) })"

definition evict_one ::
  "'q libs \<Rightarrow> virtual_time \<Rightarrow> eviction \<Rightarrow> engine \<times> 'q world \<Rightarrow> (engine \<times> 'q world) option" where
  "evict_one L now ev ew =
     (case ew of (e, w) \<Rightarrow>
      do { (e, r) \<leftarrow> with_sched e (sched_preempt (en_scheduler e) (ev_job ev) (en_jobs e));
           case r of
             Inl err \<Rightarrow> Some (e, w)
           | Inr u \<Rightarrow>
               do { e \<leftarrow> engine_record L e (R_Preempted (ev_job ev) now);
                    Some (dispatch_durably L e w
                            (Preempt (ev_slot ev) (ev_job ev) (grace (cc_preempt (en_cycle e))))) } })"

definition plan_evictions ::
  "'q libs \<Rightarrow> job_id \<Rightarrow> virtual_time \<Rightarrow> engine \<times> 'q world \<Rightarrow> (engine \<times> 'q world) option" where
  "plan_evictions L head now ew =
     (let e = fst ew
      in do { evictions \<leftarrow> (case arena_get (en_jobs e) head of
                None \<Rightarrow> Some []
              | Some j \<Rightarrow>
                  map_option fst (plan_preemption j (en_running e) (en_jobs e) (en_inventory e) now
                    (cc_preempt (en_cycle e)) []));
              for_each (evict_one L now) evictions ew })"

definition div_ceil :: "u64 \<Rightarrow> u64 \<Rightarrow> u64 option" where
  "div_ceil a b =
     (if b = 0 then None else Some (if a mod b > 0 then a div b + 1 else a div b))"

definition clamp :: "u32 \<Rightarrow> u32 \<Rightarrow> u32 \<Rightarrow> u32 option" where
  "clamp x lo hi = (if lo \<le> hi then Some (if x < lo then lo else if hi < x then hi else x) else None)"

definition cpu_of :: "job_state \<Rightarrow> (job_id \<times> job) list \<Rightarrow> u64" where
  "cpu_of st ijs = foldl (\<lambda>acc (i, j). if state j = st then acc + ucast (cpu_millis (request j)) else acc) 0 ijs"

definition refresh_demand :: "engine \<Rightarrow> engine option" where
  "refresh_demand e =
     do { ijs \<leftarrow> arena_iter (en_jobs e);
          let cpu_ready = cpu_of Ready ijs; cpu_running = cpu_of Running ijs
          in do { needed \<leftarrow> div_ceil (cpu_ready + cpu_running) (en_worker_cpu e);
                  desired \<leftarrow> clamp (or_max (unat needed)) (en_min_workers e) (en_max_workers e);
                  Some (e\<lparr>en_demand := \<lparr>dm_desired = desired,
                            dm_attached = or_max (length (filter (\<lambda>n. n \<noteq> None) (en_names e))),
                            dm_cpu_ready = cpu_ready, dm_cpu_running = cpu_running\<rparr>\<rparr>) } }"

fun forget_loop :: "'q libs \<Rightarrow> virtual_time \<Rightarrow> (virtual_time \<times> job_id) list \<Rightarrow> engine \<Rightarrow> engine option" where
  "forget_loop L now [] e = Some (e\<lparr>en_terminal := []\<rparr>)"
| "forget_loop L now ((at, i) # ts) e =
     (if saturating_sub_time now at < en_retain e then Some (e\<lparr>en_terminal := (at, i) # ts\<rparr>)
      else case arena_remove (en_jobs e) i of
        (jobs, None) \<Rightarrow> forget_loop L now ts e
      | (jobs, Some j) \<Rightarrow>
          do { e \<leftarrow> engine_record L (e\<lparr>en_jobs := jobs\<rparr>) (R_Forgotten i); forget_loop L now ts e })"

definition forget_expired :: "'q libs \<Rightarrow> engine \<Rightarrow> virtual_time \<Rightarrow> engine option" where
  "forget_expired L e now = forget_loop L now (en_terminal e) e"

definition requeue_unclaimed :: "'q libs \<Rightarrow> virtual_time \<Rightarrow> job_id \<Rightarrow> engine \<Rightarrow> engine option" where
  "requeue_unclaimed L now i e =
     (if map_option state (arena_get (en_jobs e) i) = Some Running then requeue_logged L e i now else Some e)"

definition expire_reconcile :: "'q libs \<Rightarrow> engine \<Rightarrow> virtual_time \<Rightarrow> engine option" where
  "expire_reconcile L e now =
     (if en_reconciling e = [] then Some (e\<lparr>en_reconcile_until := None\<rparr>)
      else
        let until = (case en_reconcile_until e of
                       Some t \<Rightarrow> t | None \<Rightarrow> time_saturating_add now (en_reconcile_window e))
        in if now < until then Some (e\<lparr>en_reconcile_until := Some until\<rparr>)
           else do { e \<leftarrow> for_each (requeue_unclaimed L now) (en_reconciling e) (e\<lparr>en_reconciling := []\<rparr>);
                     Some (e\<lparr>en_reconcile_until := None\<rparr>) })"

definition ids_in :: "job_state \<Rightarrow> (job_id \<times> job) list \<Rightarrow> job_id list" where
  "ids_in st ijs = map fst (filter (\<lambda>(i, j). state j = st) ijs)"

definition engine_snapshot :: "'q libs \<Rightarrow> engine \<Rightarrow> virtual_time \<Rightarrow> u8 list option" where
  "engine_snapshot L e now =
     do { ijs \<leftarrow> arena_iter (en_jobs e);
          encode_snapshot (crc32 L) [] now (arena_slots (en_jobs e)) (arena_free_head (en_jobs e))
            (ids_in Running ijs) (fs_ledgers (sc_fairshare (en_scheduler e))) }"

text \<open>The end of a tick: a snapshot if the log has outgrown its threshold, and the hand-off.\<close>

definition commit_tick :: "'q libs \<Rightarrow> engine \<Rightarrow> virtual_time \<Rightarrow> engine option" where
  "commit_tick L e now =
     (case en_journal e of
        None \<Rightarrow> Some e
      | Some jn \<Rightarrow>
          do { jn \<leftarrow> (if wants_snapshot jn
                     then do { snap \<leftarrow> engine_snapshot L e now; Some (attach_snapshot jn snap) }
                     else Some jn);
               Some (e\<lparr>en_journal := Some (fst (journal_commit jn))\<rparr>) })"

definition tick ::
  "'q libs \<Rightarrow> virtual_time \<Rightarrow> engine \<times> 'q world \<Rightarrow> ((engine \<times> 'q world) \<times> cycle_outcome) option" where
  "tick L now ew =
     (case flush_overflow L (fst ew) (snd ew) of (e, w) \<Rightarrow>
      do { (s, jobs, iv, decisions, out) \<leftarrow>
             run_cycle (en_scheduler e) (en_jobs e) (en_inventory e) (en_running e) now (en_cycle e) [];
           ew \<leftarrow> for_each (on_dispatched L now) decisions
             (e\<lparr>en_scheduler := s, en_jobs := jobs, en_inventory := iv\<rparr>, w);
           (e, w) \<leftarrow> (case co_head out of None \<Rightarrow> Some ew | Some head \<Rightarrow> plan_evictions L head now ew);
           e \<leftarrow> refresh_demand (e\<lparr>en_cycles := en_cycles e + 1\<rparr>);
           let e = (if saturating_sub_time now (en_account_metrics_at e) \<ge> from_secs 1
                    then e\<lparr>en_account_metrics_at := now\<rparr> else e)
           in do { e \<leftarrow> forget_expired L e now;
                   e \<leftarrow> expire_reconcile L e now;
                   e \<leftarrow> commit_tick L e now;
                   Some ((e, w), out) } })"

section \<open>The thread\<close>

text \<open>
  One turn of \<open>run\<close>: the inbox as it is when the thread wakes, the time and the shutdown flag it
  reads. The turns end when the stop flag is set; then the journal is flushed.
\<close>

fun run_turns ::
  "'q libs \<Rightarrow> ('i \<Rightarrow> 'i \<times> command option) \<Rightarrow> ('i \<times> virtual_time \<times> bool) list \<Rightarrow> engine \<times> 'q world
     \<Rightarrow> (engine \<times> 'q world) option" where
  "run_turns L pop [] ew = Some ew"
| "run_turns L pop ((ib, now, quiesce) # turns) ew =
     do { (ib, ew, _) \<leftarrow> drain L pop now ib ((fst ew)\<lparr>en_quiescing := quiesce\<rparr>, snd ew);
          (ew, _) \<leftarrow> tick L now ew;
          run_turns L pop turns ew }"

definition engine_run ::
  "'q libs \<Rightarrow> ('i \<Rightarrow> 'i \<times> command option) \<Rightarrow> ('i \<times> virtual_time \<times> bool) list \<Rightarrow> engine \<times> 'q world
     \<Rightarrow> (engine \<times> 'q world) option" where
  "engine_run L pop turns ew =
     do { (e, w) \<leftarrow> run_turns L pop turns ew;
          Some (e\<lparr>en_journal := map_option flush (en_journal e)\<rparr>, w) }"

end
