(* ===== verification/Slot_Books.thy ===== *)
theory Slot_Books
  imports Engine
begin

text \<open>
  The engine's books about worker slots: what is allocated on a slot is the sum of what runs there,
  and a slot without a worker's name has no capacity and runs nothing. Each inventory operation the
  engine makes keeps the books, together with the change it makes to the running list.
\<close>

section \<open>Model\<close>

definition slot_load :: "dim \<Rightarrow> running_job list \<Rightarrow> nat \<Rightarrow> nat" where
  "slot_load d running k = (\<Sum>r\<leftarrow>running. if unat (run_slot r) = k then dim_of d (run_resources r) else 0)"

definition books :: "slot_inventory \<Rightarrow> running_job list \<Rightarrow> bool" where
  "books iv running \<longleftrightarrow> drained_or_within iv
     \<and> (\<forall>r\<in>set running. unat (run_slot r) < length (inv_slots iv))
     \<and> (\<forall>k < length (inv_slots iv). \<forall>d. dim_of d (allocated (inv_slots iv ! k)) = slot_load d running k)"

definition names_ok :: "slot_inventory \<Rightarrow> running_job list \<Rightarrow> string option list \<Rightarrow> bool" where
  "names_ok iv running names \<longleftrightarrow> length names = length (inv_slots iv)
     \<and> (\<forall>k < length names. names ! k = None \<longrightarrow> capacity (inv_slots iv ! k) = ZERO
          \<and> (\<forall>r\<in>set running. unat (run_slot r) \<noteq> k))"

section \<open>Order does not matter\<close>

lemma slot_load_Nil [simp]: "slot_load d [] k = 0"
  by (simp add: slot_load_def)

lemma slot_load_Cons [simp]:
  "slot_load d (r # running) k = (if unat (run_slot r) = k then dim_of d (run_resources r) else 0) + slot_load d running k"
  by (simp add: slot_load_def)

lemma slot_load_mset: "mset xs = mset ys \<Longrightarrow> slot_load d xs k = slot_load d ys k"
  unfolding slot_load_def by (simp flip: sum_mset_sum_list)

lemma books_mset: "mset xs = mset ys \<Longrightarrow> books iv xs = books iv ys"
  unfolding books_def by (simp add: slot_load_mset [of xs ys] mset_eq_setD [of xs ys])

lemma names_mset: "mset xs = mset ys \<Longrightarrow> names_ok iv xs names = names_ok iv ys names"
  unfolding names_ok_def by (simp add: mset_eq_setD [of xs ys])

lemma swap_remove_mset:
  assumes "swap_remove xs k = Some (x, ys)"
  shows "mset xs = add_mset x (mset ys)"
proof -
  from assms have k: "k < length xs" "x = xs ! k" "ys = butlast (xs[k := last xs])"
    by (auto simp: swap_remove_def split: if_splits)
  let ?ys = "xs[k := last xs]"
  have ne: "?ys \<noteq> []" using k(1) by auto
  have "last ?ys = last xs" using k(1) by (cases "xs = []") (auto simp: last_list_update)
  then have "mset ?ys = add_mset (last xs) (mset ys)"
    using arg_cong [OF append_butlast_last_id [OF ne], of mset] k(3) by simp
  moreover have "mset ?ys = add_mset (last xs) (mset xs - {#x#})" using k by (simp add: mset_update)
  ultimately have "mset ys = mset xs - {#x#}" by simp
  moreover have "x \<in># mset xs" using k by simp
  ultimately show ?thesis by simp
qed

section \<open>Operations\<close>

lemma dim_of_ZERO [simp]: "dim_of d ZERO = 0"
  by (cases d) (simp_all add: ZERO_def)

lemma dims_eqI: "(\<And>d. dim_of d a = dim_of d b) \<Longrightarrow> a = b"
  by (rule fits_within_antisym) (simp_all add: fits_within_dims)

lemma books_allocate:
  assumes "books iv running" and "try_allocate iv w res = Inr iv'"
    and "run_slot r = w" and "run_resources r = res"
  shows "books iv' (r # running)"
proof -
  from assms(2) obtain n where n: "unat w < length (inv_slots iv)"
    "res_checked_add (allocated (inv_slots iv ! unat w)) res = Some n" "fits_within n (capacity (inv_slots iv ! unat w))"
    "iv' = iv\<lparr>inv_slots := (inv_slots iv)[unat w := (inv_slots iv ! unat w)\<lparr>allocated := n\<rparr>]\<rparr>"
    by (rule try_allocate_Inr)
  have "drained_or_within iv'"
    using assms(1) n(3) unfolding n(4) by (intro drained_update) (simp_all add: books_def slot_within_def)
  with assms n show ?thesis by (auto simp: books_def nth_list_update dim_of_checked_add)
qed

lemma books_release:
  assumes "books iv (r # running)"
  shows "\<exists>iv'. release iv (run_slot r) (run_resources r) = Inr iv' \<and> books iv' running
     \<and> length (inv_slots iv') = length (inv_slots iv)
     \<and> (\<forall>k < length (inv_slots iv). capacity (inv_slots iv' ! k) = capacity (inv_slots iv ! k))"
proof -
  let ?k = "unat (run_slot r)" let ?s = "inv_slots iv ! ?k"
  let ?iv = "iv\<lparr>inv_slots := (inv_slots iv)[?k := ?s\<lparr>allocated := res_saturating_sub (allocated ?s) (run_resources r)\<rparr>]\<rparr>"
  have k: "?k < length (inv_slots iv)" using assms by (simp add: books_def)
  then have "slot_within ?s \<or> capacity ?s = ZERO" using assms by (auto simp: books_def drained_or_within_def)
  then have "drained_or_within ?iv"
    using assms by (intro drained_update) (auto simp: books_def slot_within_release)
  moreover have "dim_of d (allocated ?s) = dim_of d (run_resources r) + slot_load d running ?k" for d
    using assms k by (simp add: books_def)
  ultimately have "books ?iv running" using assms by (auto simp: books_def nth_list_update dim_of_saturating_sub)
  with k show ?thesis by (auto simp: release_def vec_get_def nth_list_update)
qed

lemma slot_load_filter:
  "slot_load d (filter (\<lambda>r. run_slot r \<noteq> w) running) k = (if k = unat w then 0 else slot_load d running k)"
  by (induction running) (auto simp: unat_eq_unat_iff)

lemma clear_then_drain:
  assumes "unat w < length (inv_slots iv)"
  shows "\<exists>iv1 iv2. clear_allocation iv w = Inr iv1 \<and> set_capacity iv1 w ZERO = Inr iv2
     \<and> inv_slots iv2 = (inv_slots iv)[unat w := worker_slot_new ZERO]"
  using assms by (cases "inv_slots iv ! unat w") (simp add: clear_allocation_def set_capacity_def vec_get_def worker_slot_new_def)

lemma books_evict:
  assumes "books iv running" and "inv_slots iv2 = (inv_slots iv)[unat w := worker_slot_new ZERO]"
    and "unat w < length (inv_slots iv)"
  shows "books iv2 (filter (\<lambda>r. run_slot r \<noteq> w) running)"
proof -
  have "drained_or_within iv2"
    using assms by (auto simp: books_def drained_or_within_def dest!: set_list_update_imp)
  then show ?thesis
    using assms by (auto simp: books_def slot_load_filter nth_list_update worker_slot_new_def)
qed

lemma set_capacity_Inr:
  assumes "set_capacity iv w cap = Inr iv'"
  shows "unat w < length (inv_slots iv)
     \<and> inv_slots iv' = (inv_slots iv)[unat w := (inv_slots iv ! unat w)\<lparr>capacity := cap\<rparr>]"
  using assms by (auto simp: set_capacity_def vec_get_def split: if_splits)

lemma books_capacity:
  assumes "books iv running" and "set_capacity iv w cap = Inr iv'" and "drained_or_within iv'"
  shows "books iv' running"
proof -
  have "length (inv_slots iv') = length (inv_slots iv)"
    "allocated (inv_slots iv' ! k) = allocated (inv_slots iv ! k)" if "k < length (inv_slots iv)" for k
    using set_capacity_Inr [OF assms(2)] that by (auto simp: nth_list_update)
  moreover have "length (inv_slots iv') = length (inv_slots iv)" using set_capacity_Inr [OF assms(2)] by simp
  ultimately show ?thesis using assms(1,3) by (simp add: books_def)
qed

lemma books_drain:
  assumes "books iv running" and "set_capacity iv w ZERO = Inr iv'"
  shows "books iv' running"
  by (intro books_capacity [OF assms] set_capacity_drained [OF _ assms(2)])
    (use assms(1) in \<open>simp_all add: books_def\<close>)

lemma slot_load_none: "\<forall>r\<in>set running. unat (run_slot r) \<noteq> k \<Longrightarrow> slot_load d running k = 0"
  by (induction running) auto

lemma vacant_empty:
  assumes "books iv running" and "\<forall>r\<in>set running. unat (run_slot r) \<noteq> k" and "k < length (inv_slots iv)"
  shows "allocated (inv_slots iv ! k) = ZERO"
proof (rule dims_eqI)
  fix d
  from slot_load_none [OF assms(2)] assms show "dim_of d (allocated (inv_slots iv ! k)) = dim_of d ZERO" by (simp add: books_def)
qed

lemma books_rejoin:
  assumes "books iv running" and "set_capacity iv w cap = Inr iv'"
    and "\<forall>r\<in>set running. unat (run_slot r) \<noteq> unat w"
  shows "books iv' running"
proof -
  have "cap = ZERO \<or> inv_slot iv w = Some (inv_slots iv ! unat w) \<and> allocated (inv_slots iv ! unat w) = ZERO"
    using vacant_empty [OF assms(1,3)] set_capacity_Inr [OF assms(2)] by (simp add: inv_slot_def vec_get_def)
  moreover have "drained_or_within iv" using assms(1) by (simp add: books_def)
  ultimately show ?thesis using books_capacity [OF assms(1,2) set_capacity_drained [OF _ assms(2)]] by blast
qed

lemma books_push:
  assumes "books iv running" and "length (inv_slots iv) < 2 ^ 32"
  shows "\<exists>iv' w. push_slot iv cap = Some (iv', w) \<and> books iv' running \<and> unat w = length (inv_slots iv)
     \<and> inv_slots iv' = inv_slots iv @ [worker_slot_new cap]"
proof -
  let ?w = "word_of_nat (length (inv_slots iv)) :: u32"
  let ?iv = "iv\<lparr>inv_slots := inv_slots iv @ [worker_slot_new cap], max_capacity := res_max (max_capacity iv) cap\<rparr>"
  have e: "expect_u32 (length (inv_slots iv)) = Some ?w" using assms(2) by (simp add: expect_u32_def)
  have u: "unat ?w = length (inv_slots iv)" using assms(2) by (rule unat_word_of_nat_u32)
  have p: "push_slot iv cap = Some (?iv, ?w)" by (simp add: push_slot_def e)
  have z: "slot_load d running (length (inv_slots iv)) = 0" for d
    by (rule slot_load_none) (use assms(1) in \<open>auto simp: books_def\<close>)
  have "dim_of d (allocated (inv_slots ?iv ! k)) = slot_load d running k" if "k < length (inv_slots ?iv)" for d k
  proof (cases "k = length (inv_slots iv)")
    case True
    with z show ?thesis by (simp add: worker_slot_new_def)
  next
    case False
    with that have "k < length (inv_slots iv)" by simp
    with assms(1) show ?thesis by (simp add: books_def nth_append)
  qed
  moreover have "drained_or_within ?iv" by (rule drained_append [OF _ e]) (use assms(1) in \<open>simp add: books_def\<close>)
  moreover have "\<forall>r\<in>set running. unat (run_slot r) < length (inv_slots ?iv)" using assms(1) by (auto simp: books_def)
  ultimately have "books ?iv running" unfolding books_def by blast
  moreover have "inv_slots ?iv = inv_slots iv @ [worker_slot_new cap]" by simp
  ultimately show ?thesis using p u by blast
qed

end
