(* ===== verification/Arena_Shape.thy ===== *)
theory Arena_Shape
  imports Scheduler_Run
begin

text \<open>
  The shape of a job arena: its slots without the jobs in them. It decides the handle the next
  insertion issues. No lifecycle call and no cycle changes it, so only insertions and removals
  decide which handles jobs get.
\<close>

definition arena_shape :: "'a arena \<Rightarrow> unit slot list \<times> u32 option" where
  "arena_shape a = (map (map_slot (\<lambda>_. ())) (arena_slots a), arena_free_head a)"

named_theorems shape \<open>calls that keep the arena's shape\<close>

lemma shape_put [shape]: "arena_shape (arena_put a i v) = arena_shape a"
proof (cases "arena_get a i")
  case (Some u)
  have "map (map_slot (\<lambda>_. ())) (arena_slots a) ! unat (job_index i) = Occupied (job_generation i) ()"
    if "unat (job_index i) < length (arena_slots a)"
    using Some that by (auto simp: arena_get_def bind_eq_Some_conv vec_get_def split: slot.splits if_splits)
  moreover have "unat (job_index i) < length (arena_slots a)"
    using Some by (auto simp: arena_get_def bind_eq_Some_conv vec_get_def split: if_splits)
  ultimately show ?thesis
    using list_update_id [of "map (map_slot (\<lambda>_. ())) (arena_slots a)" "unat (job_index i)"]
    by (simp add: arena_shape_def arena_put_live [OF Some] map_update)
qed simp

lemma shape_length: "arena_shape a = arena_shape b \<Longrightarrow> length (arena_slots a) = length (arena_slots b)"
  unfolding arena_shape_def by (metis Pair_inject length_map)

lemma shape_nth:
  assumes "arena_shape a = arena_shape b" and "k < length (arena_slots a)"
  shows "map_slot (\<lambda>_. ()) (arena_slots a ! k) = map_slot (\<lambda>_. ()) (arena_slots b ! k)"
proof -
  have "map (map_slot (\<lambda>_. ())) (arena_slots a) ! k = map (map_slot (\<lambda>_. ())) (arena_slots b) ! k"
    using assms(1) by (simp add: arena_shape_def)
  with assms(2) shape_length [OF assms(1)] show ?thesis by simp
qed

lemma shape_slot_cases:
  assumes "map_slot (\<lambda>_. ()) s = map_slot (\<lambda>_. ()) t"
  obtains (occupied) g u v where "s = Occupied g u" "t = Occupied g v"
  | (vacant) g nf where "s = Vacant g nf" "t = Vacant g nf"
  using assms by (cases s; cases t) auto

lemma shape_issued: "arena_shape a = arena_shape b \<Longrightarrow> issued a x \<longleftrightarrow> issued b x"
proof -
  assume s: "arena_shape a = arena_shape b"
  show ?thesis
  proof (cases "dep_ix x < length (arena_slots a)")
    case True
    from shape_nth [OF s True] show ?thesis
      by (cases rule: shape_slot_cases) (use shape_length [OF s] True in \<open>simp_all add: issued_def\<close>)
  qed (use shape_length [OF s] in \<open>simp add: issued_def\<close>)
qed

lemma shape_next_id:
  assumes s: "arena_shape a = arena_shape b"
  shows "next_id a = next_id b"
proof (cases "arena_free_head a")
  case None
  moreover have "arena_free_head b = arena_free_head a" using s by (simp add: arena_shape_def)
  ultimately show ?thesis using shape_length [OF s] by (simp add: next_id_def)
next
  case (Some w)
  have h: "arena_free_head b = arena_free_head a" using s by (simp add: arena_shape_def)
  show ?thesis
  proof (cases "unat w < length (arena_slots a)")
    case True
    from shape_nth [OF s True] show ?thesis
      by (cases rule: shape_slot_cases) (use shape_length [OF s] True Some h in \<open>simp_all add: next_id_def vec_index_def\<close>)
  qed (use shape_length [OF s] Some h in \<open>simp add: next_id_def vec_index_def\<close>)
qed

lemma shape_live: "arena_shape a = arena_shape b \<Longrightarrow> arena_get a i = None \<longleftrightarrow> arena_get b i = None"
proof -
  assume s: "arena_shape a = arena_shape b"
  show ?thesis
  proof (cases "unat (job_index i) < length (arena_slots a)")
    case True
    from shape_nth [OF s True] show ?thesis
      by (cases rule: shape_slot_cases) (use shape_length [OF s] True in \<open>simp_all add: arena_get_def vec_get_def\<close>)
  qed (use shape_length [OF s] in \<open>simp add: arena_get_def vec_get_def\<close>)
qed

text \<open>Insertion and removal act on the shape alone.\<close>

lemma shape_insert:
  assumes s: "arena_shape a = arena_shape b" and "arena_insert a u = Some (a', i)" and "arena_insert b v = Some (b', k)"
  shows "i = k \<and> arena_shape a' = arena_shape b'"
proof -
  have "next_id a = Some i" "next_id b = Some k" using arena_insert_next_id [OF assms(2)] arena_insert_next_id [OF assms(3)] by simp_all
  then have ik: "i = k" using shape_next_id [OF s] by simp
  have h: "arena_free_head a = arena_free_head b" and m: "map (map_slot (\<lambda>_. ())) (arena_slots a) = map (map_slot (\<lambda>_. ())) (arena_slots b)"
    using s by (simp_all add: arena_shape_def)
  from assms(2) have "arena_shape a' = arena_shape b'"
  proof (cases rule: arena_insert_cases)
    case (reuse w g nf)
    note A = reuse
    from assms(3) show ?thesis
    proof (cases rule: arena_insert_cases)
      case (reuse w' g' nf')
      with A h have "w' = w" by simp
      with A reuse shape_nth [OF s A(2)] have "g' = g" "nf' = nf" by auto
      with A reuse m \<open>w' = w\<close> show ?thesis by (simp add: arena_shape_def map_update)
    qed (use A h in simp)
  next
    case grow
    note A = grow
    from assms(3) show ?thesis
      by (cases rule: arena_insert_cases) (use A h m in \<open>simp_all add: arena_shape_def\<close>)
  qed
  with ik show ?thesis by simp
qed

lemma shape_remove:
  assumes s: "arena_shape a = arena_shape b"
  shows "arena_shape (fst (arena_remove a i)) = arena_shape (fst (arena_remove b i))"
proof (cases "unat (job_index i) < length (arena_slots a)")
  case True
  have "arena_free_head a = arena_free_head b" "map (map_slot (\<lambda>_. ())) (arena_slots a) = map (map_slot (\<lambda>_. ())) (arena_slots b)"
    using s by (simp_all add: arena_shape_def)
  with shape_nth [OF s True] show ?thesis
    by (cases rule: shape_slot_cases)
      (use shape_length [OF s] True s in \<open>simp_all add: arena_remove_def Let_def vec_get_def arena_shape_def map_update\<close>)
qed (use shape_length [OF s] s in \<open>simp add: arena_remove_def Let_def vec_get_def\<close>)

section \<open>Calls\<close>

lemma restore_running_shape [shape]:
  "restore_running s i jobs now config = Some (s', jobs', r) \<Longrightarrow> arena_shape jobs' = arena_shape jobs"
  by (auto simp: restore_running_def bind_eq_Some_conv split: option.split_asm)
    (auto simp: shape_put split: sum.split_asm)

lemma sched_preempt_shape [shape]:
  "sched_preempt s i jobs = Some (s', jobs', r) \<Longrightarrow> arena_shape jobs' = arena_shape jobs"
  by (auto simp: sched_preempt_def bind_eq_Some_conv shape split: option.splits sum.splits)

lemma requeue_shape [shape]:
  "requeue s i jobs now config = Some (s', jobs', r) \<Longrightarrow> arena_shape jobs' = arena_shape jobs"
  by (auto simp: requeue_def bind_eq_Some_conv shape_put Let_def split: option.split_asm sum.split_asm if_split_asm)

lemma on_preempted_shape [shape]:
  assumes "on_preempted s i jobs now config = Some (s', jobs', r)"
  shows "arena_shape jobs' = arena_shape jobs"
  using assms by (auto simp: on_preempted_def bind_eq_Some_conv shape_put dest!: requeue_shape split: option.splits if_splits)

lemma submit_shape [shape]:
  assumes call: "submit s i jobs now config = Some (s', jobs', r)"
  shows "arena_shape jobs' = arena_shape jobs"
proof (cases "arena_get jobs i")
  case None
  with call show ?thesis by (simp add: submit_def)
next
  case (Some j)
  show ?thesis
  proof (cases "fs_ensure (sc_fairshare s) (account j)")
    case (Inl e)
    with call Some show ?thesis by (simp add: submit_def split: if_split_asm)
  next
    case (Inr fs)
    show ?thesis
    proof (cases "state j = Submitted \<and> register (sc_deps s) i j jobs \<noteq> None")
      case True
      then obtain t rd where "register (sc_deps s) i j jobs = Some (t, rd)" by auto
      with True call Some Inr show ?thesis
        by (cases rd) (auto simp: submit_def Let_def shape_put bind_eq_Some_conv split: sum.split_asm if_split_asm)
    qed (use call Some Inr in \<open>auto simp: submit_def Let_def split: if_split_asm\<close>)
  qed
qed

lemma promote_loop_shape:
  "promote_loop xs s jobs now config = Some (s', jobs') \<Longrightarrow> arena_shape jobs' = arena_shape jobs"
  by (induction xs arbitrary: s jobs) (force simp: shape_put bind_eq_Some_conv split: option.splits sum.splits)+

lemma sched_on_completed_shape [shape]:
  "sched_on_completed s i jobs now config = Some (s', jobs', r) \<Longrightarrow> arena_shape jobs' = arena_shape jobs"
  by (auto simp: sched_on_completed_def bind_eq_Some_conv shape_put Let_def dest!: promote_loop_shape
      split: option.splits sum.splits)

lemma apply_cascade_shape: "apply_cascade xs s jobs = Some (s', jobs') \<Longrightarrow> arena_shape jobs' = arena_shape jobs"
  by (induction xs arbitrary: s jobs) (force simp: shape_put bind_eq_Some_conv split: option.splits sum.splits)+

lemma cascade_from_shape: "cascade_from s i jobs = Some (s', jobs', r) \<Longrightarrow> arena_shape jobs' = arena_shape jobs"
  by (auto simp: cascade_from_def bind_eq_Some_conv dest!: apply_cascade_shape)

lemma on_failed_shape [shape]:
  "on_failed s i jobs now config = Some (s', jobs', r) \<Longrightarrow> arena_shape jobs' = arena_shape jobs"
  by (auto simp: on_failed_def bind_eq_Some_conv shape_put dest!: cascade_from_shape split: option.splits sum.splits)

lemma cancel_shape [shape]:
  "cancel s i jobs now config = Some (s', jobs', r) \<Longrightarrow> arena_shape jobs' = arena_shape jobs"
  by (auto simp: cancel_def bind_eq_Some_conv Let_def split: option.split_asm)
    (auto simp: shape_put dest!: cascade_from_shape split: sum.split_asm if_split_asm)

lemma emit_loop_shape: "emit_loop k es disp s jobs now config = Some (s', jobs') \<Longrightarrow> arena_shape jobs' = arena_shape jobs"
proof (induction es arbitrary: k s jobs)
  case (Cons e es)
  from Cons.prems obtain d where "vec_index disp k = Some d" by (auto simp: bind_eq_Some_conv)
  with Cons show ?case
    by (cases d) (auto simp: shape_put bind_eq_Some_conv split: option.split_asm sum.split_asm)
qed simp

lemma run_cycle_shape [shape]:
  "run_cycle s jobs iv running now config decs = Some (s', jobs', iv', decs', out) \<Longrightarrow> arena_shape jobs' = arena_shape jobs"
  by (auto simp: run_cycle_def bind_eq_Some_conv Let_def dest!: emit_loop_shape split: if_splits)

end
