(* ===== verification/Job_Effects.thy ===== *)
theory Job_Effects
  imports Arena_Shape Wal_Record
begin

text \<open>
  What the scheduler's calls do to jobs, as far as the engine relies on it: which jobs hold worker
  capacity before and after a call, which ones end, and that nothing but the state and the number of
  preemptions of a job ever changes.
\<close>

section \<open>Views of the arena\<close>

text \<open>The capacity a job holds on a worker: its request while it runs or is being evicted.\<close>

definition held_req :: "job arena \<Rightarrow> job_id \<Rightarrow> resources option" where
  "held_req jobs i =
     (case arena_get jobs i of
        None \<Rightarrow> None
      | Some j \<Rightarrow> if state j = Running \<or> state j = Preempted then Some (request j) else None)"

definition in_state :: "job arena \<Rightarrow> job_id \<Rightarrow> job_state \<Rightarrow> bool" where
  "in_state jobs i st \<longleftrightarrow> map_option state (arena_get jobs i) = Some st"

definition ended :: "job arena \<Rightarrow> job_id set" where
  "ended jobs = {i. \<exists>j. arena_get jobs i = Some j \<and> is_terminal (state j)}"

text \<open>The part of a job that no call changes.\<close>

definition fixed_part :: "job \<Rightarrow> job" where
  "fixed_part j = j\<lparr>state := Submitted, preemptions := 0\<rparr>"

definition same_jobs :: "job arena \<Rightarrow> job arena \<Rightarrow> bool" where
  "same_jobs jobs jobs' \<longleftrightarrow> arena_shape jobs' = arena_shape jobs
     \<and> (\<forall>i. map_option fixed_part (arena_get jobs' i) = map_option fixed_part (arena_get jobs i))"

lemma fixed_part_simps [simp]:
  "fixed_part (j\<lparr>state := st\<rparr>) = fixed_part j" "fixed_part (j\<lparr>preemptions := n, state := st\<rparr>) = fixed_part j"
  "fixed_part (j\<lparr>preemptions := n\<rparr>) = fixed_part j"
  by (simp_all add: fixed_part_def)

lemma fixed_part_eqD:
  assumes "fixed_part j = fixed_part k"
  shows "request j = request k" "deps j = deps k" "payload j = payload k" "account j = account k"
    "priority_class j = priority_class k" "submit_time j = submit_time k" "walltime_limit j = walltime_limit k"
  using arg_cong [OF assms, of request] arg_cong [OF assms, of deps] arg_cong [OF assms, of payload]
    arg_cong [OF assms, of account] arg_cong [OF assms, of priority_class] arg_cong [OF assms, of submit_time]
    arg_cong [OF assms, of walltime_limit]
  by (simp_all add: fixed_part_def)

lemma same_jobs_refl [simp]: "same_jobs jobs jobs"
  by (simp add: same_jobs_def)

lemma same_jobs_trans: "same_jobs a b \<Longrightarrow> same_jobs b c \<Longrightarrow> same_jobs a c"
  by (simp add: same_jobs_def)

lemma same_jobs_put: "arena_get jobs i = Some j \<Longrightarrow> fixed_part j' = fixed_part j \<Longrightarrow> same_jobs jobs (arena_put jobs i j')"
  by (simp add: same_jobs_def shape_put arena_put_get)

lemma same_jobs_restated: "restated st S jobs jobs' \<Longrightarrow> arena_shape jobs' = arena_shape jobs \<Longrightarrow> same_jobs jobs jobs'"
  by (auto simp: same_jobs_def restated_def option.map_comp comp_def)

lemma same_jobs_get:
  assumes "same_jobs jobs jobs'" and "arena_get jobs' i = Some k"
  obtains j where "arena_get jobs i = Some j" "fixed_part k = fixed_part j"
  using assms unfolding same_jobs_def by (metis map_option_eq_Some option.map_disc_iff option.exhaust)

lemma same_jobs_live: "same_jobs jobs jobs' \<Longrightarrow> arena_get jobs' i = None \<longleftrightarrow> arena_get jobs i = None"
  unfolding same_jobs_def by (metis option.map_disc_iff)

section \<open>Effects\<close>

lemma held_req_put:
  "arena_get jobs i = Some j \<Longrightarrow> held_req (arena_put jobs i j')
     = (held_req jobs)(i := if state j' = Running \<or> state j' = Preempted then Some (request j') else None)"
  by (auto simp: held_req_def arena_put_get)

lemma in_state_put: "arena_get jobs i = Some j \<Longrightarrow> in_state (arena_put jobs i j') x st \<longleftrightarrow> (if x = i then state j' = st else in_state jobs x st)"
  by (simp add: in_state_def arena_put_get)

lemma ended_put: "arena_get jobs i = Some j \<Longrightarrow> ended (arena_put jobs i j') = (if is_terminal (state j') then insert i (ended jobs) else ended jobs - {i})"
  by (auto simp: ended_def arena_put_get)

lemma held_req_restated:
  "restated st S jobs jobs' \<Longrightarrow> held_req jobs' x = (if x \<in> S \<and> arena_get jobs x \<noteq> None then
     (if st = Running \<or> st = Preempted then map_option request (arena_get jobs x) else None) else held_req jobs x)"
  by (auto simp: held_req_def restated_def split: option.splits)

lemma in_state_restated:
  "restated st S jobs jobs' \<Longrightarrow> in_state jobs' x t \<longleftrightarrow> (if x \<in> S then st = t \<and> arena_get jobs x \<noteq> None else in_state jobs x t)"
  by (auto simp: in_state_def restated_def split: option.splits)

lemma ended_restated:
  "restated st S jobs jobs' \<Longrightarrow> ended jobs' = (if is_terminal st then ended jobs \<union> {x \<in> S. arena_get jobs x \<noteq> None} else ended jobs - S)"
  by (auto simp: ended_def restated_def split: if_splits)

text \<open>A call that takes the capacity from job \<open>i\<close> and ends the jobs of \<open>S\<close>.\<close>

definition frees :: "job_id \<Rightarrow> job_id set \<Rightarrow> job arena \<Rightarrow> job arena \<Rightarrow> bool" where
  "frees i S jobs jobs' \<longleftrightarrow> same_jobs jobs jobs' \<and> held_req jobs' = (held_req jobs)(i := None)
     \<and> (\<forall>x. x \<noteq> i \<longrightarrow> in_state jobs x Running \<longrightarrow> in_state jobs' x Running) \<and> ended jobs' = ended jobs \<union> S"

lemma waits_on_blocked:
  assumes inv: "sched_inv s jobs" and "(i, x) \<in> (waits_on jobs)\<^sup>*" and "x \<noteq> i"
  shows "in_state jobs x Blocked"
proof -
  from assms(2,3) obtain d where "(d, x) \<in> waits_on jobs" by (metis rtranclE)
  then obtain k where k: "arena_get jobs x = Some k" "d \<in> set (deps k)" "dep_pending jobs d" "dep_pending jobs x"
    by (auto simp: waits_on_def)
  then have "\<not> is_terminal (state k)" by (simp add: dep_pending_def)
  with blocked_iff_pending(1) [OF inv k(1)] k show ?thesis by (auto simp: in_state_def)
qed

lemma frees_put:
  assumes "arena_get jobs i = Some j" and "state j = Running \<or> state j = Preempted"
    and "fixed_part j' = fixed_part j" and "state j' = Ready"
  shows "frees i {} jobs (arena_put jobs i j')"
  using assms by (auto simp: frees_def same_jobs_put held_req_put in_state_put ended_put) (auto simp: ended_def)

lemma frees_restated:
  assumes j: "arena_get jobs i = Some j" and t: "is_terminal t" and st: "st = Ready \<or> st = Cancelled"
    and S: "\<forall>x\<in>S. x \<noteq> i \<and> in_state jobs x Blocked"
    and r: "restated st S (arena_put jobs i (j\<lparr>state := t\<rparr>)) jobs'" and sh: "arena_shape jobs' = arena_shape jobs"
  shows "frees i (insert i (if st = Cancelled then S else {})) jobs jobs'"
proof -
  let ?p = "arena_put jobs i (j\<lparr>state := t\<rparr>)"
  have live: "arena_get ?p x \<noteq> None" "held_req jobs x = None" "x \<notin> ended jobs" "\<not> in_state jobs x Running" if "x \<in> S" for x
    using S that by (auto simp: arena_put_get [OF j] in_state_def held_req_def ended_def)
  have same: "same_jobs jobs jobs'"
    by (rule same_jobs_trans [OF same_jobs_put [OF j] same_jobs_restated [OF r]]) (simp_all add: sh shape_put)
  have "held_req jobs' = (held_req jobs)(i := None)"
  proof
    fix x show "held_req jobs' x = ((held_req jobs)(i := None)) x"
      using st t live [of x] S by (cases t) (auto simp: held_req_restated [OF r] held_req_put [OF j])
  qed
  moreover have "in_state jobs' x Running" if "x \<noteq> i" "in_state jobs x Running" for x
    using that live(4) [of x] by (auto simp: in_state_restated [OF r] in_state_put [OF j])
  moreover have "ended jobs' = ended jobs \<union> insert i (if st = Cancelled then S else {})"
    using st live S t by (auto simp: ended_restated [OF r] ended_put [OF j])
  ultimately show ?thesis using same by (simp add: frees_def)
qed

text \<open>The calls on a job that holds capacity, and \<open>cancel\<close> on any open job.\<close>

lemma held_reqD: "held_req jobs i = Some q \<Longrightarrow> \<exists>j. arena_get jobs i = Some j \<and> (state j = Running \<or> state j = Preempted) \<and> request j = q"
  by (auto simp: held_req_def split: option.splits if_splits)

lemma requeue_effect:
  assumes inv: "sched_inv s jobs" and "held_req jobs i \<noteq> None"
  shows "\<exists>s' jobs'. requeue s i jobs now config = Some (s', jobs', Inr ()) \<and> sched_inv s' jobs' \<and> frees i {} jobs jobs'
     \<and> (\<forall>x. arena_get jobs' x = (if x = i then map_option (\<lambda>j. j\<lparr>state := Ready\<rparr>) (arena_get jobs i) else arena_get jobs x))"
proof -
  obtain j where j: "arena_get jobs i = Some j" "state j = Running \<or> state j = Preempted"
    using assms(2) held_reqD by blast
  from requeue_spec [OF inv, of i now config] j frees_put [OF j, of "j\<lparr>state := Ready\<rparr>"] show ?thesis
    by (auto simp: arena_put_get [OF j(1)])
qed

lemma on_preempted_effect:
  assumes inv: "sched_inv s jobs" and "held_req jobs i \<noteq> None"
  shows "\<exists>s' jobs' r. on_preempted s i jobs now config = Some (s', jobs', r) \<and> sched_inv s' jobs'
     \<and> (if in_state jobs i Preempted then r = Inr () \<and> frees i {} jobs jobs'
        else (\<exists>e. r = Inl e) \<and> jobs' = jobs)"
proof -
  obtain j where j: "arena_get jobs i = Some j" "state j = Running \<or> state j = Preempted"
    using assms(2) held_reqD by blast
  from on_preempted_spec [OF inv, of i now config] j
    frees_put [OF j, of "j\<lparr>preemptions := saturating_add (preemptions j) 1, state := Ready\<rparr>"] show ?thesis
    by (cases "state j = Preempted") (auto simp: in_state_def)
qed

lemma completed_effect:
  assumes inv: "sched_inv s jobs" and "held_req jobs i \<noteq> None"
  shows "\<exists>s' jobs' out. sched_on_completed s i jobs now config = Some (s', jobs', Inr out) \<and> sched_inv s' jobs'
     \<and> frees i {i} jobs jobs'"
proof -
  obtain j where j: "arena_get jobs i = Some j" "state j = Running \<or> state j = Preempted"
    using assms(2) held_reqD by blast
  from sched_on_completed_spec [OF inv j, of now config] obtain s' jobs' out where
    c: "sched_on_completed s i jobs now config = Some (s', jobs', Inr out)" "sched_inv s' jobs'"
      "set out = {x. \<exists>k. arena_get jobs x = Some k \<and> state k = Blocked \<and> (\<forall>d\<in>set (deps k). dep_pending jobs d \<longrightarrow> d = i)}"
      "restated Ready (set out) (arena_put jobs i (j\<lparr>state := Completed\<rparr>)) jobs'" by blast
  have "\<forall>x\<in>set out. x \<noteq> i \<and> in_state jobs x Blocked" using c(3) j by (auto simp: in_state_def)
  from frees_restated [OF j(1) _ _ this c(4) sched_on_completed_shape [OF c(1)]] c(1,2) show ?thesis by auto
qed

lemma failed_effect:
  assumes inv: "sched_inv s jobs" and "held_req jobs i \<noteq> None"
  shows "\<exists>s' jobs' out. on_failed s i jobs now config = Some (s', jobs', Inr out) \<and> sched_inv s' jobs'
     \<and> frees i (insert i (set out)) jobs jobs'"
proof -
  obtain j where j: "arena_get jobs i = Some j" "state j = Running \<or> state j = Preempted"
    using assms(2) held_reqD by blast
  from on_failed_spec [OF inv j, of now config] obtain s' jobs' out where
    c: "on_failed s i jobs now config = Some (s', jobs', Inr out)" "sched_inv s' jobs'"
      "set out = {x. x \<noteq> i \<and> (i, x) \<in> (waits_on jobs)\<^sup>*}"
      "restated Cancelled (set out) (arena_put jobs i (j\<lparr>state := Failed\<rparr>)) jobs'" by blast
  have "\<forall>x\<in>set out. x \<noteq> i \<and> in_state jobs x Blocked" using c(3) waits_on_blocked [OF inv] by auto
  from frees_restated [OF j(1) _ _ this c(4) on_failed_shape [OF c(1)]] c(1,2) show ?thesis by auto
qed

lemma cancel_effect:
  assumes inv: "sched_inv s jobs" and j: "arena_get jobs i = Some j" "\<not> is_terminal (state j)"
  shows "\<exists>s' jobs' out. cancel s i jobs now config = Some (s', jobs', Inr out) \<and> sched_inv s' jobs'
     \<and> frees i (insert i (set out)) jobs jobs'"
proof -
  from cancel_spec [OF inv j, of now config] obtain s' jobs' out where
    c: "cancel s i jobs now config = Some (s', jobs', Inr out)" "sched_inv s' jobs'"
      "set out = {x. x \<noteq> i \<and> (i, x) \<in> (waits_on jobs)\<^sup>*}"
      "restated Cancelled (set out) (arena_put jobs i (j\<lparr>state := Cancelled\<rparr>)) jobs'" by blast
  have "\<forall>x\<in>set out. x \<noteq> i \<and> in_state jobs x Blocked" using c(3) waits_on_blocked [OF inv] by auto
  from frees_restated [OF j(1) _ _ this c(4) cancel_shape [OF c(1)]] c(1,2) show ?thesis by auto
qed

end
