(* ===== verification/Engine_Inv.thy ===== *)
theory Engine_Inv
  imports Slot_Books Job_Effects
begin

text \<open>
  The invariant of the scheduler thread. Next to the invariant of the scheduler it says how the
  engine's own lists fit the arena: every job that holds capacity is bound to exactly one slot or
  held for its worker, the slots' books balance, every ended job is on the list of jobs to forget,
  and the journal's batches decode.
\<close>

section \<open>The invariant\<close>

definition binds :: "(job_id \<Rightarrow> resources option) \<Rightarrow> running_job list \<Rightarrow> job_id list \<Rightarrow> bool \<Rightarrow> bool" where
  "binds H running held q \<longleftrightarrow> distinct (map run_job running @ held)
     \<and> (\<forall>r\<in>set running. H (run_job r) = Some (run_resources r)) \<and> (\<forall>i\<in>set held. H i \<noteq> None)
     \<and> (q \<or> dom H \<subseteq> run_job ` set running \<union> set held)"

definition term_ok :: "job arena \<Rightarrow> (virtual_time \<times> job_id) list \<Rightarrow> bool" where
  "term_ok jobs ts \<longleftrightarrow> ended jobs = {i \<in> snd ` set ts. arena_get jobs i \<noteq> None} \<and> (\<forall>i\<in>snd ` set ts. issued jobs i)"

definition data_ok :: "job arena \<Rightarrow> bool" where
  "data_ok jobs \<longleftrightarrow> (\<forall>i j. arena_get jobs i = Some j \<longrightarrow> request j \<noteq> ZERO \<and> job_fits j)"

definition commit_ok :: "(u8 list \<Rightarrow> u32) \<Rightarrow> commit \<Rightarrow> bool" where
  "commit_ok hash c \<longleftrightarrow> (\<exists>b. commit_holds hash c b)"

definition journal_ok :: "(u8 list \<Rightarrow> u32) \<Rightarrow> journal option \<Rightarrow> bool" where
  "journal_ok hash J \<longleftrightarrow>
     (\<forall>jn. J = Some jn \<longrightarrow> commit_ok hash (jn_pending jn) \<and> (\<forall>c\<in>set (ch_queue (jn_tx jn)). commit_ok hash c))"

definition engine_core :: "'q libs \<Rightarrow> engine \<Rightarrow> bool" where
  "engine_core L e \<longleftrightarrow> sched_inv (en_scheduler e) (en_jobs e) \<and> books (en_inventory e) (en_running e)
     \<and> names_ok (en_inventory e) (en_running e) (en_names e) \<and> length (inv_slots (en_inventory e)) < 2 ^ 32
     \<and> (\<forall>i\<in>set (en_reconciling e). in_state (en_jobs e) i Running)
     \<and> term_ok (en_jobs e) (en_terminal e) \<and> data_ok (en_jobs e)
     \<and> en_worker_cpu e \<noteq> 0 \<and> en_min_workers e \<le> en_max_workers e \<and> journal_ok (crc32 L) (en_journal e)"

definition engine_inv :: "'q libs \<Rightarrow> engine \<Rightarrow> bool" where
  "engine_inv L e \<longleftrightarrow> engine_core L e
     \<and> binds (held_req (en_jobs e)) (en_running e) (en_reconciling e) (en_quiescing e)"

text \<open>In the middle of a handler, job \<open>i\<close> holds its capacity and is off the engine's lists.\<close>

definition detached :: "'q libs \<Rightarrow> engine \<Rightarrow> job_id \<Rightarrow> bool" where
  "detached L e i \<longleftrightarrow> engine_core L e \<and> held_req (en_jobs e) i \<noteq> None
     \<and> binds ((held_req (en_jobs e))(i := None)) (en_running e) (en_reconciling e) (en_quiescing e)"

lemma engine_core_indep [simp]:
  "engine_core L (e\<lparr>en_overflow := x\<rparr>) = engine_core L e" "engine_core L (e\<lparr>en_cycles := n\<rparr>) = engine_core L e"
  "engine_core L (e\<lparr>en_demand := d\<rparr>) = engine_core L e" "engine_core L (e\<lparr>en_account_metrics_at := t\<rparr>) = engine_core L e"
  "engine_core L (e\<lparr>en_reconcile_until := u\<rparr>) = engine_core L e" "engine_core L (e\<lparr>en_quiescing := q\<rparr>) = engine_core L e"
  by (simp_all add: engine_core_def)

lemma engine_inv_indep [simp]:
  "engine_inv L (e\<lparr>en_overflow := x\<rparr>) = engine_inv L e" "engine_inv L (e\<lparr>en_cycles := n\<rparr>) = engine_inv L e"
  "engine_inv L (e\<lparr>en_demand := d\<rparr>) = engine_inv L e" "engine_inv L (e\<lparr>en_account_metrics_at := t\<rparr>) = engine_inv L e"
  "engine_inv L (e\<lparr>en_reconcile_until := u\<rparr>) = engine_inv L e"
  by (simp_all add: engine_inv_def)

section \<open>Lists\<close>

lemma binds_mset:
  assumes "mset running = mset running'" and "mset held = mset held'"
  shows "binds H running held q = binds H running' held' q"
proof -
  have "mset (map run_job running @ held) = mset (map run_job running' @ held')" using assms by simp
  then have "distinct (map run_job running @ held) = distinct (map run_job running' @ held')" by (rule mset_eq_imp_distinct_iff)
  then show ?thesis using assms mset_eq_setD [OF assms(1)] mset_eq_setD [OF assms(2)] by (simp add: binds_def)
qed

lemma binds_drop_running: "binds H (r # running) held q \<Longrightarrow> binds (H(run_job r := None)) running held q"
  unfolding binds_def by (auto simp: image_iff)

lemma binds_drop_held: "binds H running (i # held) q \<Longrightarrow> binds (H(i := None)) running held q"
  by (auto simp: binds_def)

lemma binds_add_running:
  "binds (H(run_job r := None)) running held q \<Longrightarrow> H (run_job r) = Some (run_resources r) \<Longrightarrow> binds H (r # running) held q"
  by (auto simp: binds_def split: if_splits)

lemma binds_forget: "binds (H(i := None)) running held q \<Longrightarrow> H i = None \<Longrightarrow> binds H running held q"
  by (simp add: fun_upd_idem)

lemma position_swap:
  assumes "position p xs = Some k"
  shows "\<exists>x ys. swap_remove xs k = Some (x, ys) \<and> vec_index xs k = Some x \<and> k < length xs \<and> p x
     \<and> mset xs = add_mset x (mset ys)"
proof -
  from assms have k: "k < length xs \<and> p (xs ! k)"
    by (induction xs arbitrary: k) (auto split: if_splits simp: less_Suc_eq_0_disj)
  then obtain ys where ys: "swap_remove xs k = Some (xs ! k, ys)" by (simp add: swap_remove_def)
  with k swap_remove_mset [OF ys] show ?thesis by (simp add: vec_index_def)
qed

lemma position_None: "position p xs = None \<longleftrightarrow> (\<forall>x\<in>set xs. \<not> p x)"
  by (induction xs) auto

lemma names_shrink:
  assumes "names_ok iv running names" and "set running' \<subseteq> set running" and "length (inv_slots iv') = length (inv_slots iv)"
    and "\<forall>k < length (inv_slots iv). capacity (inv_slots iv' ! k) = capacity (inv_slots iv ! k)"
  shows "names_ok iv' running' names"
proof -
  have "unat (run_slot r) \<noteq> k" if "r \<in> set running'" "k < length names" "names ! k = None" for r k
    using assms(1,2) that by (metis names_ok_def subsetD)
  then show ?thesis using assms(1,3,4) by (simp add: names_ok_def)
qed

lemma engine_core_lists:
  assumes "engine_core L e" and "books iv running" and "names_ok iv running (en_names e)"
    and "length (inv_slots iv) < 2 ^ 32" and "set held \<subseteq> set (en_reconciling e)"
  shows "engine_core L (e\<lparr>en_inventory := iv, en_running := running, en_reconciling := held\<rparr>)"
  using assms by (auto simp: engine_core_def)

text \<open>Taking a job off the running list returns its capacity.\<close>

lemma engine_release_unbound: "i \<notin> run_job ` set (en_running e) \<Longrightarrow> engine_release e i = Some (e, None)"
  using position_None [of "\<lambda>r. run_job r = i" "en_running e"] by (auto simp: engine_release_def)

lemma engine_release_bound:
  assumes inv: "engine_inv L e" and bound: "i \<in> run_job ` set (en_running e)"
  shows "\<exists>slot iv running. engine_release e i = Some (e\<lparr>en_inventory := iv, en_running := running\<rparr>, Some slot)
     \<and> detached L (e\<lparr>en_inventory := iv, en_running := running\<rparr>) i \<and> i \<notin> set (en_reconciling e)"
proof -
  from bound obtain pos where Some: "position (\<lambda>r. run_job r = i) (en_running e) = Some pos"
    using position_None [of "\<lambda>r. run_job r = i" "en_running e"] by (cases "position (\<lambda>r. run_job r = i) (en_running e)") auto
  note I = inv [unfolded engine_inv_def engine_core_def]
  from position_swap [OF Some] obtain r running where
    r: "swap_remove (en_running e) pos = Some (r, running)" "run_job r = i" "mset (en_running e) = mset (r # running)" by auto
  have b: "books (en_inventory e) (r # running)" using I books_mset [OF r(3)] by blast
  from books_release [OF b] obtain iv where
    iv: "release (en_inventory e) (run_slot r) (run_resources r) = Inr iv" "books iv running"
      "length (inv_slots iv) = length (inv_slots (en_inventory e))"
      "\<forall>k < length (inv_slots (en_inventory e)). capacity (inv_slots iv ! k) = capacity (inv_slots (en_inventory e) ! k)"
    by blast
  have sub: "set running \<subseteq> set (en_running e)" using mset_eq_setD [OF r(3)] by auto
  have bi: "binds (held_req (en_jobs e)) (r # running) (en_reconciling e) (en_quiescing e)"
    using I binds_mset [OF r(3) refl] by blast
  let ?e = "e\<lparr>en_inventory := iv, en_running := running\<rparr>"
  have "engine_core L (e\<lparr>en_inventory := iv, en_running := running, en_reconciling := en_reconciling e\<rparr>)"
    by (rule engine_core_lists) (use inv I iv names_shrink [OF _ sub iv(3,4)] in \<open>auto simp: engine_inv_def\<close>)
  then have "engine_core L ?e" by simp
  moreover have "held_req (en_jobs e) i = Some (run_resources r)" using bi r(2) by (simp add: binds_def)
  moreover have "i \<notin> set (en_reconciling e)" using bi r(2) by (auto simp: binds_def)
  ultimately have "detached L ?e i" using binds_drop_running [OF bi] r(2) by (simp add: detached_def)
  moreover have "engine_release e i = Some (?e, Some (run_slot r))"
    by (simp add: engine_release_def Some r(1) inventory_or_keep_def iv(1))
  ultimately show ?thesis using \<open>i \<notin> set (en_reconciling e)\<close> by blast
qed

lemma unhold_absent: "i \<notin> set (en_reconciling e) \<Longrightarrow> unhold e i = Some (e, False)"
  using position_None [of "\<lambda>r. r = i" "en_reconciling e"] by (auto simp: unhold_def)

lemma unhold_held:
  assumes inv: "engine_inv L e" and bound: "i \<in> set (en_reconciling e)"
  shows "\<exists>held. unhold e i = Some (e\<lparr>en_reconciling := held\<rparr>, True) \<and> detached L (e\<lparr>en_reconciling := held\<rparr>) i
     \<and> in_state (en_jobs e) i Running"
proof -
  from bound obtain pos where Some: "position (\<lambda>r. r = i) (en_reconciling e) = Some pos"
    using position_None [of "\<lambda>r. r = i" "en_reconciling e"] by (cases "position (\<lambda>r. r = i) (en_reconciling e)") auto
  note I = inv [unfolded engine_inv_def engine_core_def]
  from position_swap [OF Some] obtain held where
    r: "swap_remove (en_reconciling e) pos = Some (i, held)" "mset (en_reconciling e) = mset (i # held)" by auto
  have sub: "set held \<subseteq> set (en_reconciling e)" using mset_eq_setD [OF r(2)] by auto
  have bi: "binds (held_req (en_jobs e)) (en_running e) (i # held) (en_quiescing e)"
    using I binds_mset [OF refl r(2)] by blast
  let ?e = "e\<lparr>en_reconciling := held\<rparr>"
  have "engine_core L (e\<lparr>en_inventory := en_inventory e, en_running := en_running e, en_reconciling := held\<rparr>)"
    by (rule engine_core_lists) (use inv I sub in \<open>auto simp: engine_inv_def\<close>)
  then have "engine_core L ?e" by simp
  moreover have "held_req (en_jobs e) i \<noteq> None" using bi by (simp add: binds_def)
  ultimately have "detached L ?e i" using binds_drop_held [OF bi] by (simp add: detached_def)
  moreover have "in_state (en_jobs e) i Running" using I bound by blast
  moreover have "unhold e i = Some (?e, True)" by (simp add: unhold_def Some r(1))
  ultimately show ?thesis by blast
qed

text \<open>The engine apart from its lists of bound jobs.\<close>

definition same_but_lists :: "engine \<Rightarrow> engine \<Rightarrow> bool" where
  "same_but_lists e e' \<longleftrightarrow> (\<exists>iv running held. e' = e\<lparr>en_inventory := iv, en_running := running, en_reconciling := held\<rparr>)"

lemma release_or_unhold_spec:
  assumes inv: "engine_inv L e"
  shows "release_or_unhold e i = Some (e, False)
     \<or> (\<exists>e'. release_or_unhold e i = Some (e', True) \<and> detached L e' i \<and> same_but_lists e e')"
proof (cases "i \<in> run_job ` set (en_running e)")
  case True
  from engine_release_bound [OF inv True] obtain slot iv running where
    r: "engine_release e i = Some (e\<lparr>en_inventory := iv, en_running := running\<rparr>, Some slot)"
      "detached L (e\<lparr>en_inventory := iv, en_running := running\<rparr>) i" by blast
  have "e\<lparr>en_inventory := iv, en_running := running\<rparr>
      = e\<lparr>en_inventory := iv, en_running := running, en_reconciling := en_reconciling e\<rparr>" by simp
  then have "same_but_lists e (e\<lparr>en_inventory := iv, en_running := running\<rparr>)" unfolding same_but_lists_def by blast
  with r show ?thesis by (simp add: release_or_unhold_def)
next
  case False
  note r = engine_release_unbound [OF False]
  show ?thesis
  proof (cases "i \<in> set (en_reconciling e)")
    case True
    from unhold_held [OF inv True] obtain held where
      h: "unhold e i = Some (e\<lparr>en_reconciling := held\<rparr>, True)" "detached L (e\<lparr>en_reconciling := held\<rparr>) i" by blast
    have "e\<lparr>en_reconciling := held\<rparr>
        = e\<lparr>en_inventory := en_inventory e, en_running := en_running e, en_reconciling := held\<rparr>" by simp
    then have "same_but_lists e (e\<lparr>en_reconciling := held\<rparr>)" unfolding same_but_lists_def by blast
    with r h show ?thesis by (simp add: release_or_unhold_def)
  next
    case False
    with r show ?thesis by (simp add: release_or_unhold_def unhold_absent)
  qed
qed

section \<open>The journal\<close>

lemma encodable_event [simp]:
  "encodable (R_Dispatched i t)" "encodable (R_Completed i t)" "encodable (R_Failed i t)" "encodable (R_Cancelled i t)"
  "encodable (R_Requeued i t)" "encodable (R_Preempted i t)" "encodable (R_Forgotten i)"
  by (simp_all add: encodable_def record_wire_def put_event_def put_u8_def put_u64_def)

lemma journal_record_ok:
  assumes "journal_ok hash (Some jn)" and "encodable r"
  shows "\<exists>jn'. journal_record hash jn r = Some jn' \<and> journal_ok hash (Some jn')"
proof -
  from assms(1) obtain rs1 sn rs2 where b: "journal_holds hash jn (rs1, sn, rs2)"
    by (auto simp: journal_ok_def commit_ok_def)
  obtain jn' where jn': "journal_record hash jn r = Some jn'"
    using assms(2) by (simp add: journal_record_def encode_frame)
  have "jn_tx jn' = jn_tx jn"
    using jn' by (auto simp: journal_record_def grew_def set_frames_def Let_def bind_eq_Some_conv)
  with journal_record_holds [OF b jn'] assms(1) jn' show ?thesis by (auto simp: journal_ok_def commit_ok_def)
qed

lemma engine_record_ok:
  assumes "journal_ok (crc32 L) (en_journal e)" and "encodable r"
  shows "\<exists>J. engine_record L e r = Some (e\<lparr>en_journal := J\<rparr>) \<and> journal_ok (crc32 L) J"
proof (cases "en_journal e")
  case None
  then have "e\<lparr>en_journal := None\<rparr> = e" by (cases e) simp
  with None show ?thesis by (auto simp: engine_record_def journal_ok_def intro!: exI [of _ None])
next
  case (Some jn)
  from journal_record_ok [of "crc32 L" jn r] assms Some show ?thesis by (auto simp: engine_record_def)
qed

lemma journal_ok_pending [simp]:
  "journal_ok hash (Some (defer_ack jn a)) = journal_ok hash (Some jn)"
  "journal_ok hash (Some (hold jn d)) = journal_ok hash (Some jn)"
proof -
  have "jn_tx (defer_ack jn a) = jn_tx jn" "jn_tx (hold jn d) = jn_tx jn" by (simp_all add: defer_ack_def hold_def)
  then show "journal_ok hash (Some (defer_ack jn a)) = journal_ok hash (Some jn)"
    "journal_ok hash (Some (hold jn d)) = journal_ok hash (Some jn)"
    by (simp_all add: journal_ok_def commit_ok_def)
qed

lemma engine_inv_journal: "engine_inv L e \<Longrightarrow> journal_ok (crc32 L) J \<Longrightarrow> engine_inv L (e\<lparr>en_journal := J\<rparr>)"
  by (simp add: engine_inv_def engine_core_def)

lemma engine_inv_journal_ok: "engine_inv L e \<Longrightarrow> journal_ok (crc32 L) (en_journal e)"
  by (simp add: engine_inv_def engine_core_def)

lemma reply_durably_inv: "engine_inv L e \<Longrightarrow> engine_inv L (fst (reply_durably e w r a))"
  using engine_inv_journal_ok [of L e] engine_inv_journal [of L e] by (cases "en_journal e") (simp_all add: reply_durably_def)

lemma push_dispatch_inv: "engine_inv L (fst (push_dispatch M e w d)) = engine_inv L e"
  by (simp add: push_dispatch_def split: prod.splits sum.splits)

lemma dispatch_durably_inv: "engine_inv L e \<Longrightarrow> engine_inv L (fst (dispatch_durably M e w d))"
  using engine_inv_journal_ok [of L e] engine_inv_journal [of L e]
  by (cases "en_journal e") (simp_all add: dispatch_durably_def push_dispatch_inv)

section \<open>Ended jobs\<close>

lemma note_terminal_eq: "note_terminal e i at = e\<lparr>en_terminal := en_terminal e @ map (Pair at) [i]\<rparr>"
  by (simp add: note_terminal_def)

lemma note_all_eq: "note_all e is at = e\<lparr>en_terminal := en_terminal e @ map (Pair at) is\<rparr>"
proof (induction "is" arbitrary: e)
  case Nil
  show ?case by (cases e) (simp add: note_all_def)
next
  case (Cons i "is")
  from Cons [of "note_terminal e i at"] show ?case by (simp add: note_all_def note_terminal_def)
qed

lemma term_ok_frees:
  assumes "term_ok jobs ts" and "frees i S jobs jobs'" and "set ids = S"
  shows "term_ok jobs' (ts @ map (Pair at) ids)"
proof -
  have s: "same_jobs jobs jobs'" "ended jobs' = ended jobs \<union> S" using assms(2) by (auto simp: frees_def)
  have i: "issued jobs' x = issued jobs x" for x
    by (rule shape_issued) (use s(1) in \<open>simp add: same_jobs_def\<close>)
  have "S \<subseteq> ended jobs'" using s(2) by simp
  then have live: "arena_get jobs' x \<noteq> None" "issued jobs x" if "x \<in> S" for x
    using that live_issued [of jobs' x] i by (auto simp: ended_def)
  have snd: "snd ` set (ts @ map (Pair at) ids) = snd ` set ts \<union> S" using assms(3) by (force simp: image_Un)
  show ?thesis
    unfolding term_ok_def snd using assms(1) live s(2)
    by (auto simp: term_ok_def i same_jobs_live [OF s(1)])
qed

lemma data_ok_same: "data_ok jobs \<Longrightarrow> same_jobs jobs jobs' \<Longrightarrow> data_ok jobs'"
  unfolding data_ok_def
  by (metis same_jobs_get fixed_part_eqD(1,2,3) job_fits_def)

text \<open>
  The end of a handler that took job \<open>i\<close> off the lists, if it was there: a call frees what it held
  and ends the jobs of \<open>S\<close>, a record is written and the ended jobs are noted.
\<close>

definition unlisted :: "'q libs \<Rightarrow> engine \<Rightarrow> job_id \<Rightarrow> bool" where
  "unlisted L e i \<longleftrightarrow> engine_core L e
     \<and> binds ((held_req (en_jobs e))(i := None)) (en_running e) (en_reconciling e) (en_quiescing e)"

lemma detached_unlisted: "detached L e i \<Longrightarrow> unlisted L e i"
  by (simp add: detached_def unlisted_def)

lemma engine_inv_unlisted:
  "engine_inv L e \<Longrightarrow> i \<notin> run_job ` set (en_running e) \<Longrightarrow> i \<notin> set (en_reconciling e) \<Longrightarrow> unlisted L e i"
  by (auto simp: engine_inv_def unlisted_def binds_def)

lemma unlisted_inv: "unlisted L e i \<Longrightarrow> held_req (en_jobs e) i = None \<Longrightarrow> engine_inv L e"
  by (simp add: unlisted_def engine_inv_def fun_upd_idem)

lemma unlisted_sched: "unlisted L e i \<Longrightarrow> sched_inv (en_scheduler e) (en_jobs e)"
  by (simp add: unlisted_def engine_core_def)

lemma unlisted_frees:
  assumes d: "unlisted L e i" and s: "sched_inv s' jobs'" and f: "frees i S (en_jobs e) jobs'" and ids: "set ids = S"
    and J: "journal_ok (crc32 L) J"
  shows "engine_inv L (e\<lparr>en_scheduler := s', en_jobs := jobs', en_journal := J, en_terminal := en_terminal e @ map (Pair at) ids\<rparr>)"
proof -
  have D: "engine_core L e" "binds ((held_req (en_jobs e))(i := None)) (en_running e) (en_reconciling e) (en_quiescing e)"
    using d by (auto simp: unlisted_def)
  have F: "same_jobs (en_jobs e) jobs'" "held_req jobs' = (held_req (en_jobs e))(i := None)"
    "\<forall>x. x \<noteq> i \<longrightarrow> in_state (en_jobs e) x Running \<longrightarrow> in_state jobs' x Running" using f by (auto simp: frees_def)
  have "i \<notin> set (en_reconciling e)" using D(2) by (auto simp: binds_def)
  with D(1) F(3) have "\<forall>x\<in>set (en_reconciling e). in_state jobs' x Running" by (auto simp: engine_core_def)
  with D F s J term_ok_frees [OF _ f ids, of "en_terminal e" at] data_ok_same [OF _ F(1)] show ?thesis
    by (simp add: engine_inv_def engine_core_def)
qed

lemma unlisted_record:
  assumes d: "unlisted L e i" and s: "sched_inv s' jobs'" and f: "frees i S (en_jobs e) jobs'" and ids: "set ids = S"
    and r: "encodable r"
  shows "\<exists>e'. engine_record L (e\<lparr>en_scheduler := s', en_jobs := jobs'\<rparr>) r = Some e' \<and> engine_inv L (note_all e' ids at)"
proof -
  let ?e = "e\<lparr>en_scheduler := s', en_jobs := jobs'\<rparr>"
  have "journal_ok (crc32 L) (en_journal ?e)" using d by (simp add: unlisted_def engine_core_def)
  from engine_record_ok [OF this r] obtain J where
    J: "engine_record L ?e r = Some (?e\<lparr>en_journal := J\<rparr>)" "journal_ok (crc32 L) J" by blast
  from unlisted_frees [OF d s f ids J(2), of at] have "engine_inv L (note_all (?e\<lparr>en_journal := J\<rparr>) ids at)"
    by (simp add: note_all_eq)
  with J(1) show ?thesis by blast
qed

lemma note_all_Nil [simp]: "note_all e [] at = e"
  by (simp add: note_all_def)

lemma note_all_Cons: "note_all (note_terminal e i at) is at = note_all e (i # is) at"
  by (simp add: note_all_def)

end
