(* ===== verification/Engine_Commands.thy ===== *)
theory Engine_Commands
  imports Engine_Inv
begin

text \<open>
  Every command the scheduler thread handles succeeds in a state that satisfies the invariant and
  leaves such a state.
\<close>

section \<open>Worker reports\<close>

lemma detachedD:
  assumes "detached L e i"
  shows "unlisted L e i" and "sched_inv (en_scheduler e) (en_jobs e)" and "held_req (en_jobs e) i \<noteq> None"
  using assms by (simp_all add: detached_def detached_unlisted engine_core_def)

lemma on_completed_report_inv:
  assumes inv: "engine_inv L e"
  shows "\<exists>e'. on_completed_report L e i now = Some e' \<and> engine_inv L e'"
proof (cases "release_or_unhold e i = Some (e, False)")
  case True
  with inv show ?thesis by (simp add: on_completed_report_def)
next
  case False
  with release_or_unhold_spec [OF inv, of i] obtain e1 where
    e1: "release_or_unhold e i = Some (e1, True)" "detached L e1 i" by auto
  note D = detachedD [OF e1(2)]
  from completed_effect [OF D(2,3), of now "en_cycle e1"] obtain s' jobs' out where
    c: "sched_on_completed (en_scheduler e1) i (en_jobs e1) now (en_cycle e1) = Some (s', jobs', Inr out)" "sched_inv s' jobs'"
      "frees i {i} (en_jobs e1) jobs'" by blast
  from unlisted_record [OF D(1) c(2,3), of "[i]" "R_Completed i now" now] e1(1) c(1) show ?thesis
    by (auto simp: on_completed_report_def with_sched_def note_all_Cons [of _ _ _ "[]", simplified, symmetric])
qed

lemma on_failed_report_inv:
  assumes inv: "engine_inv L e"
  shows "\<exists>e'. on_failed_report L e i now = Some e' \<and> engine_inv L e'"
proof (cases "release_or_unhold e i = Some (e, False)")
  case True
  with inv show ?thesis by (simp add: on_failed_report_def)
next
  case False
  with release_or_unhold_spec [OF inv, of i] obtain e1 where
    e1: "release_or_unhold e i = Some (e1, True)" "detached L e1 i" by auto
  note D = detachedD [OF e1(2)]
  from failed_effect [OF D(2,3), of now "en_cycle e1"] obtain s' jobs' out where
    c: "on_failed (en_scheduler e1) i (en_jobs e1) now (en_cycle e1) = Some (s', jobs', Inr out)" "sched_inv s' jobs'"
      "frees i (insert i (set out)) (en_jobs e1) jobs'" by blast
  from unlisted_record [OF D(1) c(2,3), of "i # out" "R_Failed i now" now] e1(1) c(1) show ?thesis
    by (auto simp: on_failed_report_def with_sched_def note_all_Cons)
qed

text \<open>A report that a worker stopped a job must be about a job that is being evicted.\<close>

lemma on_preempted_report_inv:
  assumes inv: "engine_inv L e" and evicted: "\<not> in_state (en_jobs e) i Running"
  shows "\<exists>e'. on_preempted_report L e i now = Some e' \<and> engine_inv L e'"
proof (cases "release_or_unhold e i = Some (e, False)")
  case True
  with inv show ?thesis by (simp add: on_preempted_report_def)
next
  case False
  with release_or_unhold_spec [OF inv, of i] obtain e1 where
    e1: "release_or_unhold e i = Some (e1, True)" "detached L e1 i" "same_but_lists e e1" by auto
  note D = detachedD [OF e1(2)]
  have "en_jobs e1 = en_jobs e" using e1(3) by (auto simp: same_but_lists_def)
  with D(3) evicted have p: "in_state (en_jobs e1) i Preempted"
    using held_reqD [of "en_jobs e1" i] by (auto simp: in_state_def)
  from on_preempted_effect [OF D(2,3), of now "en_cycle e1"] p obtain s' jobs' where
    c: "on_preempted (en_scheduler e1) i (en_jobs e1) now (en_cycle e1) = Some (s', jobs', Inr ())" "sched_inv s' jobs'"
      "frees i {} (en_jobs e1) jobs'" by auto
  from unlisted_record [OF D(1) c(2,3), of "[]" "R_Requeued i now" now] e1(1) c(1) show ?thesis
    by (auto simp: on_preempted_report_def with_sched_def)
qed

section \<open>Clients\<close>

lemma cancel_detach:
  assumes inv: "engine_inv L e"
  shows "\<exists>e1 e2 slot b. engine_release e i = Some (e1, slot) \<and> unhold e1 i = Some (e2, b) \<and> unlisted L e2 i"
proof (cases "i \<in> run_job ` set (en_running e)")
  case True
  from engine_release_bound [OF inv True] obtain slot iv running where
    r: "engine_release e i = Some (e\<lparr>en_inventory := iv, en_running := running\<rparr>, Some slot)"
      "detached L (e\<lparr>en_inventory := iv, en_running := running\<rparr>) i" "i \<notin> set (en_reconciling e)" by blast
  then have "unhold (e\<lparr>en_inventory := iv, en_running := running\<rparr>) i = Some (e\<lparr>en_inventory := iv, en_running := running\<rparr>, False)"
    by (intro unhold_absent) simp
  with r detached_unlisted show ?thesis by blast
next
  case False
  note r = engine_release_unbound [OF False]
  show ?thesis
  proof (cases "i \<in> set (en_reconciling e)")
    case True
    from unhold_held [OF inv True] r detached_unlisted show ?thesis by blast
  next
    case unheld: False
    from r unhold_absent [OF unheld] engine_inv_unlisted [OF inv False unheld] show ?thesis by blast
  qed
qed

lemma on_cancel_inv:
  assumes inv: "engine_inv L e"
  shows "\<exists>e' w'. on_cancel L e w i rp now = Some (e', w') \<and> engine_inv L e'"
proof -
  from cancel_detach [OF inv, of i] obtain e1 e2 slot b where
    d: "engine_release e i = Some (e1, slot)" "unhold e1 i = Some (e2, b)" "unlisted L e2 i" by blast
  note s = unlisted_sched [OF d(3)]
  show ?thesis
  proof (cases "\<exists>j. arena_get (en_jobs e2) i = Some j \<and> \<not> is_terminal (state j)")
    case True
    then obtain j where j: "arena_get (en_jobs e2) i = Some j" "\<not> is_terminal (state j)" by blast
    from cancel_effect [OF s j, of now "en_cycle e2"] obtain s' jobs' out where
      c: "cancel (en_scheduler e2) i (en_jobs e2) now (en_cycle e2) = Some (s', jobs', Inr out)" "sched_inv s' jobs'"
        "frees i (insert i (set out)) (en_jobs e2) jobs'" by blast
    from unlisted_record [OF d(3) c(2,3), of "i # out" "R_Cancelled i now" now] obtain e3 where
      e3: "engine_record L (e2\<lparr>en_scheduler := s', en_jobs := jobs'\<rparr>) (R_Cancelled i now) = Some e3"
        "engine_inv L (note_all e3 (i # out) now)" by auto
    define ew where "ew = (case slot of Some sl \<Rightarrow> push_dispatch L (note_all e3 (i # out) now) w (Kill sl i)
        | None \<Rightarrow> (note_all e3 (i # out) now, w))"
    have "engine_inv L (fst ew)" using e3(2) by (cases slot) (simp_all add: ew_def push_dispatch_inv)
    from reply_durably_inv [OF this, of "snd ew" rp "Ans_Cancel (Inr out)"]
    show ?thesis
      using d(1,2) c(1) e3(1)
      by (cases "reply_durably (fst ew) (snd ew) rp (Ans_Cancel (Inr out))")
        (auto simp: on_cancel_def with_sched_def note_all_Cons ew_def split: option.splits prod.splits)
  next
    case False
    then have n: "held_req (en_jobs e2) i = None" by (auto simp: held_req_def split: option.splits)
    from False obtain err where "cancel (en_scheduler e2) i (en_jobs e2) now (en_cycle e2) = Some (en_scheduler e2, en_jobs e2, Inl err)"
      using lifecycle_errors(3) [OF s, of i] lifecycle_errors(6) [OF s, of i] by (cases "arena_get (en_jobs e2) i") auto
    moreover have "e2\<lparr>en_scheduler := en_scheduler e2, en_jobs := en_jobs e2\<rparr> = e2" by simp
    ultimately show ?thesis
      using d(1,2) reply_durably_inv [OF unlisted_inv [OF d(3) n], of w rp "Ans_Cancel (Inl err)"]
      by (cases "reply_durably e2 w rp (Ans_Cancel (Inl err))") (auto simp: on_cancel_def with_sched_def)
  qed
qed

text \<open>
  A job as the control service builds it: new, asking for something, encodable, and with room left
  in the arena.
\<close>

definition submittable :: "engine \<Rightarrow> job \<Rightarrow> bool" where
  "submittable e j \<longleftrightarrow> state j = Submitted \<and> request j \<noteq> ZERO \<and> encodable (R_Submitted 0 j)
     \<and> (arena_free_head (en_jobs e) = None \<longrightarrow> length (arena_slots (en_jobs e)) + 1 < 2 ^ 32 - 1)"

lemma encodable_submitted: "encodable (R_Submitted i j) \<longleftrightarrow> encodable (R_Submitted k j)"
  by (auto simp: encodable_def record_wire_def put_job_wire put_u8_def put_u64_def)

lemma submit_effect:
  assumes inv: "sched_inv s jobs" and ins: "arena_insert jobs j = Some (jobs1, i)" and new: "state j = Submitted"
    and chk: "check_submit s i j jobs = Inr rd" and n: "length (deps j) < 2 ^ 32"
    and len: "length (arena_slots jobs1) < 2 ^ 32 - 1"
  shows "\<exists>s' jobs'. submit s i jobs1 now config = Some (s', jobs', Inr (readiness_state rd)) \<and> sched_inv s' jobs'
     \<and> arena_get jobs' = (arena_get jobs)(i \<mapsto> j\<lparr>state := readiness_state rd\<rparr>) \<and> arena_get jobs i = None
     \<and> \<not> issued jobs i \<and> issued jobs' i \<and> (\<forall>x. issued jobs x \<longrightarrow> issued jobs' x)"
proof -
  note wf = jobs_okD(1) [OF sched_invD(1) [OF inv]]
  note g = arena_insert_get [OF wf ins]
  from submit_spec [OF inv ins new chk n len, of now config] obtain s' where
    c: "submit s i jobs1 now config = Some (s', arena_put jobs1 i (j\<lparr>state := readiness_state rd\<rparr>), Inr (readiness_state rd))"
      "sched_inv s' (arena_put jobs1 i (j\<lparr>state := readiness_state rd\<rparr>))" by blast
  have "arena_get jobs1 i = Some j" by (simp add: g(2))
  then have p: "arena_get (arena_put jobs1 i (j\<lparr>state := readiness_state rd\<rparr>)) = (arena_get jobs)(i \<mapsto> j\<lparr>state := readiness_state rd\<rparr>)"
    by (simp add: arena_put_get g(2))
  with c g(1) insert_not_issued [OF ins] issued_insert [OF ins] live_issued [of "arena_put jobs1 i (j\<lparr>state := readiness_state rd\<rparr>)" i]
  show ?thesis by (auto simp: issued_put)
qed

lemma insert_length:
  assumes "arena_insert jobs j = Some (jobs1, i)"
  shows "length (arena_slots jobs1) = (if arena_free_head jobs = None then length (arena_slots jobs) + 1 else length (arena_slots jobs))"
  using assms by (cases rule: arena_insert_cases) auto

lemma readiness_not_held [simp]: "readiness_state rd \<noteq> Running" "readiness_state rd \<noteq> Preempted"
  by (cases rd; simp)+

lemma engine_inv_insert:
  assumes inv: "engine_inv L e" and s: "sched_inv s' jobs'" and st: "st \<noteq> Running" "st \<noteq> Preempted"
    and get: "arena_get jobs' = (arena_get (en_jobs e))(i \<mapsto> j\<lparr>state := st\<rparr>)" "arena_get (en_jobs e) i = None"
    and iss: "\<not> issued (en_jobs e) i" "issued jobs' i" "\<forall>x. issued (en_jobs e) x \<longrightarrow> issued jobs' x"
    and j: "request j \<noteq> ZERO" "job_fits j" and J: "journal_ok (crc32 L) J"
  shows "engine_inv L (e\<lparr>en_scheduler := s', en_jobs := jobs', en_journal := J,
     en_terminal := en_terminal e @ map (Pair at) (if is_terminal st then [i] else [])\<rparr>)"
proof -
  note I = inv [unfolded engine_inv_def engine_core_def]
  have h: "held_req jobs' = held_req (en_jobs e)" using st get(2) by (auto simp: held_req_def get(1))
  have t: "term_ok (en_jobs e) (en_terminal e)" "data_ok (en_jobs e)" using I by auto
  have e: "ended jobs' = (if is_terminal st then insert i (ended (en_jobs e)) else ended (en_jobs e))"
    using get(2) by (auto simp: ended_def get(1))
  have ni: "i \<notin> snd ` set (en_terminal e)" using t(1) iss(1) by (auto simp: term_ok_def)
  let ?ts = "en_terminal e @ map (Pair at) (if is_terminal st then [i] else [])"
  have snd: "snd ` set ?ts = snd ` set (en_terminal e) \<union> (if is_terminal st then {i} else {})" by auto
  have "term_ok jobs' ?ts"
    unfolding term_ok_def snd e using t(1) iss ni by (auto simp: term_ok_def get(1))
  moreover have "data_ok jobs'" using t(2) j by (auto simp: data_ok_def get(1) job_fits_def)
  moreover have "\<forall>x\<in>set (en_reconciling e). in_state jobs' x Running"
    using I get(2) by (auto simp: in_state_def get(1))
  ultimately show ?thesis using I s J h by (simp add: engine_inv_def engine_core_def)
qed

lemma on_submit_inv:
  assumes inv: "engine_inv L e" and ok: "submittable e j"
  shows "\<exists>e' w'. on_submit L e w j rp now = Some (e', w') \<and> engine_inv L e'"
proof -
  note I = inv [unfolded engine_inv_def engine_core_def]
  have s: "sched_inv (en_scheduler e) (en_jobs e)" using I by blast
  note wf = jobs_okD(1) [OF sched_invD(1) [OF s]]
  have "arena_room (en_jobs e)" using ok by (auto simp: arena_room_def submittable_def)
  from arena_insert_succeeds [OF wf this] obtain jobs1 i where ins: "arena_insert (en_jobs e) j = Some (jobs1, i)" by blast
  note i = arena_insert_next_id [OF ins]
  have fits: "job_fits j" "encodable (R_Submitted i j)"
    using ok encodable_submitted [of i j 0] by (auto simp: submittable_def encodable_def)
  show ?thesis
  proof (cases "check_submit (en_scheduler e) i j (en_jobs e)")
    case (Inl err)
    with i inv show ?thesis by (simp add: on_submit_def)
  next
    case (Inr rd)
    have len: "length (arena_slots jobs1) < 2 ^ 32 - 1"
      using ok jobs_okD(2) [OF sched_invD(1) [OF s]] by (auto simp: insert_length [OF ins] submittable_def)
    have "state j = Submitted" "length (deps j) < 2 ^ 32" using ok fits by (auto simp: submittable_def job_fits_def)
    from submit_effect [OF s ins this(1) Inr this(2) len, of now "en_cycle e"] obtain s' jobs' where
      c: "submit (en_scheduler e) i jobs1 now (en_cycle e) = Some (s', jobs', Inr (readiness_state rd))" "sched_inv s' jobs'"
        "arena_get jobs' = (arena_get (en_jobs e))(i \<mapsto> j\<lparr>state := readiness_state rd\<rparr>)" "arena_get (en_jobs e) i = None"
        "\<not> issued (en_jobs e) i" "issued jobs' i" "\<forall>x. issued (en_jobs e) x \<longrightarrow> issued jobs' x" by blast
    have g: "arena_get jobs1 i = Some j" by (simp add: arena_insert_get [OF wf ins])
    have rec: "engine_record L (e\<lparr>en_jobs := jobs1\<rparr>) (R_Submitted i j)
        = (case (en_journal e, arena_get jobs1 i) of
             (Some jn, Some j) \<Rightarrow> do { jn \<leftarrow> record_submitted (crc32 L) jn i j; Some (e\<lparr>en_jobs := jobs1, en_journal := Some jn\<rparr>) }
           | _ \<Rightarrow> Some (e\<lparr>en_jobs := jobs1\<rparr>))"
      by (cases "en_journal e") (simp_all add: engine_record_def record_submitted_record g)
    from engine_record_ok [of L "e\<lparr>en_jobs := jobs1\<rparr>" "R_Submitted i j"] I fits(2) obtain J where
      J: "engine_record L (e\<lparr>en_jobs := jobs1\<rparr>) (R_Submitted i j) = Some (e\<lparr>en_jobs := jobs1, en_journal := J\<rparr>)"
        "journal_ok (crc32 L) J" by auto
    let ?st = "readiness_state rd"
    let ?e = "e\<lparr>en_journal := J, en_scheduler := s', en_jobs := jobs'\<rparr>"
    let ?e2 = "if is_terminal ?st then note_terminal ?e i now else ?e"
    have "?e2 = e\<lparr>en_scheduler := s', en_jobs := jobs', en_journal := J,
        en_terminal := en_terminal e @ map (Pair now) (if is_terminal ?st then [i] else [])\<rparr>"
      by (simp add: note_terminal_def)
    then have "engine_inv L ?e2"
      using engine_inv_insert [OF inv c(2) readiness_not_held c(3-7) _ fits(1) J(2), of now] ok
      by (simp add: submittable_def)
    from reply_durably_inv [OF this, of w rp "Ans_Submit (Inr (i, ?st))"] show ?thesis
      using i Inr ins rec [symmetric] J(1) c(1)
      by (cases "reply_durably ?e2 w rp (Ans_Submit (Inr (i, ?st)))") (auto simp: on_submit_def with_sched_def)
  qed
qed

section \<open>Workers joining and leaving\<close>

lemma requeue_logged_inv:
  assumes d: "detached L e i"
  shows "\<exists>e'. requeue_logged L e i now = Some e' \<and> engine_inv L e' \<and> en_names e' = en_names e"
proof -
  note D = detachedD [OF d]
  from requeue_effect [OF D(2,3), of now "en_cycle e"] obtain s' jobs' where
    c: "requeue (en_scheduler e) i (en_jobs e) now (en_cycle e) = Some (s', jobs', Inr ())" "sched_inv s' jobs'"
      "frees i {} (en_jobs e) jobs'" by blast
  from unlisted_record [OF D(1) c(2,3), of "[]" "R_Requeued i now"] obtain e' where
    e': "engine_record L (e\<lparr>en_scheduler := s', en_jobs := jobs'\<rparr>) (R_Requeued i now) = Some e'" "engine_inv L e'" by auto
  moreover have "en_names e' = en_names e"
    using e'(1) by (auto simp: engine_record_def bind_eq_Some_conv split: option.splits)
  ultimately show ?thesis using c(1) by (simp add: requeue_logged_def with_sched_def)
qed

definition slot_named :: "engine \<Rightarrow> slot_index \<Rightarrow> bool" where
  "slot_named e slot \<longleftrightarrow> unat slot < length (en_names e) \<and> en_names e ! unat slot \<noteq> None"

lemma names_allocate:
  assumes "names_ok iv running names" and "try_allocate iv slot res = Inr iv'"
    and "names ! unat slot \<noteq> None" and "run_slot r = slot"
  shows "names_ok iv' (r # running) names"
  using assms(2)
proof (rule try_allocate_Inr)
  fix n assume "unat slot < length (inv_slots iv)"
    "iv' = iv\<lparr>inv_slots := (inv_slots iv)[unat slot := (inv_slots iv ! unat slot)\<lparr>allocated := n\<rparr>]\<rparr>"
  with assms show ?thesis by (auto simp: names_ok_def nth_list_update)
qed

text \<open>A job off the lists is bound to the slot it is allocated on.\<close>

lemma detached_bind:
  assumes d: "detached L e i" and al: "try_allocate (en_inventory e) slot res = Inr iv"
    and res: "held_req (en_jobs e) i = Some res" and nm: "slot_named e slot"
    and r: "run_job r = i" "run_slot r = slot" "run_resources r = res" and m: "mset running' = mset (r # en_running e)"
  shows "engine_inv L (e\<lparr>en_inventory := iv, en_running := running'\<rparr>)"
proof -
  have D: "engine_core L e" "binds ((held_req (en_jobs e))(i := None)) (en_running e) (en_reconciling e) (en_quiescing e)"
    using d by (auto simp: detached_def)
  note C = D(1) [unfolded engine_core_def]
  have "books iv running'" using books_allocate [OF _ al r(2,3)] C books_mset [OF m] by blast
  moreover have "names_ok iv running' (en_names e)"
    using names_allocate [OF _ al _ r(2)] C nm names_mset [OF m] by (auto simp: slot_named_def)
  moreover have "length (inv_slots iv) < 2 ^ 32" using try_allocate_length [OF al] C by simp
  moreover have "binds (held_req (en_jobs e)) running' (en_reconciling e) (en_quiescing e)"
    using binds_add_running [of "held_req (en_jobs e)" r] D(2) r res binds_mset [OF m refl] by simp
  ultimately show ?thesis using C by (simp add: engine_inv_def engine_core_def)
qed

lemma claim_held:
  assumes inv: "engine_inv L e" and nm: "slot_named e slot" and i: "i \<in> set (en_reconciling e)"
  shows "\<exists>e' w'. claim L slot now i (e, w) = Some (e', w') \<and> engine_inv L e' \<and> en_names e' = en_names e"
proof -
  from unhold_held [OF inv i] obtain held where
    h: "unhold e i = Some (e\<lparr>en_reconciling := held\<rparr>, True)" "detached L (e\<lparr>en_reconciling := held\<rparr>) i"
      "in_state (en_jobs e) i Running" by blast
  let ?e = "e\<lparr>en_reconciling := held\<rparr>"
  from h(3) obtain j where j: "arena_get (en_jobs e) i = Some j" "state j = Running" by (auto simp: in_state_def)
  let ?r = "\<lparr>run_job = i, run_slot = slot, run_resources = request j, run_ends_at = time_saturating_add now (walltime_limit j)\<rparr>"
  show ?thesis
  proof (cases "try_allocate (en_inventory e) slot (request j)")
    case (Inr iv)
    have "engine_inv L (?e\<lparr>en_inventory := iv, en_running := en_running e @ [?r]\<rparr>)"
      by (rule detached_bind [OF h(2), of slot "request j" iv ?r]) (use Inr j nm in \<open>simp_all add: held_req_def slot_named_def\<close>)
    with h(1) j Inr show ?thesis by (simp add: claim_def adopt_running_def)
  next
    case (Inl err)
    from requeue_logged_inv [OF h(2), of now] obtain e' where
      e': "requeue_logged L ?e i now = Some e'" "engine_inv L e'" "en_names e' = en_names e" by auto
    have "en_names (fst (push_dispatch L e' w (Kill slot i))) = en_names e'"
      by (simp add: push_dispatch_def split: prod.splits sum.splits)
    with h(1) j Inl e' push_dispatch_inv [of L L e' w "Kill slot i"] show ?thesis
      by (cases "push_dispatch L e' w (Kill slot i)") (simp add: claim_def adopt_running_def)
  qed
qed

lemma claim_bound:
  assumes inv: "engine_inv L e" and nm: "slot_named e slot" and i: "i \<in> run_job ` set (en_running e)"
  shows "\<exists>e' w'. claim L slot now i (e, w) = Some (e', w') \<and> engine_inv L e' \<and> en_names e' = en_names e"
proof -
  note I = inv [unfolded engine_inv_def engine_core_def]
  from i obtain pos where pos: "position (\<lambda>r. run_job r = i) (en_running e) = Some pos"
    using position_None [of "\<lambda>r. run_job r = i" "en_running e"] by (cases "position (\<lambda>r. run_job r = i) (en_running e)") auto
  from position_swap [OF pos] obtain r running where
    r: "swap_remove (en_running e) pos = Some (r, running)" "vec_index (en_running e) pos = Some r" "pos < length (en_running e)"
      "run_job r = i" "mset (en_running e) = add_mset r (mset running)" by blast
  from engine_release_bound [OF inv i] obtain sl iv running' where
    rel: "engine_release e i = Some (e\<lparr>en_inventory := iv, en_running := running'\<rparr>, Some sl)"
      "detached L (e\<lparr>en_inventory := iv, en_running := running'\<rparr>) i" "i \<notin> set (en_reconciling e)" by blast
  have "books (en_inventory e) (r # running)"
    using I books_mset [of "en_running e" "r # running" "en_inventory e"] r(5) by simp
  from books_release [OF this] obtain iv1 where "release (en_inventory e) (run_slot r) (run_resources r) = Inr iv1" by blast
  with rel(1) r(1) pos have iv: "release (en_inventory e) (run_slot r) (run_resources r) = Inr iv" "running' = running"
    by (auto simp: engine_release_def inventory_or_keep_def dest: arg_cong [of _ _ en_inventory] arg_cong [of _ _ en_running])
  let ?e = "e\<lparr>en_inventory := iv\<rparr>" let ?d = "e\<lparr>en_inventory := iv, en_running := running\<rparr>"
  have d: "detached L ?d i" using rel(2) iv(2) by simp
  have res: "held_req (en_jobs e) i = Some (run_resources r)"
  proof -
    have "r \<in> set (en_running e)" using r(5) by (metis set_mset_mset union_single_eq_member)
    with I r(4) show ?thesis by (auto simp: binds_def)
  qed
  note u = unhold_absent [OF rel(3)]
  show ?thesis
  proof (cases "try_allocate iv slot (run_resources r)")
    case (Inr iv2)
    let ?r = "r\<lparr>run_slot := slot\<rparr>" let ?run = "(en_running e)[pos := ?r]"
    have "mset ?run = mset (?r # running)"
      using r(2,3,5) by (simp add: mset_update vec_index_def)
    then have "engine_inv L (?d\<lparr>en_inventory := iv2, en_running := ?run\<rparr>)"
      by (intro detached_bind [OF d, of slot "run_resources r" iv2 ?r]) (use Inr r(4) res nm in \<open>simp_all add: slot_named_def\<close>)
    then have "engine_inv L (e\<lparr>en_inventory := iv2, en_running := ?run\<rparr>)" by simp
    with u pos r(2,3) iv(1) Inr show ?thesis by (simp add: claim_def inventory_or_keep_def vec_set_def)
  next
    case (Inl err)
    from requeue_logged_inv [OF d, of now] obtain e' where
      e': "requeue_logged L ?d i now = Some e'" "engine_inv L e'" "en_names e' = en_names e" by auto
    have "en_names (fst (push_dispatch L e' w (Kill slot i))) = en_names e'"
      by (simp add: push_dispatch_def split: prod.splits sum.splits)
    with u pos r(1,2) iv(1) Inl e' push_dispatch_inv [of L L e' w "Kill slot i"] show ?thesis
      by (cases "push_dispatch L e' w (Kill slot i)") (simp add: claim_def inventory_or_keep_def)
  qed
qed

lemma claim_inv:
  assumes inv: "engine_inv L e" and nm: "slot_named e slot"
  shows "\<exists>e' w'. claim L slot now i (e, w) = Some (e', w') \<and> engine_inv L e' \<and> en_names e' = en_names e"
proof (cases "i \<in> set (en_reconciling e) \<or> i \<in> run_job ` set (en_running e)")
  case True
  with claim_held [OF assms] claim_bound [OF assms] show ?thesis by blast
next
  case False
  then have "position (\<lambda>r. run_job r = i) (en_running e) = None" by (auto simp: position_None)
  moreover have "en_names (fst (push_dispatch L e w (Kill slot i))) = en_names e"
    by (simp add: push_dispatch_def split: prod.splits sum.splits)
  ultimately show ?thesis
    using False unhold_absent [of i e] push_dispatch_inv [of L L e w "Kill slot i"] inv
    by (cases "push_dispatch L e w (Kill slot i)") (simp add: claim_def)
qed

lemma claims_inv:
  assumes "engine_inv L e" and "slot_named e slot"
  shows "\<exists>e' w'. for_each (claim L slot now) ids (e, w) = Some (e', w') \<and> engine_inv L e'"
  using assms
proof (induction ids arbitrary: e w)
  case (Cons i ids)
  from claim_inv [OF Cons.prems, of now i w] obtain e1 w1 where
    one: "claim L slot now i (e, w) = Some (e1, w1)" "engine_inv L e1" "en_names e1 = en_names e" by blast
  from Cons.IH [OF one(2), of w1] Cons.prems(2) one show ?case by (simp add: slot_named_def)
qed simp

lemma find_vacant_Some:
  assumes "find_vacant iv k names = Some slot"
  shows "\<exists>m < length names. unat slot = k + m \<and> names ! m = None \<and> map_option capacity (inv_slot iv slot) = Some ZERO"
  using assms
proof (induction names arbitrary: k)
  case (Cons n names)
  show ?case
  proof (cases "k < 2 ^ 32 \<and> n = None \<and> map_option capacity (inv_slot iv (word_of_nat k)) = Some ZERO")
    case True
    with Cons.prems have "slot = word_of_nat k" by simp
    with True show ?thesis by (intro exI [of _ 0]) (simp add: unat_word_of_nat_u32)
  next
    case False
    with Cons.prems have "find_vacant iv (Suc k) names = Some slot" by (simp split: if_split_asm)
    from Cons.IH [OF this] obtain m where "m < length names" "unat slot = Suc k + m" "names ! m = None"
      "map_option capacity (inv_slot iv slot) = Some ZERO" by blast
    then show ?thesis by (intro exI [of _ "Suc m"]) simp
  qed
qed simp

text \<open>The slot a joining worker gets: a vacated one, or a new one.\<close>

lemma join_slot:
  assumes inv: "engine_inv L e" and room: "length (inv_slots (en_inventory e)) + 1 < 2 ^ 32"
  shows "\<exists>iv slot ns. (case find_vacant (en_inventory e) 0 (en_names e) of
             Some slot \<Rightarrow> Some (inventory_or_keep e (set_capacity (en_inventory e) slot cap), slot)
           | None \<Rightarrow> do { (iv, slot) \<leftarrow> push_slot (en_inventory e) cap; Some (e\<lparr>en_inventory := iv\<rparr>, slot) })
         = Some (e\<lparr>en_inventory := iv\<rparr>, slot)
     \<and> vec_set (if length (en_names e) \<le> unat slot then vec_resize (en_names e) (unat slot + 1) None else en_names e)
         (unat slot) (Some name) = Some ns
     \<and> engine_inv L (e\<lparr>en_inventory := iv, en_names := ns\<rparr>) \<and> slot_named (e\<lparr>en_inventory := iv, en_names := ns\<rparr>) slot"
proof -
  note I = inv [unfolded engine_inv_def engine_core_def]
  have nk: "length (en_names e) = length (inv_slots (en_inventory e))"
    "\<And>k. k < length (en_names e) \<Longrightarrow> en_names e ! k = None \<Longrightarrow>
       capacity (inv_slots (en_inventory e) ! k) = ZERO \<and> (\<forall>r\<in>set (en_running e). unat (run_slot r) \<noteq> k)"
    using I unfolding names_ok_def by blast+
  have b: "books (en_inventory e) (en_running e)" using I by blast
  show ?thesis
  proof (cases "find_vacant (en_inventory e) 0 (en_names e)")
    case (Some slot)
    from find_vacant_Some [OF Some] have v: "unat slot < length (en_names e)" "en_names e ! unat slot = None" by auto
    then obtain iv where iv: "set_capacity (en_inventory e) slot cap = Inr iv" by (simp add: set_capacity_def vec_get_def nk(1))
    note c = set_capacity_Inr [OF iv]
    have "books iv (en_running e)" by (rule books_rejoin [OF b iv]) (use nk(2) [OF v] in blast)
    moreover have "names_ok iv (en_running e) ((en_names e)[unat slot := Some name])"
      using c nk v by (auto simp: names_ok_def nth_list_update)
    ultimately have "engine_inv L (e\<lparr>en_inventory := iv, en_names := (en_names e)[unat slot := Some name]\<rparr>)"
      using I c by (simp add: engine_inv_def engine_core_def)
    with Some iv v show ?thesis
      by (auto simp: inventory_or_keep_def vec_set_def slot_named_def)
  next
    case None
    from books_push [OF b, of cap] room obtain iv slot where
      p: "push_slot (en_inventory e) cap = Some (iv, slot)" "books iv (en_running e)"
        "unat slot = length (inv_slots (en_inventory e))" "inv_slots iv = inv_slots (en_inventory e) @ [worker_slot_new cap]" by auto
    have ns: "vec_set (if length (en_names e) \<le> unat slot then vec_resize (en_names e) (unat slot + 1) None else en_names e)
        (unat slot) (Some name) = Some (en_names e @ [Some name])"
      by (simp add: vec_resize_def vec_set_def p(3) nk(1) [symmetric])
    have "names_ok iv (en_running e) (en_names e @ [Some name])"
      using p(4) nk by (auto simp: names_ok_def nth_append split: if_splits)
    then have "engine_inv L (e\<lparr>en_inventory := iv, en_names := en_names e @ [Some name]\<rparr>)"
      using I p(2,4) room by (simp add: engine_inv_def engine_core_def)
    moreover have "slot_named (e\<lparr>en_inventory := iv, en_names := en_names e @ [Some name]\<rparr>) slot"
      by (simp add: slot_named_def p(3) nk(1) [symmetric])
    ultimately show ?thesis using None p(1) ns by auto
  qed
qed

lemma on_worker_joined_inv:
  assumes inv: "engine_inv L e" and room: "length (inv_slots (en_inventory e)) + 1 < 2 ^ 32"
  shows "\<exists>e' w'. on_worker_joined L e w name cap in_flight rp now = Some (e', w') \<and> engine_inv L e'"
proof -
  from join_slot [OF assms, of cap name] obtain iv slot ns where
    j: "(case find_vacant (en_inventory e) 0 (en_names e) of
             Some slot \<Rightarrow> Some (inventory_or_keep e (set_capacity (en_inventory e) slot cap), slot)
           | None \<Rightarrow> do { (iv, slot) \<leftarrow> push_slot (en_inventory e) cap; Some (e\<lparr>en_inventory := iv\<rparr>, slot) })
         = Some (e\<lparr>en_inventory := iv\<rparr>, slot)"
      "vec_set (if length (en_names e) \<le> unat slot then vec_resize (en_names e) (unat slot + 1) None else en_names e)
         (unat slot) (Some name) = Some ns"
      "engine_inv L (e\<lparr>en_inventory := iv, en_names := ns\<rparr>)" "slot_named (e\<lparr>en_inventory := iv, en_names := ns\<rparr>) slot"
    by blast
  from claims_inv [OF j(3,4), of now in_flight w] obtain e' w' where
    "for_each (claim L slot now) in_flight (e\<lparr>en_inventory := iv, en_names := ns\<rparr>, w) = Some (e', w')" "engine_inv L e'" by blast
  moreover have "en_names (e\<lparr>en_inventory := iv\<rparr>) = en_names e" by simp
  ultimately show ?thesis
    unfolding on_worker_joined_def j(1) by (simp only: Option.bind.simps prod.case Let_def j(2)) simp
qed

lemma requeue_all:
  assumes "distinct ids"
    and "\<forall>i\<in>set ids. held_req (en_jobs e) i \<noteq> None \<and> (only \<longrightarrow> in_state (en_jobs e) i Running)"
    and "sched_inv (en_scheduler e) (en_jobs e)" and "journal_ok (crc32 L) (en_journal e)"
  shows "\<exists>s' jobs' J. for_each (if only then requeue_unclaimed L now else (\<lambda>i e. requeue_logged L e i now)) ids e
       = Some (e\<lparr>en_scheduler := s', en_jobs := jobs', en_journal := J\<rparr>)
     \<and> sched_inv s' jobs' \<and> journal_ok (crc32 L) J \<and> same_jobs (en_jobs e) jobs'
     \<and> held_req jobs' = (\<lambda>x. if x \<in> set ids then None else held_req (en_jobs e) x)
     \<and> (\<forall>x. x \<notin> set ids \<longrightarrow> in_state (en_jobs e) x Running \<longrightarrow> in_state jobs' x Running) \<and> ended jobs' = ended (en_jobs e)"
  using assms
proof (induction ids arbitrary: e)
  case Nil
  have "e = e\<lparr>en_scheduler := en_scheduler e, en_jobs := en_jobs e, en_journal := en_journal e\<rparr>" by simp
  then have "for_each (if only then requeue_unclaimed L now else (\<lambda>i e. requeue_logged L e i now)) [] e
      = Some (e\<lparr>en_scheduler := en_scheduler e, en_jobs := en_jobs e, en_journal := en_journal e\<rparr>)" by simp
  with Nil show ?case by (intro exI conjI) (assumption | simp)+
next
  case (Cons i ids)
  let ?f = "if only then requeue_unclaimed L now else (\<lambda>i e. requeue_logged L e i now)"
  have h: "held_req (en_jobs e) i \<noteq> None" using Cons.prems(2) by simp
  from requeue_effect [OF Cons.prems(3) h, of now "en_cycle e"] obtain s1 jobs1 where
    c: "requeue (en_scheduler e) i (en_jobs e) now (en_cycle e) = Some (s1, jobs1, Inr ())" "sched_inv s1 jobs1"
      "frees i {} (en_jobs e) jobs1" by blast
  let ?e1 = "e\<lparr>en_scheduler := s1, en_jobs := jobs1\<rparr>"
  from engine_record_ok [of L ?e1 "R_Requeued i now"] Cons.prems(4) obtain J1 where
    J1: "engine_record L ?e1 (R_Requeued i now) = Some (?e1\<lparr>en_journal := J1\<rparr>)" "journal_ok (crc32 L) J1" by auto
  have "requeue_logged L e i now = Some (?e1\<lparr>en_journal := J1\<rparr>)"
    using c(1) J1(1) by (simp add: requeue_logged_def with_sched_def)
  then have one: "?f i e = Some (?e1\<lparr>en_journal := J1\<rparr>)"
    using Cons.prems(2) by (simp add: requeue_unclaimed_def in_state_def)
  have F: "same_jobs (en_jobs e) jobs1" "held_req jobs1 = (held_req (en_jobs e))(i := None)"
    "\<forall>x. x \<noteq> i \<longrightarrow> in_state (en_jobs e) x Running \<longrightarrow> in_state jobs1 x Running" "ended jobs1 = ended (en_jobs e)"
    using c(3) by (auto simp: frees_def)
  have pre: "\<forall>x\<in>set ids. held_req (en_jobs (?e1\<lparr>en_journal := J1\<rparr>)) x \<noteq> None
      \<and> (only \<longrightarrow> in_state (en_jobs (?e1\<lparr>en_journal := J1\<rparr>)) x Running)"
    using Cons.prems(1,2) F(2,3) by auto
  have si: "sched_inv (en_scheduler (?e1\<lparr>en_journal := J1\<rparr>)) (en_jobs (?e1\<lparr>en_journal := J1\<rparr>))" using c(2) by simp
  from Cons.IH [OF _ pre si] Cons.prems(1) J1(2) obtain s2 jobs2 J2 where
    two: "for_each ?f ids (?e1\<lparr>en_journal := J1\<rparr>) = Some (?e1\<lparr>en_journal := J1\<rparr>\<lparr>en_scheduler := s2, en_jobs := jobs2, en_journal := J2\<rparr>)"
      "sched_inv s2 jobs2" "journal_ok (crc32 L) J2" "same_jobs jobs1 jobs2"
      "held_req jobs2 = (\<lambda>x. if x \<in> set ids then None else held_req (en_jobs (?e1\<lparr>en_journal := J1\<rparr>)) x)"
      "\<forall>x. x \<notin> set ids \<longrightarrow> in_state jobs1 x Running \<longrightarrow> in_state jobs2 x Running" "ended jobs2 = ended jobs1" by auto
  have "for_each ?f (i # ids) e = Some (e\<lparr>en_scheduler := s2, en_jobs := jobs2, en_journal := J2\<rparr>)"
    using one two(1) by simp
  moreover have "held_req jobs2 = (\<lambda>x. if x \<in> set (i # ids) then None else held_req (en_jobs e) x)"
    unfolding two(5) by (rule ext) (simp add: F(2))
  moreover have "\<forall>x. x \<notin> set (i # ids) \<longrightarrow> in_state (en_jobs e) x Running \<longrightarrow> in_state jobs2 x Running"
    using two(6) F(3) by auto
  moreover have "ended jobs2 = ended (en_jobs e)" using two(7) F(4) by simp
  ultimately show ?case using two(2,3) same_jobs_trans [OF F(1) two(4)] by blast
qed

text \<open>What is left of the lists when everything on a slot is taken off them.\<close>

lemma binds_evict:
  assumes b: "binds H running held q" and ids: "ids = map run_job (filter (\<lambda>r. run_slot r = w) running)"
    and H': "H' = (if q then H else (\<lambda>x. if x \<in> set ids then None else H x))"
  shows "binds H' (filter (\<lambda>r. run_slot r \<noteq> w) running) held q"
proof -
  let ?run = "filter (\<lambda>r. run_slot r \<noteq> w) running"
  have d: "distinct (map run_job running)" "set held \<inter> run_job ` set running = {}" "distinct held" using b by (auto simp: binds_def)
  have inj: "inj_on run_job (set running)" using d(1) by (simp add: distinct_map)
  have out: "run_job r \<notin> set ids" if "r \<in> set ?run" for r
    using that inj by (auto simp: ids inj_on_def)
  have "distinct (map run_job ?run @ held)" using d by (auto simp: distinct_map_filter)
  moreover have "H' (run_job r) = Some (run_resources r)" if "r \<in> set ?run" for r
    using that out [OF that] b by (auto simp: H' binds_def)
  moreover have "H' i \<noteq> None" if "i \<in> set held" for i
  proof -
    have "i \<notin> set ids" using that d(2) by (auto simp: ids)
    with that b show ?thesis by (auto simp: H' binds_def)
  qed
  moreover have "q \<or> dom H' \<subseteq> run_job ` set ?run \<union> set held"
  proof (cases q)
    case False
    have "x \<in> run_job ` set ?run \<union> set held" if "H' x = Some y" for x y
    proof -
      from that False have x: "x \<notin> set ids" "x \<in> dom H" by (auto simp: H' split: if_splits)
      with b False have "x \<in> run_job ` set running \<union> set held" by (auto simp: binds_def)
      with x(1) show ?thesis by (auto simp: ids image_iff)
    qed
    then show ?thesis by auto
  qed simp
  ultimately show ?thesis by (simp add: binds_def)
qed

lemma names_evict:
  assumes "names_ok iv running names" and "inv_slots iv2 = (inv_slots iv)[unat w := worker_slot_new ZERO]"
    and "unat w < length (inv_slots iv)"
  shows "names_ok iv2 (filter (\<lambda>r. run_slot r \<noteq> w) running) (names[unat w := None])"
  unfolding names_ok_def
proof (intro conjI allI impI)
  show "length (names[unat w := None]) = length (inv_slots iv2)" using assms by (simp add: names_ok_def)
  fix k assume k: "k < length (names[unat w := None])" "names[unat w := None] ! k = None"
  show "capacity (inv_slots iv2 ! k) = ZERO"
    using assms k by (cases "k = unat w") (auto simp: names_ok_def worker_slot_new_def)
  show "\<forall>r\<in>set (filter (\<lambda>r. run_slot r \<noteq> w) running). unat (run_slot r) \<noteq> k"
    using assms k by (cases "k = unat w") (auto simp: names_ok_def unat_eq_unat_iff)
qed

lemma requeue_evicted:
  assumes inv: "engine_inv L e" and w: "ids = map run_job (filter (\<lambda>r. run_slot r = w) (en_running e))"
  shows "\<exists>s' jobs' J. (if en_quiescing e then Some e else for_each (\<lambda>i e. requeue_logged L e i now) ids e)
       = Some (e\<lparr>en_scheduler := s', en_jobs := jobs', en_journal := J\<rparr>)
     \<and> sched_inv s' jobs' \<and> journal_ok (crc32 L) J \<and> same_jobs (en_jobs e) jobs'
     \<and> held_req jobs' = (if en_quiescing e then held_req (en_jobs e) else (\<lambda>x. if x \<in> set ids then None else held_req (en_jobs e) x))
     \<and> (\<forall>x\<in>set (en_reconciling e). in_state jobs' x Running) \<and> ended jobs' = ended (en_jobs e)"
proof -
  note I = inv [unfolded engine_inv_def engine_core_def]
  have b: "binds (held_req (en_jobs e)) (en_running e) (en_reconciling e) (en_quiescing e)" using I by blast
  show ?thesis
  proof (cases "en_quiescing e")
    case True
    have "e = e\<lparr>en_scheduler := en_scheduler e, en_jobs := en_jobs e, en_journal := en_journal e\<rparr>" by simp
    with True I show ?thesis
      by (intro exI [of _ "en_scheduler e"] exI [of _ "en_jobs e"] exI [of _ "en_journal e"]) simp
  next
    case False
    have di: "distinct ids" using b by (simp add: w binds_def distinct_map_filter)
    have he: "\<forall>i\<in>set ids. held_req (en_jobs e) i \<noteq> None \<and> (False \<longrightarrow> in_state (en_jobs e) i Running)"
      using b by (auto simp: w binds_def)
    have dj: "set (en_reconciling e) \<inter> set ids = {}" using b by (auto simp: w binds_def)
    have si: "sched_inv (en_scheduler e) (en_jobs e)" "journal_ok (crc32 L) (en_journal e)"
      "\<forall>x\<in>set (en_reconciling e). in_state (en_jobs e) x Running" using I by blast+
    from requeue_all [OF di he si(1,2), of now] obtain s' jobs' J where
      q: "for_each (\<lambda>i e. requeue_logged L e i now) ids e = Some (e\<lparr>en_scheduler := s', en_jobs := jobs', en_journal := J\<rparr>)"
        "sched_inv s' jobs'" "journal_ok (crc32 L) J" "same_jobs (en_jobs e) jobs'"
        "held_req jobs' = (\<lambda>x. if x \<in> set ids then None else held_req (en_jobs e) x)"
        "\<forall>x. x \<notin> set ids \<longrightarrow> in_state (en_jobs e) x Running \<longrightarrow> in_state jobs' x Running" "ended jobs' = ended (en_jobs e)"
      unfolding if_False by blast
    have "\<forall>x\<in>set (en_reconciling e). in_state jobs' x Running" using q(6) si(3) dj by blast
    with q False show ?thesis by (intro exI [of _ s'] exI [of _ jobs'] exI [of _ J]) simp
  qed
qed

lemma evict_slot_inv:
  assumes inv: "engine_inv L e"
  shows "\<exists>e'. evict_slot L e w now = Some e' \<and> engine_inv L e'"
proof -
  note I = inv [unfolded engine_inv_def engine_core_def]
  let ?ids = "map run_job (filter (\<lambda>r. run_slot r = w) (en_running e))"
  let ?run = "filter (\<lambda>r. run_slot r \<noteq> w) (en_running e)"
  let ?e0 = "e\<lparr>en_running := ?run\<rparr>"
  have commute: "for_each (\<lambda>i e. requeue_logged L e i now) ids (x\<lparr>en_running := run\<rparr>)
      = map_option (\<lambda>y. y\<lparr>en_running := run\<rparr>) (for_each (\<lambda>i e. requeue_logged L e i now) ids x)" for ids x run
  proof (induction ids arbitrary: x)
    case (Cons i ids)
    have "requeue_logged L (x\<lparr>en_running := run\<rparr>) i now = map_option (\<lambda>y. y\<lparr>en_running := run\<rparr>) (requeue_logged L x i now)"
      by (auto simp: requeue_logged_def with_sched_def engine_record_def split: option.splits sum.splits Option.bind_splits)
    with Cons show ?case by (cases "requeue_logged L x i now") simp_all
  qed simp
  from requeue_evicted [OF inv refl, of now w] obtain s' jobs' J where
    q: "(if en_quiescing e then Some e else for_each (\<lambda>i e. requeue_logged L e i now) ?ids e)
        = Some (e\<lparr>en_scheduler := s', en_jobs := jobs', en_journal := J\<rparr>)" "sched_inv s' jobs'" "journal_ok (crc32 L) J"
      "same_jobs (en_jobs e) jobs'"
      "held_req jobs' = (if en_quiescing e then held_req (en_jobs e) else (\<lambda>x. if x \<in> set ?ids then None else held_req (en_jobs e) x))"
      "\<forall>x\<in>set (en_reconciling e). in_state jobs' x Running" "ended jobs' = ended (en_jobs e)" by blast
  let ?e1 = "e\<lparr>en_scheduler := s', en_jobs := jobs', en_journal := J, en_running := ?run\<rparr>"
  have one: "(if en_quiescing ?e0 then Some ?e0 else for_each (\<lambda>i e. requeue_logged L e i now) ?ids ?e0) = Some ?e1"
    using q(1) by (cases "en_quiescing e") (auto simp: commute dest: arg_cong [of _ _ "\<lambda>e. e\<lparr>en_running := ?run\<rparr>"])
  have bi: "binds (held_req jobs') ?run (en_reconciling e) (en_quiescing e)"
    by (rule binds_evict [OF _ refl q(5)]) (use I in blast)
  have tm: "term_ok jobs' (en_terminal e)"
    using I q(4,7) shape_issued [of jobs' "en_jobs e"]
    by (auto simp: term_ok_def same_jobs_live [OF q(4)] same_jobs_def)
  have da: "data_ok jobs'" using I data_ok_same [OF _ q(4)] by blast
  show ?thesis
  proof (cases "unat w < length (inv_slots (en_inventory e))")
    case True
    from clear_then_drain [OF True] obtain iv1 iv2 where
      iv: "clear_allocation (en_inventory e) w = Inr iv1" "set_capacity iv1 w ZERO = Inr iv2"
        "inv_slots iv2 = (inv_slots (en_inventory e))[unat w := worker_slot_new ZERO]" by blast
    have nl: "length (en_names e) = length (inv_slots (en_inventory e))" using I by (simp add: names_ok_def)
    let ?e2 = "?e1\<lparr>en_inventory := iv2, en_names := (en_names e)[unat w := None]\<rparr>"
    have "engine_inv L ?e2"
      using I q(2,3,6) bi tm da iv(3) books_evict [OF _ iv(3) True] names_evict [OF _ iv(3) True]
      by (simp add: engine_inv_def engine_core_def)
    moreover have "evict_slot L e w now = Some ?e2"
      unfolding evict_slot_def Let_def one using iv True nl by (simp add: inventory_or_keep_def)
    ultimately show ?thesis by blast
  next
    case False
    have nl: "length (en_names e) = length (inv_slots (en_inventory e))" using I by (simp add: names_ok_def)
    have run: "?run = en_running e" using I False by (auto simp: books_def intro!: filter_True)
    have "evict_slot L e w now = Some ?e1"
      unfolding evict_slot_def Let_def one using False nl
      by (simp add: inventory_or_keep_def clear_allocation_def set_capacity_def vec_get_def)
    moreover have "engine_inv L ?e1"
      using I q(2,3,6) bi tm da by (simp add: engine_inv_def engine_core_def run)
    ultimately show ?thesis by blast
  qed
qed

lemma worker_draining_inv:
  assumes inv: "engine_inv L e"
  shows "engine_inv L (inventory_or_keep e (set_capacity (en_inventory e) w ZERO))"
proof (cases "set_capacity (en_inventory e) w ZERO")
  case (Inl err)
  with inv show ?thesis by (simp add: inventory_or_keep_def)
next
  case (Inr iv)
  note I = inv [unfolded engine_inv_def engine_core_def] note c = set_capacity_Inr [OF Inr]
  have "books iv (en_running e)" using books_drain [OF _ Inr] I by blast
  moreover have "names_ok iv (en_running e) (en_names e)" using I c by (auto simp: names_ok_def nth_list_update)
  ultimately show ?thesis using I c Inr by (simp add: inventory_or_keep_def engine_inv_def engine_core_def)
qed

end
