(* ===== verification/Engine_Tick.thy ===== *)
theory Engine_Tick
  imports Engine_Commands
begin

text \<open>
  The tick succeeds in a state that satisfies the engine's invariant and leaves such a state: the
  cycle and its decisions, the evictions, the demand, the retention, the end of the reconcile
  window, and the hand-off to the writer with a snapshot when one is due.
\<close>

section \<open>Placements\<close>

text \<open>The entries of the running list that a list of decisions leads to.\<close>

definition placed :: "job arena \<Rightarrow> dispatch_decision \<Rightarrow> running_job \<Rightarrow> bool" where
  "placed jobs d r \<longleftrightarrow> run_job r = dec_job d \<and> run_slot r = dec_slot d
     \<and> map_option request (arena_get jobs (dec_job d)) = Some (run_resources r)"

lemma placed_same: "same_jobs jobs jobs' \<Longrightarrow> placed jobs' d r \<longleftrightarrow> placed jobs d r"
proof -
  assume s: "same_jobs jobs jobs'"
  have "map_option request (arena_get jobs' i) = map_option request (arena_get jobs i)" for i
  proof (cases "arena_get jobs' i")
    case None
    with same_jobs_live [OF s, of i] show ?thesis by simp
  next
    case (Some k)
    with s obtain j where j: "arena_get jobs i = Some j" "fixed_part k = fixed_part j" by (rule same_jobs_get)
    from fixed_part_eqD(1) [OF j(2)] Some j(1) show ?thesis by simp
  qed
  then show ?thesis by (simp add: placed_def)
qed

lemma named_if_allocated:
  assumes "names_ok iv running names" and "try_allocate iv slot res = Inr iv'" and "res \<noteq> ZERO"
  shows "names ! unat slot \<noteq> None"
  using assms(2)
proof (rule try_allocate_Inr)
  fix n assume n: "unat slot < length (inv_slots iv)" "res_checked_add (allocated (inv_slots iv ! unat slot)) res = Some n"
    "fits_within n (capacity (inv_slots iv ! unat slot))"
  show ?thesis
  proof
    assume "names ! unat slot = None"
    with assms(1) n(1) have "capacity (inv_slots iv ! unat slot) = ZERO" by (auto simp: names_ok_def)
    with n(3) have "n = ZERO" by simp
    then have "dim_of d res = dim_of d ZERO" for d using dim_of_checked_add [OF n(2), of d] by simp
    then have "res = ZERO" by (rule dims_eqI)
    with assms(3) show False by simp
  qed
qed

lemma books_placed:
  assumes "books iv running" and "names_ok iv running names" and "data_ok jobs"
    and "allocate_all jobs iv ds = Some iv'" and "list_all2 (placed jobs) ds rs"
  shows "books iv' (running @ rs) \<and> names_ok iv' (running @ rs) names \<and> length (inv_slots iv') = length (inv_slots iv)"
  using assms(5,1,2,4)
proof (induction ds rs arbitrary: iv running rule: list_all2_induct)
  case (Cons d ds r rs)
  from Cons.prems(3) obtain j iv1 where j: "arena_get jobs (dec_job d) = Some j"
    "try_allocate iv (dec_slot d) (request j) = Inr iv1" "allocate_all jobs iv1 ds = Some iv'"
    by (auto split: option.splits sum.splits)
  have r: "run_slot r = dec_slot d" "run_resources r = request j" using Cons.hyps(1) j(1) by (auto simp: placed_def)
  have nz: "request j \<noteq> ZERO" using assms(3) j(1) by (auto simp: data_ok_def)
  have m: "mset (running @ [r]) = mset (r # running)" by simp
  have b: "books iv1 (running @ [r])" using books_allocate [OF Cons.prems(1) j(2) r] books_mset [OF m] by blast
  have n: "names_ok iv1 (running @ [r]) names"
    using names_allocate [OF Cons.prems(2) j(2) named_if_allocated [OF Cons.prems(2) j(2) nz] r(1)] names_mset [OF m] by blast
  from Cons.IH [OF b n j(3)] try_allocate_length [OF j(2)] show ?case by simp
qed simp

lemma binds_placed:
  assumes b: "binds H running held q" and p: "list_all2 (placed jobs) ds rs"
    and d: "distinct (map dec_job ds)" and fresh: "\<forall>d\<in>set ds. H (dec_job d) = None"
    and H': "\<And>x. H' x = (if x \<in> dec_job ` set ds then map_option request (arena_get jobs x) else H x)"
  shows "binds H' (running @ rs) held q"
proof -
  have ids: "map run_job rs = map dec_job ds"
    using p by (induction rule: list_all2_induct) (auto simp: placed_def)
  have set_ids: "run_job ` set rs = dec_job ` set ds" using arg_cong [OF ids, of set] by simp
  have old: "x \<notin> dec_job ` set ds" if "H x \<noteq> None" for x using that fresh by auto
  have new: "H' (run_job r) = Some (run_resources r)" if "r \<in> set rs" for r
  proof -
    from p that obtain d where "d \<in> set ds" "placed jobs d r"
      by (metis in_set_conv_nth list_all2_conv_all_nth)
    then show ?thesis by (auto simp: H' placed_def)
  qed
  have un: "run_job r \<notin> dec_job ` set ds" if "r \<in> set running" for r using that b old by (auto simp: binds_def)
  have uh: "i \<notin> dec_job ` set ds" if "i \<in> set held" for i using that b old by (auto simp: binds_def)
  have "distinct (map run_job (running @ rs) @ held)"
    using b d ids un uh by (auto simp: binds_def set_ids)
  moreover have "H' (run_job r) = Some (run_resources r)" if "r \<in> set running" for r
    using b un [OF that] that by (simp add: H' binds_def)
  moreover have "H' i \<noteq> None" if "i \<in> set held" for i using b uh [OF that] that by (simp add: H' binds_def)
  moreover have "q \<or> dom H' \<subseteq> run_job ` set (running @ rs) \<union> set held"
  proof (cases q)
    case False
    have "x \<in> run_job ` set (running @ rs) \<union> set held" if "H' x \<noteq> None" for x
    proof (cases "x \<in> dec_job ` set ds")
      case True
      with set_ids show ?thesis by auto
    next
      case xn: False
      with that have "x \<in> dom H" by (auto simp: H')
      with b False show ?thesis by (auto simp: binds_def)
    qed
    then show ?thesis by auto
  qed simp
  ultimately show ?thesis using new by (auto simp: binds_def)
qed

text \<open>The loop over the decisions appends their entries, records them and sends the assignments.\<close>

lemma dispatched_loop:
  assumes "\<forall>d\<in>set ds. arena_get (en_jobs e) (dec_job d) \<noteq> None" and "journal_ok (crc32 L) (en_journal e)"
  shows "\<exists>rs J ov w'. for_each (on_dispatched L now) ds (e, w)
       = Some (e\<lparr>en_running := en_running e @ rs, en_journal := J, en_overflow := ov\<rparr>, w')
     \<and> list_all2 (placed (en_jobs e)) ds rs \<and> journal_ok (crc32 L) J"
  using assms
proof (induction ds arbitrary: e w)
  case Nil
  have "e = e\<lparr>en_running := en_running e @ [], en_journal := en_journal e, en_overflow := en_overflow e\<rparr>" by simp
  then have "for_each (on_dispatched L now) [] (e, w)
      = Some (e\<lparr>en_running := en_running e @ [], en_journal := en_journal e, en_overflow := en_overflow e\<rparr>, w)" by simp
  with Nil show ?case by blast
next
  case (Cons d ds)
  from Cons.prems obtain j where j: "arena_get (en_jobs e) (dec_job d) = Some j" by auto
  let ?r = "\<lparr>run_job = dec_job d, run_slot = dec_slot d, run_resources = request j,
      run_ends_at = time_saturating_add now (walltime_limit j)\<rparr>"
  let ?e = "e\<lparr>en_running := en_running e @ [?r]\<rparr>"
  let ?a = "Assign (dec_slot d) (dec_job d) (payload j) (walltime_limit j)"
  from engine_record_ok [of L ?e "R_Dispatched (dec_job d) now"] Cons.prems(2) obtain J where
    J: "engine_record L ?e (R_Dispatched (dec_job d) now) = Some (?e\<lparr>en_journal := J\<rparr>)" "journal_ok (crc32 L) J" by auto
  have "\<exists>J1 ov1 w1. dispatch_durably L (?e\<lparr>en_journal := J\<rparr>) w ?a = (?e\<lparr>en_journal := J1, en_overflow := ov1\<rparr>, w1)
      \<and> journal_ok (crc32 L) J1"
  proof (cases J)
    case None
    obtain w' x where x: "outbox_push L w ?a = (w', x)" by (cases "outbox_push L w ?a")
    show ?thesis
    proof (cases x)
      case (Inl d')
      with None J(2) x show ?thesis
        by (intro exI [of _ None] exI [of _ "en_overflow e @ [d']"] exI [of _ w']) (simp add: dispatch_durably_def push_dispatch_def)
    next
      case (Inr u)
      with None J(2) x show ?thesis
        by (intro exI [of _ None] exI [of _ "en_overflow e"] exI [of _ w']) (simp add: dispatch_durably_def push_dispatch_def)
    qed
  next
    case (Some jn)
    with J(2) show ?thesis
      by (intro exI [of _ "Some (hold jn ?a)"] exI [of _ "en_overflow e"] exI [of _ w]) (simp add: dispatch_durably_def)
  qed
  then obtain J1 ov1 w1 where one: "dispatch_durably L (?e\<lparr>en_journal := J\<rparr>) w ?a
      = (?e\<lparr>en_journal := J1, en_overflow := ov1\<rparr>, w1)" "journal_ok (crc32 L) J1" by blast
  let ?e1 = "?e\<lparr>en_journal := J1, en_overflow := ov1\<rparr>"
  have step: "on_dispatched L now d (e, w) = Some (?e1, w1)" using j J(1) one(1) by (simp add: on_dispatched_def)
  have pre: "\<forall>d\<in>set ds. arena_get (en_jobs ?e1) (dec_job d) \<noteq> None" "journal_ok (crc32 L) (en_journal ?e1)"
    using Cons.prems(1) one(2) by simp_all
  from Cons.IH [OF pre, of w1] obtain rs J2 ov2 w2 where
    two: "for_each (on_dispatched L now) ds (?e1, w1)
        = Some (?e1\<lparr>en_running := en_running ?e1 @ rs, en_journal := J2, en_overflow := ov2\<rparr>, w2)"
      "list_all2 (placed (en_jobs ?e1)) ds rs" "journal_ok (crc32 L) J2" by blast
  have "placed (en_jobs e) d ?r" using j by (simp add: placed_def)
  with step two show ?case
    by (intro exI [of _ "?r # rs"] exI [of _ J2] exI [of _ ov2] exI [of _ w2]) simp
qed

lemma cycle_inv:
  assumes inv: "engine_inv L e"
  shows "\<exists>s' jobs' iv' ds out ew. run_cycle (en_scheduler e) (en_jobs e) (en_inventory e) (en_running e) now (en_cycle e) []
       = Some (s', jobs', iv', ds, out)
     \<and> for_each (on_dispatched L now) ds (e\<lparr>en_scheduler := s', en_jobs := jobs', en_inventory := iv'\<rparr>, w) = Some ew
     \<and> engine_inv L (fst ew)"
proof -
  note I = inv [unfolded engine_inv_def engine_core_def]
  have s: "sched_inv (en_scheduler e) (en_jobs e)" and len: "length (inv_slots (en_inventory e)) < 2 ^ 32"
    and b: "books (en_inventory e) (en_running e)" and nm: "names_ok (en_inventory e) (en_running e) (en_names e)"
    and da: "data_ok (en_jobs e)" and tm: "term_ok (en_jobs e) (en_terminal e)"
    and bi: "binds (held_req (en_jobs e)) (en_running e) (en_reconciling e) (en_quiescing e)" using I by blast+
  have "drained_or_within (en_inventory e)" using b by (simp add: books_def)
  then have snd: "alloc_sound (en_inventory e) (request j)" if "arena_get (en_jobs e) i = Some j" "state j = Ready" for i j
    using that da by (auto simp: drained_or_within_sound data_ok_def)
  have "\<exists>s' jobs' iv' new out. run_cycle (en_scheduler e) (en_jobs e) (en_inventory e) (en_running e) now (en_cycle e) []
        = Some (s', jobs', iv', [] @ new, out)
     \<and> sched_inv s' jobs' \<and> allocate_all (en_jobs e) (en_inventory e) new = Some iv' \<and> distinct (map dec_job new)
     \<and> (\<forall>d\<in>set new. \<exists>j. arena_get (en_jobs e) (dec_job d) = Some j \<and> state j = Ready)
     \<and> restated Running (dec_job ` set new) (en_jobs e) jobs'"
    by (rule run_cycle_spec [OF s len]) (rule snd)
  then obtain s' jobs' iv' ds out where
    c: "run_cycle (en_scheduler e) (en_jobs e) (en_inventory e) (en_running e) now (en_cycle e) [] = Some (s', jobs', iv', ds, out)"
      "sched_inv s' jobs'" "allocate_all (en_jobs e) (en_inventory e) ds = Some iv'" "distinct (map dec_job ds)"
      "\<forall>d\<in>set ds. \<exists>j. arena_get (en_jobs e) (dec_job d) = Some j \<and> state j = Ready"
      "restated Running (dec_job ` set ds) (en_jobs e) jobs'" by auto
  have same: "same_jobs (en_jobs e) jobs'" by (rule same_jobs_restated [OF c(6) run_cycle_shape [OF c(1)]])
  let ?e = "e\<lparr>en_scheduler := s', en_jobs := jobs', en_inventory := iv'\<rparr>"
  have "\<forall>d\<in>set ds. arena_get (en_jobs ?e) (dec_job d) \<noteq> None"
    using c(5) same_jobs_live [OF same] by auto
  from dispatched_loop [OF this, of L now w] I obtain rs J ov w' where
    l: "for_each (on_dispatched L now) ds (?e, w) = Some (?e\<lparr>en_running := en_running ?e @ rs, en_journal := J, en_overflow := ov\<rparr>, w')"
      "list_all2 (placed (en_jobs ?e)) ds rs" "journal_ok (crc32 L) J" by auto
  have p: "list_all2 (placed (en_jobs e)) ds rs"
    using l(2) placed_same [OF same] by (auto elim: list_all2_mono)
  note bn = books_placed [OF b nm da c(3) p]
  have "held_req jobs' x = (if x \<in> dec_job ` set ds then map_option request (arena_get (en_jobs e) x) else held_req (en_jobs e) x)" for x
    using c(5) by (auto simp: held_req_restated [OF c(6)])
  moreover have "\<forall>d\<in>set ds. held_req (en_jobs e) (dec_job d) = None" using c(5) by (auto simp: held_req_def)
  ultimately have "binds (held_req jobs') (en_running e @ rs) (en_reconciling e) (en_quiescing e)"
    using binds_placed [OF bi p c(4)] by blast
  moreover have "\<forall>x\<in>set (en_reconciling e). in_state jobs' x Running"
    using I by (auto simp: in_state_restated [OF c(6)]) (auto simp: in_state_def)
  moreover have "ended jobs' = ended (en_jobs e)"
    using c(5) by (auto simp: ended_restated [OF c(6)]) (auto simp: ended_def)
  then have "term_ok jobs' (en_terminal e)"
    using tm shape_issued [of jobs' "en_jobs e"] same by (auto simp: term_ok_def same_jobs_live [OF same] same_jobs_def)
  ultimately have "engine_inv L (?e\<lparr>en_running := en_running e @ rs, en_journal := J, en_overflow := ov\<rparr>)"
    using I c(2) bn data_ok_same [OF da same] l(3) by (simp add: engine_inv_def engine_core_def)
  with c(1) l(1) show ?thesis by auto
qed

section \<open>Evictions\<close>

lemma dispatch_durably_running: "en_running (fst (dispatch_durably M e w d)) = en_running e"
  by (auto simp: dispatch_durably_def push_dispatch_def split: option.splits prod.splits sum.splits)

lemma engine_inv_preempt:
  assumes inv: "engine_inv L e" and s: "sched_inv s' (arena_put (en_jobs e) i (j\<lparr>state := Preempted\<rparr>))"
    and j: "arena_get (en_jobs e) i = Some j" "state j = Running" and i: "i \<in> run_job ` set (en_running e)"
    and J: "journal_ok (crc32 L) J"
  shows "engine_inv L (e\<lparr>en_scheduler := s', en_jobs := arena_put (en_jobs e) i (j\<lparr>state := Preempted\<rparr>), en_journal := J\<rparr>)"
proof -
  note I = inv [unfolded engine_inv_def engine_core_def]
  let ?jobs = "arena_put (en_jobs e) i (j\<lparr>state := Preempted\<rparr>)"
  have same: "same_jobs (en_jobs e) ?jobs" by (rule same_jobs_put [OF j(1)]) simp
  have h: "held_req ?jobs = held_req (en_jobs e)"
    using j by (auto simp: held_req_put [OF j(1)] held_req_def fun_eq_iff)
  have "i \<notin> set (en_reconciling e)" using I i by (auto simp: binds_def)
  then have "\<forall>x\<in>set (en_reconciling e). in_state ?jobs x Running" using I by (auto simp: in_state_put [OF j(1)])
  moreover have "ended ?jobs = ended (en_jobs e)" using j by (auto simp: ended_put [OF j(1)]) (auto simp: ended_def)
  then have "term_ok ?jobs (en_terminal e)" using I by (auto simp: term_ok_def issued_put same_jobs_live [OF same])
  ultimately show ?thesis using I s J h data_ok_same [OF _ same] by (simp add: engine_inv_def engine_core_def)
qed

lemma evict_one_inv:
  assumes inv: "engine_inv L e" and i: "ev_job ev \<in> run_job ` set (en_running e)"
  shows "\<exists>e' w'. evict_one L now ev (e, w) = Some (e', w') \<and> engine_inv L e' \<and> en_running e' = en_running e"
proof -
  have s: "sched_inv (en_scheduler e) (en_jobs e)" using inv by (simp add: engine_inv_def engine_core_def)
  from sched_preempt_spec [OF s, of "ev_job ev"] obtain jobs' r where
    c: "sched_preempt (en_scheduler e) (ev_job ev) (en_jobs e) = Some (en_scheduler e, jobs', r)" "sched_inv (en_scheduler e) jobs'"
      "case arena_get (en_jobs e) (ev_job ev) of None \<Rightarrow> r = Inl (UnknownJob (ev_job ev)) \<and> jobs' = en_jobs e
        | Some j \<Rightarrow> if state j = Running then r = Inr () \<and> jobs' = arena_put (en_jobs e) (ev_job ev) (j\<lparr>state := Preempted\<rparr>)
                    else r = Inl (Transition (TransitionError (state j) Preempted)) \<and> jobs' = en_jobs e" by blast
  show ?thesis
  proof (cases r)
    case (Inl err)
    with c(3) have "jobs' = en_jobs e" by (auto split: option.splits if_splits)
    with c(1) Inl inv show ?thesis by (simp add: evict_one_def with_sched_def)
  next
    case (Inr u)
    with c(3) obtain j where j: "arena_get (en_jobs e) (ev_job ev) = Some j" "state j = Running"
      "jobs' = arena_put (en_jobs e) (ev_job ev) (j\<lparr>state := Preempted\<rparr>)" by (auto split: option.splits if_splits)
    let ?e = "e\<lparr>en_scheduler := en_scheduler e, en_jobs := jobs'\<rparr>"
    from engine_record_ok [of L ?e "R_Preempted (ev_job ev) now"] inv obtain J where
      J: "engine_record L ?e (R_Preempted (ev_job ev) now) = Some (?e\<lparr>en_journal := J\<rparr>)" "journal_ok (crc32 L) J"
      by (auto simp: engine_inv_def engine_core_def)
    have "engine_inv L (?e\<lparr>en_journal := J\<rparr>)"
      using engine_inv_preempt [OF inv c(2) [unfolded j(3)] j(1,2) i J(2)] j(3) by simp
    from dispatch_durably_inv [OF this, of L w "Preempt (ev_slot ev) (ev_job ev) (grace (cc_preempt (en_cycle e)))"]
      dispatch_durably_running [of L "?e\<lparr>en_journal := J\<rparr>" w "Preempt (ev_slot ev) (ev_job ev) (grace (cc_preempt (en_cycle e)))"]
    show ?thesis
      using c(1) Inr J(1)
      by (cases "dispatch_durably L (?e\<lparr>en_journal := J\<rparr>) w (Preempt (ev_slot ev) (ev_job ev) (grace (cc_preempt (en_cycle e))))")
        (simp add: evict_one_def with_sched_def)
  qed
qed

lemma evict_loop_inv:
  assumes "engine_inv L e" and "\<forall>ev\<in>set evs. ev_job ev \<in> run_job ` set (en_running e)"
  shows "\<exists>e' w'. for_each (evict_one L now) evs (e, w) = Some (e', w') \<and> engine_inv L e'"
  using assms
proof (induction evs arbitrary: e w)
  case (Cons ev evs)
  from evict_one_inv [OF Cons.prems(1), of ev now w] Cons.prems(2) obtain e1 w1 where
    one: "evict_one L now ev (e, w) = Some (e1, w1)" "engine_inv L e1" "en_running e1 = en_running e" by auto
  from Cons.IH [OF one(2), of w1] Cons.prems(2) one show ?case by simp
qed simp

lemma planned_victims:
  assumes inv: "engine_inv L e"
  shows "\<exists>evs r. plan_preemption j (en_running e) (en_jobs e) (en_inventory e) now (cc_preempt (en_cycle e)) [] = Some (evs, r)
     \<and> (\<forall>ev\<in>set evs. ev_job ev \<in> run_job ` set (en_running e))"
proof -
  have len: "length (inv_slots (en_inventory e)) < 2 ^ 32" using inv by (simp add: engine_inv_def engine_core_def)
  show ?thesis
  proof (rule plan_preemption_cases [OF len, of j "en_running e" "en_jobs e" "cc_preempt (en_cycle e)" now "[]"])
    fix w vs l n
    assume a: "plan_preemption j (en_running e) (en_jobs e) (en_inventory e) now (cc_preempt (en_cycle e)) []
         = Some ([] @ map (\<lambda>v. \<lparr>ev_job = v_job v, ev_slot = w\<rparr>) (take n vs), Some w)"
      "slot_plan j (en_running e) (en_jobs e) (en_inventory e) now (cc_preempt (en_cycle e)) w = Some (vs, l, n)"
    have "v_job v \<in> run_job ` set (en_running e)" if "v \<in> set (take n vs)" for v
    proof -
      have "v \<in> set (slot_victims j (en_running e) (en_jobs e) (cc_preempt (en_cycle e)) w)"
        using slot_plan_Some [OF a(2)] in_set_takeD [OF that] by simp
      from slot_victims_eligible [OF this] show ?thesis by (metis imageI)
    qed
    with a(1) show ?thesis by fastforce
  qed auto
qed

lemma plan_evictions_inv:
  assumes inv: "engine_inv L e"
  shows "\<exists>e' w'. plan_evictions L head now (e, w) = Some (e', w') \<and> engine_inv L e'"
proof (cases "arena_get (en_jobs e) head")
  case None
  with inv show ?thesis by (simp add: plan_evictions_def)
next
  case (Some j)
  from planned_victims [OF inv, of j now] obtain evs r where
    p: "plan_preemption j (en_running e) (en_jobs e) (en_inventory e) now (cc_preempt (en_cycle e)) [] = Some (evs, r)"
      "\<forall>ev\<in>set evs. ev_job ev \<in> run_job ` set (en_running e)" by blast
  from evict_loop_inv [OF inv p(2), of now w] p(1) Some show ?thesis by (simp add: plan_evictions_def)
qed

section \<open>Demand\<close>

lemma iter_jobs:
  assumes "sched_inv s jobs"
  shows "\<exists>ijs. arena_iter jobs = Some ijs"
  using arena_iter_spec [OF jobs_okD(1) [OF sched_invD(1) [OF assms]]] by blast

lemma refresh_demand_inv:
  assumes inv: "engine_inv L e"
  shows "\<exists>e'. refresh_demand e = Some e' \<and> engine_inv L e'"
proof -
  have I: "sched_inv (en_scheduler e) (en_jobs e)" "en_worker_cpu e \<noteq> 0" "en_min_workers e \<le> en_max_workers e"
    using inv by (simp_all add: engine_inv_def engine_core_def)
  from iter_jobs [OF I(1)] obtain ijs where ijs: "arena_iter (en_jobs e) = Some ijs" by blast
  have d: "\<exists>n. div_ceil a (en_worker_cpu e) = Some n" for a using I(2) by (simp add: div_ceil_def)
  then obtain n where n: "div_ceil (cpu_of Ready ijs + cpu_of Running ijs) (en_worker_cpu e) = Some n" by blast
  have "\<exists>m. clamp (or_max (unat n)) (en_min_workers e) (en_max_workers e) = Some m" using I(3) by (simp add: clamp_def)
  with inv ijs n show ?thesis by (auto simp: refresh_demand_def Let_def engine_inv_def)
qed

section \<open>Retention\<close>

definition gens_left :: "job arena \<Rightarrow> bool" where
  "gens_left jobs \<longleftrightarrow> (\<forall>i j. arena_get jobs i = Some j \<longrightarrow> job_generation i \<noteq> - 1)"

lemma arena_remove_Some:
  assumes "arena_get jobs i = Some j"
  shows "\<exists>jobs'. arena_remove jobs i = (jobs', Some j)"
  using assms by (auto simp: arena_get_def arena_remove_def Let_def vec_get_def split: slot.splits if_splits)

lemma arena_remove_None:
  assumes "arena_get jobs i = None"
  shows "arena_remove jobs i = (jobs, None)"
  using assms by (auto simp: arena_get_def arena_remove_def Let_def vec_get_def split: slot.splits if_splits)

lemma engine_inv_forget:
  assumes inv: "engine_inv L (e\<lparr>en_terminal := (at, i) # ts\<rparr>)" and g: "gens_left (en_jobs e)"
    and j: "arena_get (en_jobs e) i = Some j" and J: "journal_ok (crc32 L) J"
  shows "engine_inv L (e\<lparr>en_jobs := fst (arena_remove (en_jobs e) i), en_journal := J, en_terminal := ts\<rparr>)"
    and "gens_left (fst (arena_remove (en_jobs e) i))"
proof -
  note I = inv [unfolded engine_inv_def engine_core_def, simplified]
  let ?jobs = "fst (arena_remove (en_jobs e) i)"
  have t: "term_ok (en_jobs e) ((at, i) # ts)" using I by blast
  with j have "i \<in> ended (en_jobs e)" by (auto simp: term_ok_def)
  with j have jt: "is_terminal (state j)" by (auto simp: ended_def)
  have gi: "job_generation i \<noteq> - 1" using g j by (auto simp: gens_left_def)
  have get: "arena_get ?jobs = (arena_get (en_jobs e))(i := None)"
    using arena_remove_get [of "en_jobs e" i] by (auto simp: fun_eq_iff)
  have s: "sched_inv (en_scheduler e) ?jobs" using forget_spec [OF _ j jt gi] I by blast
  have h: "held_req ?jobs = held_req (en_jobs e)" using j jt by (auto simp: held_req_def get fun_eq_iff)
  have "\<forall>x\<in>set (en_reconciling e). in_state ?jobs x Running"
    using I j jt by (auto simp: in_state_def get)
  moreover have "term_ok ?jobs ts"
    using t issued_remove [OF j gi] by (auto simp: term_ok_def ended_def get)
  moreover have "data_ok ?jobs" using I by (auto simp: data_ok_def get)
  ultimately show "engine_inv L (e\<lparr>en_jobs := ?jobs, en_journal := J, en_terminal := ts\<rparr>)"
    using I s h J by (simp add: engine_inv_def engine_core_def)
  show "gens_left ?jobs" using g by (auto simp: gens_left_def get)
qed

lemma forget_loop_inv:
  assumes "engine_inv L (e\<lparr>en_terminal := ts\<rparr>)" and "gens_left (en_jobs e)"
  shows "\<exists>e'. forget_loop L now ts e = Some e' \<and> engine_inv L e'"
  using assms
proof (induction ts arbitrary: e)
  case (Cons t ts)
  obtain at i where t: "t = (at, i)" by (cases t)
  show ?case
  proof (cases "saturating_sub_time now at < en_retain e")
    case True
    with Cons.prems t show ?thesis by simp
  next
    case False
    show ?thesis
    proof (cases "arena_get (en_jobs e) i")
      case None
      have "engine_inv L (e\<lparr>en_terminal := ts\<rparr>)"
        using Cons.prems(1) None t by (auto simp: engine_inv_def engine_core_def term_ok_def)
      from Cons.IH [OF this Cons.prems(2)] False None t show ?thesis by (simp add: arena_remove_None)
    next
      case (Some j)
      from arena_remove_Some [OF Some] obtain jobs' where r: "arena_remove (en_jobs e) i = (jobs', Some j)" by blast
      from engine_record_ok [of L "e\<lparr>en_jobs := jobs'\<rparr>" "R_Forgotten i"] Cons.prems(1) obtain J where
        J: "engine_record L (e\<lparr>en_jobs := jobs'\<rparr>) (R_Forgotten i) = Some (e\<lparr>en_jobs := jobs', en_journal := J\<rparr>)" "journal_ok (crc32 L) J"
        by (auto simp: engine_inv_def engine_core_def)
      let ?e = "e\<lparr>en_jobs := jobs', en_journal := J\<rparr>"
      have inv: "engine_inv L (?e\<lparr>en_terminal := ts\<rparr>)" "gens_left (en_jobs ?e)"
        using engine_inv_forget [OF Cons.prems(1) [unfolded t] Cons.prems(2) Some J(2)] r by simp_all
      have "forget_loop L now ((at, i) # ts) e = forget_loop L now ts ?e"
        using False J(1) by (subst forget_loop.simps) (simp add: r)
      with Cons.IH [OF inv] t show ?thesis by simp
    qed
  qed
qed simp

section \<open>The reconcile window\<close>

lemma binds_unheld: "binds H running held q \<Longrightarrow> binds (\<lambda>x. if x \<in> set held then None else H x) running [] q"
  by (auto simp: binds_def dom_def split: if_splits)

lemma expire_reconcile_inv:
  assumes inv: "engine_inv L e"
  shows "\<exists>e'. expire_reconcile L e now = Some e' \<and> engine_inv L e'"
proof -
  note I = inv [unfolded engine_inv_def engine_core_def]
  let ?until = "case en_reconcile_until e of Some t \<Rightarrow> t | None \<Rightarrow> time_saturating_add now (en_reconcile_window e)"
  show ?thesis
  proof (cases "en_reconciling e = [] \<or> now < ?until")
    case True
    with inv show ?thesis by (auto simp: expire_reconcile_def Let_def)
  next
    case False
    let ?e = "e\<lparr>en_reconciling := []\<rparr>" let ?ids = "en_reconciling e"
    have di: "distinct ?ids" using I by (auto simp: binds_def)
    have he: "\<forall>i\<in>set ?ids. held_req (en_jobs ?e) i \<noteq> None \<and> (True \<longrightarrow> in_state (en_jobs ?e) i Running)"
      using I by (auto simp: binds_def)
    have si: "sched_inv (en_scheduler ?e) (en_jobs ?e)" "journal_ok (crc32 L) (en_journal ?e)" using I by simp_all
    from requeue_all [OF di he si, of now] obtain s' jobs' J where
      q: "for_each (requeue_unclaimed L now) ?ids ?e = Some (?e\<lparr>en_scheduler := s', en_jobs := jobs', en_journal := J\<rparr>)"
        "sched_inv s' jobs'" "journal_ok (crc32 L) J" "same_jobs (en_jobs ?e) jobs'"
        "held_req jobs' = (\<lambda>x. if x \<in> set ?ids then None else held_req (en_jobs ?e) x)" "ended jobs' = ended (en_jobs ?e)"
      unfolding if_True by blast
    have en: "en_jobs ?e = en_jobs e" by simp
    have same: "same_jobs (en_jobs e) jobs'" using q(4) by simp
    have "term_ok jobs' (en_terminal e)"
      using I q(6) shape_issued [of jobs' "en_jobs e"] same by (auto simp: term_ok_def same_jobs_live [OF same] same_jobs_def)
    moreover have "held_req jobs' = (\<lambda>x. if x \<in> set ?ids then None else held_req (en_jobs e) x)"
      using q(5) unfolding en .
    then have "binds (held_req jobs') (en_running e) [] (en_quiescing e)" using binds_unheld I by auto
    ultimately have "engine_inv L (?e\<lparr>en_scheduler := s', en_jobs := jobs', en_journal := J\<rparr>)"
      using I q(2,3) data_ok_same [OF _ same] by (simp add: engine_inv_def engine_core_def)
    with False q(1) show ?thesis by (simp add: expire_reconcile_def Let_def)
  qed
qed

section \<open>The commit\<close>

lemma put_all_succeeds: "\<forall>x\<in>set xs. \<forall>b. \<exists>b'. put b x = Some b' \<Longrightarrow> \<exists>b'. put_all put b xs = Some b'"
  by (induction xs arbitrary: b) fastforce+

lemma iter_slots_length: "iter_slots n ss = Some xs \<Longrightarrow> length xs \<le> length ss"
  by (induction n ss arbitrary: xs rule: iter_slots.induct) (fastforce simp: bind_eq_Some_conv)+

lemma slots_fit:
  assumes d: "data_ok jobs" and n: "length (arena_slots jobs) < 2 ^ 32" and s: "s \<in> set (arena_slots jobs)"
  shows "slot_fits s"
proof (cases s)
  case (Occupied g j)
  from s obtain k where k: "k < length (arena_slots jobs)" "arena_slots jobs ! k = s" by (auto simp: in_set_conv_nth)
  then have "unat (word_of_nat k :: u32) = k" using n by (intro unat_word_of_nat_u32) simp
  with k Occupied have "arena_get jobs (job_id_new (word_of_nat k) g) = Some j" by (simp add: arena_get_alt)
  with d have "job_fits j" unfolding data_ok_def by blast
  with Occupied show ?thesis by (simp add: slot_fits_def)
qed (simp add: slot_fits_def)

lemma encode_snapshot_succeeds:
  assumes "\<forall>s\<in>set slots. slot_fits s" and "length slots < 2 ^ 32" and "length run < 2 ^ 32" and "length ls < 2 ^ 32"
  shows "\<exists>bytes. encode_snapshot hash buf at slots fh run ls = Some bytes"
proof -
  have "\<exists>b'. put_all put_slot b slots = Some b'" for b by (rule put_all_succeeds) (use assms(1) put_slot_wire in auto)
  then obtain b1 where b1: "put_all put_slot (put_u32 (put_u64 (buf @ SNAPSHOT_MAGIC) at) (word_of_nat (length slots))) slots = Some b1"
    by blast
  have "\<exists>b'. put_all (\<lambda>b i. Some (put_u64 b i)) b run = Some b'" for b by (rule put_all_succeeds) simp
  then obtain b2 where b2: "put_all (\<lambda>b i. Some (put_u64 b i)) (put_u32 (put_opt_u32 b1 fh) (word_of_nat (length run))) run = Some b2"
    by blast
  have "\<exists>b'. put_all (\<lambda>b x. Some (put_ledger b x)) b ls = Some b'" for b by (rule put_all_succeeds) simp
  then obtain b3 where "put_all (\<lambda>b x. Some (put_ledger b x)) (put_u32 b2 (word_of_nat (length ls))) ls = Some b3"
    by blast
  with assms b1 b2 show ?thesis by (simp add: encode_snapshot_def put_body_def expect_u32_def Let_def)
qed

lemma engine_snapshot_decodes:
  assumes inv: "engine_inv L e"
  shows "\<exists>bytes sn. engine_snapshot L e now = Some bytes \<and> decode_snapshot (crc32 L) bytes = Inr sn"
proof -
  have s: "sched_inv (en_scheduler e) (en_jobs e)" and d: "data_ok (en_jobs e)"
    using inv by (simp_all add: engine_inv_def engine_core_def)
  from iter_jobs [OF s] obtain ijs where ijs: "arena_iter (en_jobs e) = Some ijs" by blast
  note ok = jobs_okD [OF sched_invD(1) [OF s]]
  have n: "length (arena_slots (en_jobs e)) < 2 ^ 32" using ok(2) by simp
  have "length (ids_in Running ijs) \<le> length ijs" by (simp add: ids_in_def)
  also have "length ijs \<le> length (arena_slots (en_jobs e))" using ijs iter_slots_length unfolding arena_iter_def by blast
  finally have r: "length (ids_in Running ijs) < 2 ^ 32" using n by simp
  have l: "length (fs_ledgers (sc_fairshare (en_scheduler e))) < 2 ^ 32" using ok(3) by (simp add: fs_wf_def)
  from encode_snapshot_succeeds [OF _ n r l, of "crc32 L" "[]" now "arena_free_head (en_jobs e)"] slots_fit [OF d n]
  obtain bytes where b: "encode_snapshot (crc32 L) [] now (arena_slots (en_jobs e)) (arena_free_head (en_jobs e))
            (ids_in Running ijs) (fs_ledgers (sc_fairshare (en_scheduler e))) = Some bytes" by blast
  from snapshot_decodes [OF b] b ijs show ?thesis by (simp add: engine_snapshot_def)
qed

lemma commit_ok_default: "commit_ok hash commit_default"
  using commit_holds_default unfolding commit_ok_def by blast

lemma journal_commit_ok:
  assumes "journal_ok hash (Some jn)"
  shows "journal_ok hash (Some (fst (journal_commit jn)))"
  using assms commit_ok_default
  by (auto simp: journal_ok_def journal_commit_def try_send_def Let_def split: if_splits prod.splits)

lemma flush_ok:
  assumes "journal_ok hash J"
  shows "journal_ok hash (map_option flush J)"
  using assms commit_ok_default by (cases J) (auto simp: journal_ok_def flush_def send_def)

lemma attach_snapshot_ok:
  assumes ok: "journal_ok hash (Some jn)" and w: "wants_snapshot jn" and d: "decode_snapshot hash bytes = Inr sn"
  shows "journal_ok hash (Some (attach_snapshot jn bytes))"
proof -
  from ok obtain rs1 s rs2 where b: "commit_holds hash (jn_pending jn) (rs1, s, rs2)"
    by (auto simp: journal_ok_def commit_ok_def)
  with w have "rs1 = []" "s = None" by (auto simp: wants_snapshot_def commit_holds_def)
  with b have "commit_holds hash (jn_pending (attach_snapshot jn bytes)) (rs2, Some sn, [])"
    using attach_snapshot_holds [OF _ d] by simp
  then have "commit_ok hash (jn_pending (attach_snapshot jn bytes))" unfolding commit_ok_def by blast
  with ok show ?thesis by (simp add: journal_ok_def attach_snapshot_def)
qed

lemma commit_tick_inv:
  assumes inv: "engine_inv L e"
  shows "\<exists>e'. commit_tick L e now = Some e' \<and> engine_inv L e'"
proof (cases "en_journal e")
  case None
  with inv show ?thesis by (simp add: commit_tick_def)
next
  case (Some jn)
  have ok: "journal_ok (crc32 L) (Some jn)" using inv Some by (simp add: engine_inv_def engine_core_def)
  from engine_snapshot_decodes [OF inv, of now] obtain bytes sn where
    b: "engine_snapshot L e now = Some bytes" "decode_snapshot (crc32 L) bytes = Inr sn" by blast
  define jn1 where "jn1 = (if wants_snapshot jn then attach_snapshot jn bytes else jn)"
  have "journal_ok (crc32 L) (Some jn1)" using ok attach_snapshot_ok [OF ok _ b(2)] by (simp add: jn1_def)
  from engine_inv_journal [OF inv journal_commit_ok [OF this]]
  have "engine_inv L (e\<lparr>en_journal := Some (fst (journal_commit jn1))\<rparr>)" .
  moreover have "commit_tick L e now = Some (e\<lparr>en_journal := Some (fst (journal_commit jn1))\<rparr>)"
    using Some b(1) by (simp add: commit_tick_def jn1_def)
  ultimately show ?thesis by blast
qed

section \<open>The tick\<close>

lemma gens_left_shape: "arena_shape a = arena_shape b \<Longrightarrow> gens_left a \<longleftrightarrow> gens_left b"
  using shape_live [of a b] unfolding gens_left_def by (metis option.exhaust)

lemma dispatch_durably_jobs: "en_jobs (fst (dispatch_durably M e w d)) = en_jobs e"
  by (auto simp: dispatch_durably_def push_dispatch_def split: option.splits prod.splits sum.splits)

lemma engine_record_jobs: "engine_record L e rec = Some e' \<Longrightarrow> en_jobs e' = en_jobs e"
  by (auto simp: engine_record_def split: option.splits Option.bind_split_asm)

lemma on_dispatched_jobs: "on_dispatched L now d ew = Some ew' \<Longrightarrow> en_jobs (fst ew') = en_jobs (fst ew)"
  by (auto simp: on_dispatched_def Let_def bind_eq_Some_conv dispatch_durably_jobs
      dest!: engine_record_jobs split: prod.splits option.splits)

lemma dispatched_jobs: "for_each (on_dispatched L now) ds ew = Some ew' \<Longrightarrow> en_jobs (fst ew') = en_jobs (fst ew)"
  by (induction ds arbitrary: ew) (auto simp: bind_eq_Some_conv dest!: on_dispatched_jobs)

lemma evict_one_shape:
  "evict_one L now ev ew = Some ew' \<Longrightarrow> arena_shape (en_jobs (fst ew')) = arena_shape (en_jobs (fst ew))"
  by (auto simp: evict_one_def with_sched_def bind_eq_Some_conv dispatch_durably_jobs
      dest!: engine_record_jobs sched_preempt_shape split: prod.split_asm sum.split_asm)
    (metis old.unit.exhaust sum.exhaust)

lemma evicts_shape:
  "for_each (evict_one L now) evs ew = Some ew' \<Longrightarrow> arena_shape (en_jobs (fst ew')) = arena_shape (en_jobs (fst ew))"
  by (induction evs arbitrary: ew) (auto simp: bind_eq_Some_conv dest!: evict_one_shape)

lemma plan_evictions_shape:
  "plan_evictions L head now ew = Some ew' \<Longrightarrow> arena_shape (en_jobs (fst ew')) = arena_shape (en_jobs (fst ew))"
  unfolding plan_evictions_def Let_def by (cases ew) (auto simp only: prod.case fst_conv bind_eq_Some_conv dest!: evicts_shape)

lemma refresh_demand_jobs: "refresh_demand e = Some e' \<Longrightarrow> en_jobs e' = en_jobs e"
  by (auto simp: refresh_demand_def Let_def bind_eq_Some_conv)

lemma tick_inv:
  assumes inv: "engine_inv L e" and g: "gens_left (en_jobs e)"
  shows "\<exists>e' w' out. tick L now (e, w) = Some ((e', w'), out) \<and> engine_inv L e'"
proof -
  obtain ds w0 where f: "flush_rev L (rev (en_overflow e)) w = (ds, w0)" by (cases "flush_rev L (rev (en_overflow e)) w")
  let ?e = "e\<lparr>en_overflow := rev ds\<rparr>"
  have "engine_inv L ?e" using inv by simp
  from cycle_inv [OF this, of now w0] obtain s1 jobs1 iv1 ds1 out ew1 where
    c: "run_cycle (en_scheduler ?e) (en_jobs ?e) (en_inventory ?e) (en_running ?e) now (en_cycle ?e) [] = Some (s1, jobs1, iv1, ds1, out)"
      "for_each (on_dispatched L now) ds1 (?e\<lparr>en_scheduler := s1, en_jobs := jobs1, en_inventory := iv1\<rparr>, w0) = Some ew1"
      "engine_inv L (fst ew1)" by blast
  have g1: "gens_left (en_jobs (fst ew1))"
    using g gens_left_shape [OF run_cycle_shape [OF c(1)]] dispatched_jobs [OF c(2)] by simp
  obtain e2 w2 where p: "(case co_head out of None \<Rightarrow> Some ew1 | Some head \<Rightarrow> plan_evictions L head now ew1) = Some (e2, w2)"
      "engine_inv L e2" "gens_left (en_jobs e2)"
  proof (cases "co_head out")
    case None
    with that [of "fst ew1" "snd ew1"] c(3) g1 show thesis by simp
  next
    case (Some head)
    from plan_evictions_inv [OF c(3), of head now "snd ew1"] obtain e2 w2 where
      e2: "plan_evictions L head now ew1 = Some (e2, w2)" "engine_inv L e2" by auto
    have "gens_left (en_jobs e2)" using gens_left_shape [OF plan_evictions_shape [OF e2(1)]] g1 by simp
    with that e2 Some show thesis by simp
  qed
  have "engine_inv L (e2\<lparr>en_cycles := en_cycles e2 + 1\<rparr>)" using p(2) by simp
  from refresh_demand_inv [OF this] obtain e3 where
    r: "refresh_demand (e2\<lparr>en_cycles := en_cycles e2 + 1\<rparr>) = Some e3" "engine_inv L e3" by blast
  define e4 where "e4 = (if saturating_sub_time now (en_account_metrics_at e3) \<ge> from_secs 1
                    then e3\<lparr>en_account_metrics_at := now\<rparr> else e3)"
  have "engine_inv L (e4\<lparr>en_terminal := en_terminal e4\<rparr>)" "gens_left (en_jobs e4)"
    using r(2) p(3) refresh_demand_jobs [OF r(1)] by (simp_all add: e4_def)
  from forget_loop_inv [OF this, of now] obtain e5 where e5: "forget_expired L e4 now = Some e5" "engine_inv L e5"
    by (auto simp: forget_expired_def)
  from expire_reconcile_inv [OF e5(2), of now] obtain e6 where e6: "expire_reconcile L e5 now = Some e6" "engine_inv L e6" by blast
  from commit_tick_inv [OF e6(2), of now] obtain e7 where e7: "commit_tick L e6 now = Some e7" "engine_inv L e7" by blast
  have "tick L now (e, w) = Some ((e7, w2), out)"
    using c(1,2) p(1) r(1) e5(1) e6(1) e7(1) f by (simp add: tick_def flush_overflow_def Let_def e4_def)
  with e7(2) show ?thesis by blast
qed

end
