(* ===== verification/Engine_Recover.thy ===== *)
theory Engine_Recover
  imports Engine
begin

text \<open>
  Rebuilding the engine from what the data directory holds, from \<open>taskerd/src/engine.rs\<close>: the
  snapshot is loaded, every record is replayed through the calls the live engine makes, running jobs
  are held for their workers and evicted ones go back to the queue. The clock continues behind the
  last recorded time.
\<close>

section \<open>Model\<close>

text \<open>The clock of \<open>clock.rs\<close>: an origin that only rises, and the nanoseconds since the first reading.\<close>

definition set_origin :: "u64 \<Rightarrow> virtual_time \<Rightarrow> u64" where
  "set_origin old origin = max old origin"

definition clock_now :: "u64 \<Rightarrow> nat \<Rightarrow> virtual_time" where
  "clock_now origin elapsed = saturating_add origin (or_max elapsed)"

fun to_submitted :: "job slot \<Rightarrow> job slot" where
  "to_submitted (Occupied g j) = Occupied g (if is_terminal (state j) then j else j\<lparr>state := Submitted\<rparr>)"
| "to_submitted (Vacant g nf) = Vacant g nf"

text \<open>A result in the option monad: \<open>?\<close> of the source on a \<open>Result\<close>.\<close>

definition try_step :: "('e + 'a) option \<Rightarrow> ('a \<Rightarrow> ('e + 'b) option) \<Rightarrow> ('e + 'b) option" where
  "try_step m f = (case m of None \<Rightarrow> None | Some (Inl e) \<Rightarrow> Some (Inl e) | Some (Inr x) \<Rightarrow> f x)"

definition try_sched :: "engine \<Rightarrow> 'a call \<Rightarrow> (recover_error + engine \<times> 'a) option" where
  "try_sched e c =
     do { (e, r) \<leftarrow> with_sched e c;
          Some (case r of Inl err \<Rightarrow> Inl (RE_Lifecycle err) | Inr x \<Rightarrow> Inr (e, x)) }"

fun restore_jobs :: "(job_id \<times> job_state) list \<Rightarrow> virtual_time \<Rightarrow> engine \<Rightarrow> (recover_error + engine) option" where
  "restore_jobs [] at e = Some (Inr e)"
| "restore_jobs ((i, st) # ids) at e =
     (if is_terminal st then restore_jobs ids at (note_terminal e i at)
      else try_step (try_sched e (submit (en_scheduler e) i (en_jobs e) at (en_cycle e))) (\<lambda>(e, st).
             restore_jobs ids at (if is_terminal st then note_terminal e i at else e)))"

fun restore_all_running :: "job_id list \<Rightarrow> virtual_time \<Rightarrow> engine \<Rightarrow> (recover_error + engine) option" where
  "restore_all_running [] at e = Some (Inr e)"
| "restore_all_running (i # ids) at e =
     try_step (try_sched e (restore_running (en_scheduler e) i (en_jobs e) at (en_cycle e))) (\<lambda>(e, u).
       restore_all_running ids at e)"

definition restore_snapshot :: "engine \<Rightarrow> snapshot \<Rightarrow> (recover_error + engine \<times> virtual_time) option" where
  "restore_snapshot e sn =
     (let at = sn_taken_at sn
      in case arena_from_parts (map to_submitted (sn_slots sn)) (sn_free_head sn) of
           Inl err \<Rightarrow> Some (Inl (RE_Arena err))
         | Inr jobs \<Rightarrow>
             do { ijs \<leftarrow> arena_iter jobs;
                  try_step (restore_jobs (map (\<lambda>(i, j). (i, state j)) ijs) at (e\<lparr>en_jobs := jobs\<rparr>)) (\<lambda>e.
                  try_step (restore_all_running (sn_running sn) at e) (\<lambda>e.
                  case restore_ledgers (en_scheduler e) (sn_ledgers sn) of
                    (s, Inl err) \<Rightarrow> Some (Inl (RE_Lifecycle err))
                  | (s, Inr u) \<Rightarrow> Some (Inr (e\<lparr>en_scheduler := s\<rparr>, at)))) })"

fun apply_record :: "wal_record \<Rightarrow> engine \<times> virtual_time \<Rightarrow> (recover_error + engine \<times> virtual_time) option" where
  "apply_record (R_Submitted i j) (e, latest) =
     do { nxt \<leftarrow> next_id (en_jobs e);
          if nxt \<noteq> i then Some (Inl (IdMismatch i nxt))
          else
            let at = submit_time j
            in do { (jobs, _) \<leftarrow> arena_insert (en_jobs e) j;
                    try_step (try_sched (e\<lparr>en_jobs := jobs\<rparr>) (submit (en_scheduler e) i jobs at (en_cycle e)))
                      (\<lambda>(e, st). Some (Inr (if is_terminal st then note_terminal e i at else e, max latest at))) } }"
| "apply_record (R_Dispatched i at) (e, latest) =
     try_step (try_sched e (restore_running (en_scheduler e) i (en_jobs e) at (en_cycle e)))
       (\<lambda>(e, u). Some (Inr (e, max latest at)))"
| "apply_record (R_Completed i at) (e, latest) =
     try_step (try_sched e (sched_on_completed (en_scheduler e) i (en_jobs e) at (en_cycle e)))
       (\<lambda>(e, promoted). Some (Inr (note_terminal e i at, max latest at)))"
| "apply_record (R_Failed i at) (e, latest) =
     try_step (try_sched e (on_failed (en_scheduler e) i (en_jobs e) at (en_cycle e)))
       (\<lambda>(e, cascade). Some (Inr (note_all (note_terminal e i at) cascade at, max latest at)))"
| "apply_record (R_Cancelled i at) (e, latest) =
     try_step (try_sched e (cancel (en_scheduler e) i (en_jobs e) at (en_cycle e)))
       (\<lambda>(e, cascade). Some (Inr (note_all (note_terminal e i at) cascade at, max latest at)))"
| "apply_record (R_Requeued i at) (e, latest) =
     try_step (try_sched e (requeue (en_scheduler e) i (en_jobs e) at (en_cycle e)))
       (\<lambda>(e, u). Some (Inr (e, max latest at)))"
| "apply_record (R_Preempted i at) (e, latest) =
     try_step (try_sched e (sched_preempt (en_scheduler e) i (en_jobs e)))
       (\<lambda>(e, u). Some (Inr (e, max latest at)))"
| "apply_record (R_Forgotten i) (e, latest) = Some (Inr (e\<lparr>en_jobs := fst (arena_remove (en_jobs e) i)\<rparr>, latest))"

fun apply_records ::
  "wal_record list \<Rightarrow> engine \<times> virtual_time \<Rightarrow> (recover_error + engine \<times> virtual_time) option" where
  "apply_records [] el = Some (Inr el)"
| "apply_records (r # rs) el = try_step (apply_record r el) (apply_records rs)"

fun requeue_evicting :: "job_id list \<Rightarrow> virtual_time \<Rightarrow> engine \<Rightarrow> (recover_error + engine) option" where
  "requeue_evicting [] at e = Some (Inr e)"
| "requeue_evicting (i # ids) at e =
     try_step (try_sched e (requeue (en_scheduler e) i (en_jobs e) at (en_cycle e))) (\<lambda>(e, u).
       requeue_evicting ids at e)"

text \<open>The result carries the origin the clock is set to.\<close>

definition engine_recover ::
  "'q libs \<Rightarrow> daemon_config \<Rightarrow> recovered \<Rightarrow> journal \<Rightarrow> (recover_error + engine \<times> virtual_time) option" where
  "engine_recover L config rc jn =
     do { e \<leftarrow> engine_build config (Some jn);
          try_step (case rc_snapshot rc of Some sn \<Rightarrow> restore_snapshot e sn | None \<Rightarrow> Some (Inr (e, 0))) (\<lambda>el.
          try_step (apply_records (rc_records rc) el) (\<lambda>(e, latest).
          do { ijs \<leftarrow> arena_iter (en_jobs e);
               try_step (requeue_evicting (ids_in Preempted ijs) latest (e\<lparr>en_reconciling := ids_in Running ijs\<rparr>)) (\<lambda>e.
               do { snap \<leftarrow> engine_snapshot L e latest;
                    Some (Inr (e\<lparr>en_journal := map_option (\<lambda>jn. attach_snapshot jn snap) (en_journal e)\<rparr>,
                               time_saturating_add latest 1)) }) })) }"

section \<open>What a snapshot holds\<close>

text \<open>What a snapshot of the engine decodes to.\<close>

definition snapshot_of :: "engine \<Rightarrow> virtual_time \<Rightarrow> snapshot option" where
  "snapshot_of e at =
     map_option (\<lambda>ijs. \<lparr>sn_taken_at = at, sn_slots = arena_slots (en_jobs e), sn_free_head = arena_free_head (en_jobs e),
        sn_running = ids_in Running ijs, sn_ledgers = fs_ledgers (sc_fairshare (en_scheduler e))\<rparr>) (arena_iter (en_jobs e))"

lemma snapshot_of_encoded:
  "engine_snapshot L e at = Some bytes \<Longrightarrow> \<exists>sn. snapshot_of e at = Some sn \<and> decode_snapshot (crc32 L) bytes = Inr sn"
  using snapshot_decodes by (fastforce simp: engine_snapshot_def snapshot_of_def bind_eq_Some_conv)

end
