(* ===== verification/Replay.thy ===== *)
theory Replay
  imports Engine_Tick Engine_Recover
begin

text \<open>
  What replaying a record does. Two arenas are alike when they have the same shape and their jobs
  differ at most in the number of preemptions, which the log does not carry. For every record, if
  the live engine's arena changes the way the record stands for, then replaying the record on an
  engine with an arena alike succeeds and leaves one alike.
\<close>

section \<open>Arenas alike\<close>

definition bare :: "job \<Rightarrow> job" where
  "bare j = j\<lparr>preemptions := 0\<rparr>"

definition alike :: "job arena \<Rightarrow> job arena \<Rightarrow> bool" where
  "alike a b \<longleftrightarrow> arena_shape b = arena_shape a
     \<and> (\<forall>i. map_option bare (arena_get b i) = map_option bare (arena_get a i))"

lemma alike_refl [simp]: "alike a a"
  by (simp add: alike_def)

lemma bareD:
  assumes "bare j = bare k"
  shows "state j = state k" "deps j = deps k" "bare (j\<lparr>state := st\<rparr>) = bare (k\<lparr>state := st\<rparr>)"
proof -
  show "state j = state k" "deps j = deps k"
    using arg_cong [OF assms, of state] arg_cong [OF assms, of deps] by (simp_all add: bare_def)
  have "bare (j\<lparr>state := st\<rparr>) = (bare j)\<lparr>state := st\<rparr>" for j by (simp add: bare_def)
  with assms show "bare (j\<lparr>state := st\<rparr>) = bare (k\<lparr>state := st\<rparr>)" by simp
qed

lemma alike_get:
  assumes "alike a b" and "arena_get a i = Some j"
  obtains k where "arena_get b i = Some k" "bare k = bare j"
proof -
  from assms have "map_option bare (arena_get b i) = Some (bare j)" unfolding alike_def by (metis option.simps(9))
  with that show thesis by (cases "arena_get b i") auto
qed

lemma alike_state: "alike a b \<Longrightarrow> map_option state (arena_get b i) = map_option state (arena_get a i)"
  and alike_deps: "alike a b \<Longrightarrow> map_option deps (arena_get b i) = map_option deps (arena_get a i)"
proof -
  assume "alike a b"
  then have e: "map_option bare (arena_get b i) = map_option bare (arena_get a i)" by (simp add: alike_def)
  have "map_option state (map_option bare x) = map_option state x" "map_option deps (map_option bare x) = map_option deps x" for x
    by (cases x; simp add: bare_def)+
  then show "map_option state (arena_get b i) = map_option state (arena_get a i)"
    "map_option deps (arena_get b i) = map_option deps (arena_get a i)" using e by metis+
qed

lemma alike_pending: "alike a b \<Longrightarrow> dep_pending b = dep_pending a"
proof
  fix d assume "alike a b"
  from alike_state [OF this, of d] show "dep_pending b d = dep_pending a d"
    by (auto simp: dep_pending_def split: option.splits)
qed

lemma alike_waits_on: "alike a b \<Longrightarrow> waits_on b = waits_on a"
proof -
  assume al: "alike a b"
  have "(\<exists>k. arena_get b y = Some k \<and> x \<in> set (deps k)) \<longleftrightarrow> (\<exists>k. arena_get a y = Some k \<and> x \<in> set (deps k))" for x y
    using alike_deps [OF al, of y] by (auto simp: map_option_case split: option.splits)
  then show ?thesis by (simp add: waits_on_def alike_pending [OF al])
qed

lemma alike_classify: "alike a b \<Longrightarrow> classify_loop i b ds n = classify_loop i a ds n"
proof (induction ds arbitrary: n)
  case (Cons d ds)
  from alike_state [OF Cons.prems, of d] Cons show ?case by (auto split: option.splits job_state.splits)
qed simp

lemma alike_put:
  assumes "alike a b" and "arena_get a i = Some j" and "arena_get b i = Some k" and "bare k' = bare j'"
  shows "alike (arena_put a i j') (arena_put b i k')"
  using assms by (simp add: alike_def shape_put arena_put_get)

lemma alike_restated:
  assumes al: "alike a b" and a: "restated st S a a'" "arena_shape a' = arena_shape a"
    and b: "restated st S b b'" "arena_shape b' = arena_shape b"
  shows "alike a' b'"
proof -
  have f: "map_option bare (map_option (\<lambda>j. j\<lparr>state := st\<rparr>) x) = map_option (\<lambda>j. j\<lparr>state := st\<rparr>) (map_option bare x)" for x
    by (cases x) (simp_all add: bare_def)
  show ?thesis using al a(2) b(2) by (auto simp: alike_def a(1) [unfolded restated_def] b(1) [unfolded restated_def] f)
qed

lemma alike_insert:
  assumes al: "alike a b" and wf: "arena_wf a" "arena_wf b" and ins: "arena_insert a j = Some (a1, i)"
  shows "\<exists>b1. arena_insert b j = Some (b1, i) \<and> next_id b = Some i \<and> alike a1 b1"
proof -
  have sh: "arena_shape b = arena_shape a" using al by (simp add: alike_def)
  have nx: "next_id b = Some i" using arena_insert_next_id [OF ins] shape_next_id [OF sh] by simp
  have "arena_room b"
  proof -
    from ins have "arena_room a" by (cases rule: arena_insert_cases) (simp_all add: arena_room_def)
    moreover have "arena_free_head b = arena_free_head a" using sh by (simp add: arena_shape_def)
    ultimately show ?thesis using shape_length [OF sh] by (simp add: arena_room_def)
  qed
  from arena_insert_succeeds [OF wf(2) this] obtain b1 k where b1: "arena_insert b j = Some (b1, k)" by blast
  from shape_insert [OF sh b1 ins] have "k = i" "arena_shape b1 = arena_shape a1" by simp_all
  moreover from this have "alike a1 b1"
    using al by (simp add: alike_def arena_insert_get [OF wf(1) ins] arena_insert_get [OF wf(2) b1])
  ultimately show ?thesis using b1 nx by blast
qed

lemma alike_remove:
  assumes "alike a b"
  shows "alike (fst (arena_remove a i)) (fst (arena_remove b i))"
  using assms shape_remove [of b a i] by (simp add: alike_def arena_remove_get)

section \<open>Replaying one record\<close>

definition mirrors :: "job arena \<Rightarrow> engine \<Rightarrow> bool" where
  "mirrors jobs r \<longleftrightarrow> sched_inv (en_scheduler r) (en_jobs r) \<and> alike jobs (en_jobs r) \<and> term_ok (en_jobs r) (en_terminal r)"

lemma mirrorsD:
  assumes "mirrors jobs r"
  shows "sched_inv (en_scheduler r) (en_jobs r)" and "alike jobs (en_jobs r)" and "term_ok (en_jobs r) (en_terminal r)"
  using assms by (simp_all add: mirrors_def)

lemma term_ok_put:
  assumes "term_ok jobs ts" and j: "arena_get jobs i = Some j" "\<not> is_terminal (state j)" and "\<not> is_terminal (state k)"
  shows "term_ok (arena_put jobs i k) ts"
proof -
  have "ended (arena_put jobs i k) = ended jobs" using j assms(4) by (auto simp: ended_def arena_put_get)
  with assms(1) j(1) show ?thesis by (auto simp: term_ok_def issued_put arena_put_get)
qed

lemma term_ok_insert:
  assumes t: "term_ok jobs ts" and wf: "arena_wf jobs" and ins: "arena_insert jobs j = Some (jobs1, i)"
  shows "term_ok (arena_put jobs1 i k) (ts @ map (Pair at) (if is_terminal (state k) then [i] else []))"
proof -
  have "arena_get jobs1 i = Some j" using arena_insert_get [OF wf ins] by simp
  then have g: "arena_get (arena_put jobs1 i k) = (arena_get jobs)(i \<mapsto> k)"
    using arena_insert_get [OF wf ins] by (auto simp: arena_put_get fun_eq_iff)
  have n: "\<not> issued jobs i" by (rule insert_not_issued [OF ins])
  then have gi: "arena_get jobs i = None" using live_issued [of jobs i] by (cases "arena_get jobs i") auto
  have iss: "issued (arena_put jobs1 i k) i" using g live_issued [of "arena_put jobs1 i k" i k] by simp
  have e: "ended (arena_put jobs1 i k) = (if is_terminal (state k) then insert i (ended jobs) else ended jobs)"
    using gi by (auto simp: ended_def g)
  have ni: "i \<notin> snd ` set ts" using t n by (auto simp: term_ok_def)
  have snd: "snd ` set (ts @ map (Pair at) (if is_terminal (state k) then [i] else [])) = snd ` set ts \<union> (if is_terminal (state k) then {i} else {})"
    by auto
  show ?thesis
    unfolding term_ok_def snd e using t iss ni issued_insert [OF ins] by (auto simp: term_ok_def g issued_put)
qed

lemma term_ok_remove:
  assumes t: "term_ok jobs ts" and j: "arena_get jobs i = Some j" and g: "job_generation i \<noteq> - 1"
  shows "term_ok (fst (arena_remove jobs i)) ts"
  using t issued_remove [OF j g] by (auto simp: term_ok_def ended_def arena_remove_get)

lemma term_ok_note:
  assumes "term_ok jobs (en_terminal e)" and "frees i S jobs jobs'" and "insert x (set ids) = S"
  shows "term_ok jobs' (en_terminal (note_all (note_terminal e x at) ids at))"
  using term_ok_frees [OF assms(1,2), of "x # ids" at] assms(3) by (simp add: note_all_eq note_terminal_def)

definition follows :: "job arena \<Rightarrow> wal_record list \<Rightarrow> job arena \<Rightarrow> bool" where
  "follows jobs rs jobs' \<longleftrightarrow>
     (\<forall>r t. mirrors jobs r \<longrightarrow> (\<exists>r' t'. apply_records rs (r, t) = Some (Inr (r', t')) \<and> mirrors jobs' r'))"

lemma follows_Nil [simp]: "follows jobs [] jobs"
  by (simp add: follows_def)

lemma apply_records_append:
  "apply_records (rs @ qs) el = try_step (apply_records rs el) (apply_records qs)"
  by (induction rs arbitrary: el) (auto simp: try_step_def split: option.splits sum.splits)

lemma follows_trans: "follows a rs b \<Longrightarrow> follows b qs c \<Longrightarrow> follows a (rs @ qs) c"
proof -
  assume a: "follows a rs b" and b: "follows b qs c"
  show ?thesis
    unfolding follows_def apply_records_append
  proof (intro allI impI)
    fix r t assume "mirrors a r"
    then obtain r1 t1 where 1: "apply_records rs (r, t) = Some (Inr (r1, t1))" "mirrors b r1" using a unfolding follows_def by blast
    then obtain r2 t2 where "apply_records qs (r1, t1) = Some (Inr (r2, t2))" "mirrors c r2" using b unfolding follows_def by blast
    with 1 show "\<exists>r' t'. try_step (apply_records rs (r, t)) (apply_records qs) = Some (Inr (r', t')) \<and> mirrors c r'"
      by (simp add: try_step_def)
  qed
qed

lemma follows_one:
  assumes "\<And>r t. mirrors jobs r \<Longrightarrow> \<exists>r' t'. apply_record rec (r, t) = Some (Inr (r', t')) \<and> mirrors jobs' r'"
  shows "follows jobs [rec] jobs'"
  unfolding follows_def
proof (intro allI impI)
  fix r t assume "mirrors jobs r"
  from assms [OF this, of t] obtain r' t' where "apply_record rec (r, t) = Some (Inr (r', t'))" "mirrors jobs' r'" by blast
  then show "\<exists>r' t'. apply_records [rec] (r, t) = Some (Inr (r', t')) \<and> mirrors jobs' r'" by (simp add: try_step_def)
qed

lemma try_sched_Inr: "try_sched e (Some (s, jobs, Inr x)) = Some (Inr (e\<lparr>en_scheduler := s, en_jobs := jobs\<rparr>, x))"
  by (simp add: try_sched_def with_sched_def)

lemma note_all_fields [simp]:
  "en_scheduler (note_all e is at) = en_scheduler e" "en_jobs (note_all e is at) = en_jobs e"
  by (induction "is" arbitrary: e) (simp_all add: note_all_def note_terminal_def)

lemma note_terminal_fields [simp]:
  "en_scheduler (note_terminal e i at) = en_scheduler e" "en_jobs (note_terminal e i at) = en_jobs e"
  by (simp_all add: note_terminal_def)

text \<open>The records that change the state of one job.\<close>

lemma follows_put:
  assumes j: "arena_get jobs i = Some j" and k: "bare k = bare (j\<lparr>state := st\<rparr>)" and live: "\<not> is_terminal (state j)" "\<not> is_terminal st"
    and replay: "\<And>(r :: engine) t j'. sched_inv (en_scheduler r) (en_jobs r) \<Longrightarrow> arena_get (en_jobs r) i = Some j' \<Longrightarrow> state j' = state j \<Longrightarrow>
      \<exists>s' t'. apply_record rec (r, t) = Some (Inr (r\<lparr>en_scheduler := s', en_jobs := arena_put (en_jobs r) i (j'\<lparr>state := st\<rparr>)\<rparr>, t'))
        \<and> sched_inv s' (arena_put (en_jobs r) i (j'\<lparr>state := st\<rparr>))"
  shows "follows jobs [rec] (arena_put jobs i k)"
proof (rule follows_one)
  fix r t assume m: "mirrors jobs r"
  note s = mirrorsD(1) [OF m] and al = mirrorsD(2) [OF m] and tm = mirrorsD(3) [OF m]
  from alike_get [OF al j] obtain j' where j': "arena_get (en_jobs r) i = Some j'" "bare j' = bare j" .
  from replay [OF s j'(1) bareD(1) [OF j'(2)], of t] obtain s' t' where
    q: "apply_record rec (r, t) = Some (Inr (r\<lparr>en_scheduler := s', en_jobs := arena_put (en_jobs r) i (j'\<lparr>state := st\<rparr>)\<rparr>, t'))"
      "sched_inv s' (arena_put (en_jobs r) i (j'\<lparr>state := st\<rparr>))" by blast
  have "alike (arena_put jobs i k) (arena_put (en_jobs r) i (j'\<lparr>state := st\<rparr>))"
    by (rule alike_put [OF al j j'(1)]) (simp add: k bareD(3) [OF j'(2)])
  moreover have "term_ok (arena_put (en_jobs r) i (j'\<lparr>state := st\<rparr>)) (en_terminal r)"
    by (rule term_ok_put [OF tm j'(1)]) (use live bareD(1) [OF j'(2)] in simp_all)
  ultimately have "mirrors (arena_put jobs i k) (r\<lparr>en_scheduler := s', en_jobs := arena_put (en_jobs r) i (j'\<lparr>state := st\<rparr>)\<rparr>)"
    using q(2) by (simp add: mirrors_def)
  with q(1) show "\<exists>r' t'. apply_record rec (r, t) = Some (Inr (r', t')) \<and> mirrors (arena_put jobs i k) r'" by blast
qed

lemma follows_requeued:
  assumes j: "arena_get jobs i = Some j" "state j = Running \<or> state j = Preempted" and k: "bare k = bare (j\<lparr>state := Ready\<rparr>)"
  shows "follows jobs [R_Requeued i at] (arena_put jobs i k)"
proof (rule follows_put [OF j(1) k])
  fix r :: engine and t j' assume s: "sched_inv (en_scheduler r) (en_jobs r)" and j': "arena_get (en_jobs r) i = Some j'" "state j' = state j"
  from requeue_spec [OF s, of i at "en_cycle r"] j' j(2)
  show "\<exists>s' t'. apply_record (R_Requeued i at) (r, t)
        = Some (Inr (r\<lparr>en_scheduler := s', en_jobs := arena_put (en_jobs r) i (j'\<lparr>state := Ready\<rparr>)\<rparr>, t'))
      \<and> sched_inv s' (arena_put (en_jobs r) i (j'\<lparr>state := Ready\<rparr>))"
    by (auto simp: try_sched_Inr try_step_def; blast)
qed (use j(2) in auto)

lemma follows_preempted:
  assumes j: "arena_get jobs i = Some j" "state j = Running"
  shows "follows jobs [R_Preempted i at] (arena_put jobs i (j\<lparr>state := Preempted\<rparr>))"
proof (rule follows_put [OF j(1) refl])
  fix r :: engine and t j' assume s: "sched_inv (en_scheduler r) (en_jobs r)" and j': "arena_get (en_jobs r) i = Some j'" "state j' = state j"
  from sched_preempt_spec [OF s, of i] j' j(2) have
    "sched_preempt (en_scheduler r) i (en_jobs r) = Some (en_scheduler r, arena_put (en_jobs r) i (j'\<lparr>state := Preempted\<rparr>), Inr ())"
    "sched_inv (en_scheduler r) (arena_put (en_jobs r) i (j'\<lparr>state := Preempted\<rparr>))" by auto
  then show "\<exists>s' t'. apply_record (R_Preempted i at) (r, t)
        = Some (Inr (r\<lparr>en_scheduler := s', en_jobs := arena_put (en_jobs r) i (j'\<lparr>state := Preempted\<rparr>)\<rparr>, t'))
      \<and> sched_inv s' (arena_put (en_jobs r) i (j'\<lparr>state := Preempted\<rparr>))"
    by (intro exI [of _ "en_scheduler r"] exI [of _ "max t at"]) (simp add: try_sched_Inr try_step_def)
qed (use j(2) in auto)

lemma follows_dispatched:
  assumes j: "arena_get jobs i = Some j" "state j = Ready"
  shows "follows jobs [R_Dispatched i at] (arena_put jobs i (j\<lparr>state := Running\<rparr>))"
proof (rule follows_put [OF j(1) refl])
  fix r :: engine and t j' assume s: "sched_inv (en_scheduler r) (en_jobs r)" and j': "arena_get (en_jobs r) i = Some j'" "state j' = state j"
  from restore_running_spec [OF s, of i at "en_cycle r"] j' j(2)
  show "\<exists>s' t'. apply_record (R_Dispatched i at) (r, t)
        = Some (Inr (r\<lparr>en_scheduler := s', en_jobs := arena_put (en_jobs r) i (j'\<lparr>state := Running\<rparr>)\<rparr>, t'))
      \<and> sched_inv s' (arena_put (en_jobs r) i (j'\<lparr>state := Running\<rparr>))"
    by (auto simp: try_sched_Inr try_step_def; blast)
qed (use j(2) in auto)

text \<open>The records that end a job: what happens to its dependents is decided by the states alone.\<close>

definition promoted_by :: "job arena \<Rightarrow> job_id \<Rightarrow> job_id set" where
  "promoted_by jobs i = {x. \<exists>k. arena_get jobs x = Some k \<and> state k = Blocked \<and> (\<forall>d\<in>set (deps k). dep_pending jobs d \<longrightarrow> d = i)}"

definition cancelled_by :: "job arena \<Rightarrow> job_id \<Rightarrow> job_id set" where
  "cancelled_by jobs i = {x. x \<noteq> i \<and> (i, x) \<in> (waits_on jobs)\<^sup>*}"

lemma alike_promoted: "alike a b \<Longrightarrow> promoted_by b i = promoted_by a i"
proof -
  assume al: "alike a b"
  have "(\<exists>k. arena_get b x = Some k \<and> state k = Blocked \<and> (\<forall>d\<in>set (deps k). P d))
     \<longleftrightarrow> (\<exists>k. arena_get a x = Some k \<and> state k = Blocked \<and> (\<forall>d\<in>set (deps k). P d))" for x P
    using alike_deps [OF al, of x] alike_state [OF al, of x] by (cases "arena_get a x"; cases "arena_get b x") simp_all
  then show ?thesis by (simp add: promoted_by_def alike_pending [OF al])
qed

lemma alike_cancelled: "alike a b \<Longrightarrow> cancelled_by b i = cancelled_by a i"
  by (simp add: cancelled_by_def alike_waits_on)

lemma alike_ended:
  assumes al: "alike a b" and j: "arena_get a i = Some j" and k: "arena_get b i = Some k" "bare k = bare j"
    and a: "restated st S (arena_put a i (j\<lparr>state := t\<rparr>)) a'" "arena_shape a' = arena_shape a"
    and b: "restated st S (arena_put b i (k\<lparr>state := t\<rparr>)) b'" "arena_shape b' = arena_shape b"
  shows "alike a' b'"
  by (rule alike_restated [OF alike_put [OF al j k(1) bareD(3) [OF k(2)]] a(1) _ b(1)]) (simp_all add: shape_put a(2) b(2))

lemma follows_completed:
  assumes j: "arena_get jobs i = Some j" "state j = Running \<or> state j = Preempted"
    and r: "restated Ready (promoted_by jobs i) (arena_put jobs i (j\<lparr>state := Completed\<rparr>)) jobs'"
    and sh: "arena_shape jobs' = arena_shape jobs"
  shows "follows jobs [R_Completed i at] jobs'"
proof (rule follows_one)
  fix q :: engine and t assume m: "mirrors jobs q"
  note s = mirrorsD(1) [OF m] and al = mirrorsD(2) [OF m] and tm = mirrorsD(3) [OF m]
  from alike_get [OF al j(1)] obtain k where k: "arena_get (en_jobs q) i = Some k" "bare k = bare j" .
  from sched_on_completed_spec [OF s k(1), of at "en_cycle q"] bareD(1) [OF k(2)] j(2) obtain s' b' out where
    c: "sched_on_completed (en_scheduler q) i (en_jobs q) at (en_cycle q) = Some (s', b', Inr out)" "sched_inv s' b'"
      "set out = promoted_by (en_jobs q) i" "restated Ready (set out) (arena_put (en_jobs q) i (k\<lparr>state := Completed\<rparr>)) b'"
    unfolding promoted_by_def by auto
  have "alike jobs' b'"
    by (rule alike_ended [OF al j(1) k r sh c(4) [unfolded c(3) alike_promoted [OF al]] sched_on_completed_shape [OF c(1)]])
  moreover have "held_req (en_jobs q) i \<noteq> None" using k j(2) bareD(1) [OF k(2)] by (simp add: held_req_def)
  from completed_effect [OF s this, of at "en_cycle q"] c(1) have "frees i {i} (en_jobs q) b'" by auto
  from term_ok_note [OF tm this, of i "[]" at] have "term_ok b' (en_terminal (note_terminal q i at))" by (simp add: note_all_def)
  ultimately show "\<exists>r' t'. apply_record (R_Completed i at) (q, t) = Some (Inr (r', t')) \<and> mirrors jobs' r'"
    using c(1,2) by (simp add: try_sched_Inr try_step_def mirrors_def note_all_eq note_terminal_def)
qed

lemma follows_failed:
  assumes j: "arena_get jobs i = Some j" "state j = Running \<or> state j = Preempted"
    and r: "restated Cancelled (cancelled_by jobs i) (arena_put jobs i (j\<lparr>state := Failed\<rparr>)) jobs'"
    and sh: "arena_shape jobs' = arena_shape jobs"
  shows "follows jobs [R_Failed i at] jobs'"
proof (rule follows_one)
  fix q :: engine and t assume m: "mirrors jobs q"
  note s = mirrorsD(1) [OF m] and al = mirrorsD(2) [OF m] and tm = mirrorsD(3) [OF m]
  from alike_get [OF al j(1)] obtain k where k: "arena_get (en_jobs q) i = Some k" "bare k = bare j" .
  from on_failed_spec [OF s k(1), of at "en_cycle q"] bareD(1) [OF k(2)] j(2) obtain s' b' out where
    c: "on_failed (en_scheduler q) i (en_jobs q) at (en_cycle q) = Some (s', b', Inr out)" "sched_inv s' b'"
      "set out = cancelled_by (en_jobs q) i" "restated Cancelled (set out) (arena_put (en_jobs q) i (k\<lparr>state := Failed\<rparr>)) b'"
    unfolding cancelled_by_def by auto
  have "alike jobs' b'"
    by (rule alike_ended [OF al j(1) k r sh c(4) [unfolded c(3) alike_cancelled [OF al]] on_failed_shape [OF c(1)]])
  moreover have "held_req (en_jobs q) i \<noteq> None" using k j(2) bareD(1) [OF k(2)] by (simp add: held_req_def)
  from failed_effect [OF s this, of at "en_cycle q"] c(1) have "frees i (insert i (set out)) (en_jobs q) b'" by auto
  from term_ok_note [OF tm this refl, of at] have "term_ok b' (en_terminal (note_all (note_terminal q i at) out at))" .
  ultimately show "\<exists>r' t'. apply_record (R_Failed i at) (q, t) = Some (Inr (r', t')) \<and> mirrors jobs' r'"
    using c(1,2) by (simp add: try_sched_Inr try_step_def mirrors_def note_all_eq note_terminal_def)
qed

lemma follows_cancelled:
  assumes j: "arena_get jobs i = Some j" "\<not> is_terminal (state j)"
    and r: "restated Cancelled (cancelled_by jobs i) (arena_put jobs i (j\<lparr>state := Cancelled\<rparr>)) jobs'"
    and sh: "arena_shape jobs' = arena_shape jobs"
  shows "follows jobs [R_Cancelled i at] jobs'"
proof (rule follows_one)
  fix q :: engine and t assume m: "mirrors jobs q"
  note s = mirrorsD(1) [OF m] and al = mirrorsD(2) [OF m] and tm = mirrorsD(3) [OF m]
  from alike_get [OF al j(1)] obtain k where k: "arena_get (en_jobs q) i = Some k" "bare k = bare j" .
  from cancel_spec [OF s k(1), of at "en_cycle q"] bareD(1) [OF k(2)] j(2) obtain s' b' out where
    c: "cancel (en_scheduler q) i (en_jobs q) at (en_cycle q) = Some (s', b', Inr out)" "sched_inv s' b'"
      "set out = cancelled_by (en_jobs q) i" "restated Cancelled (set out) (arena_put (en_jobs q) i (k\<lparr>state := Cancelled\<rparr>)) b'"
    unfolding cancelled_by_def by auto
  have "alike jobs' b'"
    by (rule alike_ended [OF al j(1) k r sh c(4) [unfolded c(3) alike_cancelled [OF al]] cancel_shape [OF c(1)]])
  moreover have "\<not> is_terminal (state k)" using j(2) bareD(1) [OF k(2)] by simp
  from cancel_effect [OF s k(1) this, of at "en_cycle q"] c(1) have "frees i (insert i (set out)) (en_jobs q) b'" by auto
  from term_ok_note [OF tm this refl, of at] have "term_ok b' (en_terminal (note_all (note_terminal q i at) out at))" .
  ultimately show "\<exists>r' t'. apply_record (R_Cancelled i at) (q, t) = Some (Inr (r', t')) \<and> mirrors jobs' r'"
    using c(1,2) by (simp add: try_sched_Inr try_step_def mirrors_def note_all_eq note_terminal_def)
qed

text \<open>Submission and forgetting: replay issues the same handle and gives the same slot back.\<close>

lemma follows_submitted:
  assumes wf: "arena_wf jobs" and ins: "arena_insert jobs j = Some (jobs1, i)" and new: "state j = Submitted"
    and chk: "check_submit s i j jobs = Inr rd" and n: "length (deps j) < 2 ^ 32"
    and len: "length (arena_slots jobs1) < 2 ^ 32 - 1"
  shows "follows jobs [R_Submitted i j] (arena_put jobs1 i (j\<lparr>state := readiness_state rd\<rparr>))"
proof (rule follows_one)
  fix q :: engine and t assume m: "mirrors jobs q"
  note s = mirrorsD(1) [OF m] and al = mirrorsD(2) [OF m] and tm = mirrorsD(3) [OF m]
  note wq = jobs_okD(1) [OF sched_invD(1) [OF s]]
  from alike_insert [OF al wf wq ins] obtain b1 where
    b1: "arena_insert (en_jobs q) j = Some (b1, i)" "next_id (en_jobs q) = Some i" "alike jobs1 b1" by blast
  have "check_submit (en_scheduler q) i j (en_jobs q) = Inr rd"
    using chk unfolding check_submit_def classify_def alike_classify [OF al] .
  moreover have "length (arena_slots b1) < 2 ^ 32 - 1" using len b1(3) shape_length [of b1 jobs1] by (simp add: alike_def)
  ultimately obtain s' where
    c: "submit (en_scheduler q) i b1 (submit_time j) (en_cycle q)
        = Some (s', arena_put b1 i (j\<lparr>state := readiness_state rd\<rparr>), Inr (readiness_state rd))"
      "sched_inv s' (arena_put b1 i (j\<lparr>state := readiness_state rd\<rparr>))"
    using submit_spec [OF s b1(1) new _ n, of rd "submit_time j" "en_cycle q"] by blast
  have "arena_get jobs1 i = Some j" "arena_get b1 i = Some j"
    using arena_insert_get [OF wf ins] arena_insert_get [OF wq b1(1)] by simp_all
  from alike_put [OF b1(3) this refl, of "j\<lparr>state := readiness_state rd\<rparr>"] c b1(1,2)
    term_ok_insert [OF tm wq b1(1), of "j\<lparr>state := readiness_state rd\<rparr>" "submit_time j"]
  show "\<exists>r' t'. apply_record (R_Submitted i j) (q, t) = Some (Inr (r', t')) \<and> mirrors (arena_put jobs1 i (j\<lparr>state := readiness_state rd\<rparr>)) r'"
    by (cases "is_terminal (readiness_state rd)") (simp_all add: Let_def try_sched_Inr try_step_def mirrors_def note_terminal_def)
qed

lemma follows_forgotten:
  assumes j: "arena_get jobs i = Some j" "is_terminal (state j)" and g: "job_generation i \<noteq> - 1"
  shows "follows jobs [R_Forgotten i] (fst (arena_remove jobs i))"
proof (rule follows_one)
  fix q :: engine and t assume m: "mirrors jobs q"
  note s = mirrorsD(1) [OF m] and al = mirrorsD(2) [OF m] and tm = mirrorsD(3) [OF m]
  from alike_get [OF al j(1)] obtain k where k: "arena_get (en_jobs q) i = Some k" "bare k = bare j" .
  from forget_spec [OF s k(1) _ g] alike_remove [OF al, of i] bareD(1) [OF k(2)] j(2) term_ok_remove [OF tm k(1) g]
  show "\<exists>r' t'. apply_record (R_Forgotten i) (q, t) = Some (Inr (r', t')) \<and> mirrors (fst (arena_remove jobs i)) r'"
    by (simp add: mirrors_def)
qed

end
