(* ===== verification/Engine_Run.thy ===== *)
theory Engine_Run
  imports Engine_Tick
begin

text \<open>
  Histories of the scheduler thread: a fresh engine, then commands, ticks, the shutdown flag and the
  writer taking batches, in any order. In every state such a history reaches the next command and
  the next tick return, and the engine's lists, the arena and the slots agree.
\<close>

section \<open>Commands\<close>

text \<open>
  What is asked of a command. A submitted job asks for something, fits the log's frames and finds
  room in the arena; the inventory has room for another worker; and a worker reports a preemption
  only of a job that is not running any more. The last is not guaranteed by the protocol, see
  \<open>Engine_Faults\<close>.
\<close>

definition acceptable :: "engine \<Rightarrow> command \<Rightarrow> bool" where
  "acceptable e c \<longleftrightarrow>
     (case c of
        Cmd_Submit j rp \<Rightarrow> submittable e j
      | Cmd_Preempted i \<Rightarrow> \<not> in_state (en_jobs e) i Running
      | Cmd_WorkerJoined name cap in_flight rp \<Rightarrow> length (inv_slots (en_inventory e)) + 1 < 2 ^ 32
      | _ \<Rightarrow> True)"

lemma on_query_returns:
  assumes inv: "engine_inv L e"
  shows "\<exists>w'. on_query e w q = Some w'"
proof -
  have s: "sched_inv (en_scheduler e) (en_jobs e)" and n: "length (inv_slots (en_inventory e)) < 2 ^ 32"
    using inv by (simp_all add: engine_inv_def engine_core_def)
  from iter_jobs [OF s] obtain ijs where "arena_iter (en_jobs e) = Some ijs" by blast
  with n show ?thesis by (cases q) (simp_all add: queue_summary_def nodes_def inv_len_def expect_u32_Some)
qed

lemma handle_inv:
  assumes inv: "engine_inv L e" and ok: "acceptable e c"
  shows "\<exists>e' w'. handle L c now (e, w) = Some (e', w') \<and> engine_inv L e'"
proof (cases c)
  case (Cmd_Submit j rp)
  with on_submit_inv [OF inv] ok show ?thesis by (simp add: acceptable_def)
next
  case (Cmd_Cancel i rp)
  with on_cancel_inv [OF inv] show ?thesis by simp
next
  case (Cmd_Completed i)
  with on_completed_report_inv [OF inv, of i now] show ?thesis by auto
next
  case (Cmd_Failed i)
  with on_failed_report_inv [OF inv, of i now] show ?thesis by auto
next
  case (Cmd_Preempted i)
  with on_preempted_report_inv [OF inv, of i now] ok show ?thesis by (auto simp: acceptable_def)
next
  case (Cmd_WorkerJoined name cap in_flight rp)
  with on_worker_joined_inv [OF inv] ok show ?thesis by (simp add: acceptable_def)
next
  case (Cmd_WorkerLeft slot)
  with evict_slot_inv [OF inv, of slot now] show ?thesis by auto
next
  case (Cmd_WorkerDraining slot)
  with worker_draining_inv [OF inv] show ?thesis by simp
next
  case (Cmd_Query q)
  with on_query_returns [OF inv, of w q] inv show ?thesis by auto
qed

section \<open>The fresh engine\<close>

definition fresh_journal :: "journal option \<Rightarrow> bool" where
  "fresh_journal J \<longleftrightarrow> (case J of None \<Rightarrow> True | Some jn \<Rightarrow> jn_pending jn = commit_default \<and> ch_queue (jn_tx jn) = [])"

lemma set_account_shares_inv:
  assumes "engine_inv L e"
  shows "\<exists>e'. set_account_shares p e = Some e' \<and> engine_inv L e'"
proof -
  note I = assms [unfolded engine_inv_def engine_core_def]
  from set_shares_spec [of "en_scheduler e" "en_jobs e" "fst p" "snd p"] I obtain s' r where
    s: "sched_set_shares (en_scheduler e) (fst p) (snd p) = Some (s', r)" "sched_inv s' (en_jobs e)" by blast
  have "engine_inv L (e\<lparr>en_scheduler := s'\<rparr>)" using I s(2) by (simp add: engine_inv_def engine_core_def)
  with assms s(1) show ?thesis by (cases r) (simp_all add: set_account_shares_def)
qed

lemma shares_inv: "engine_inv L e \<Longrightarrow> \<exists>e'. for_each set_account_shares ps e = Some e' \<and> engine_inv L e'"
proof (induction ps arbitrary: e)
  case (Cons p ps)
  from set_account_shares_inv [OF Cons.prems, of p] Cons.IH show ?case by auto
qed simp

lemma empty_arena [simp]: "arena_get (arena_new :: job arena) i = None"
  by (simp add: arena_get_def arena_new_def vec_get_def)

lemma engine_build_inv:
  assumes n: "max_candidates (dc_cycle config) < 2 ^ 32" and J: "fresh_journal J"
  shows "\<exists>e. engine_build config J = Some e \<and> engine_inv L e"
  unfolding engine_build_def Let_def
proof (rule shares_inv)
  have w: "(ucast (max (dc_worker_cpu_millis config) 1) :: u64) \<noteq> 0"
  proof
    assume "(ucast (max (dc_worker_cpu_millis config) 1) :: u64) = 0"
    then have "unat (max (dc_worker_cpu_millis config) 1) = 0"
      using unat_ucast_widen [of "max (dc_worker_cpu_millis config) 1", where ?'b = 64] by simp
    then have "max (dc_worker_cpu_millis config) 1 = 0" by (simp add: unat_eq_zero)
    then show False by (simp add: max_def split: if_splits)
  qed
  have "journal_ok (crc32 L) J"
    using J commit_ok_default by (auto simp: fresh_journal_def journal_ok_def)
  with scheduler_with_slots_inv [OF n] w
  show "engine_inv L \<lparr>en_cycle = dc_cycle config, en_drain_budget = dc_drain_budget config,
                en_jobs = arena_new, en_inventory = from_capacities [],
                en_scheduler = scheduler_with_slots (max_candidates (dc_cycle config)),
                en_running = [], en_names = [], en_overflow = [], en_cycles = 0,
                en_demand = demand_default,
                en_worker_cpu = ucast (max (dc_worker_cpu_millis config) 1),
                en_min_workers = dc_min_workers config,
                en_max_workers = max (dc_max_workers config) (dc_min_workers config),
                en_account_metrics_at = 0, en_journal = J, en_terminal = [],
                en_retain = or_max (dc_retain config),
                en_reconciling = [], en_reconcile_until = None,
                en_reconcile_window = saturating_mul (or_max (dc_heartbeat_timeout config)) 2,
                en_quiescing = False\<rparr>"
    by (simp add: engine_inv_def engine_core_def books_def names_ok_def drained_or_within_def from_capacities_def
        term_ok_def ended_def data_ok_def binds_def held_req_def dom_def)
qed

section \<open>Histories\<close>

text \<open>
  A tick is taken while no live handle has its slot's last generation, since forgetting such a job
  would make old handles valid again. The writer thread takes the batch at the head of the channel;
  the shutdown flag is set once and stays set.
\<close>

inductive engine_reach :: "'q libs \<Rightarrow> engine \<Rightarrow> bool" for L :: "'q libs" where
  reach_build: "max_candidates (dc_cycle config) < 2 ^ 32 \<Longrightarrow> fresh_journal J \<Longrightarrow>
    engine_build config J = Some e \<Longrightarrow> engine_reach L e"
| reach_command: "engine_reach L e \<Longrightarrow> acceptable e c \<Longrightarrow> handle L c now (e, w) = Some (e', w') \<Longrightarrow> engine_reach L e'"
| reach_tick: "engine_reach L e \<Longrightarrow> gens_left (en_jobs e) \<Longrightarrow> tick L now (e, w) = Some ((e', w'), out) \<Longrightarrow>
    engine_reach L e'"
| reach_quiesce: "engine_reach L e \<Longrightarrow> engine_reach L (e\<lparr>en_quiescing := True\<rparr>)"
| reach_writer: "engine_reach L e \<Longrightarrow> en_journal e = Some jn \<Longrightarrow> ch_queue (jn_tx jn) = c # cs \<Longrightarrow>
    engine_reach L (e\<lparr>en_journal := Some (jn\<lparr>jn_tx := (jn_tx jn)\<lparr>ch_queue := cs\<rparr>\<rparr>)\<rparr>)"
| reach_flush: "engine_reach L e \<Longrightarrow> engine_reach L (e\<lparr>en_journal := map_option flush (en_journal e)\<rparr>)"

lemma engine_reach_inv: "engine_reach L e \<Longrightarrow> engine_inv L e"
proof (induction rule: engine_reach.induct)
  case (reach_build config J e)
  with engine_build_inv [OF reach_build(1,2)] show ?case by fastforce
next
  case (reach_command e c now w e' w')
  from handle_inv [OF reach_command.IH reach_command.hyps(2), of now w] reach_command.hyps(3) show ?case by auto
next
  case (reach_tick e now w e' w' out)
  from tick_inv [OF reach_tick.IH reach_tick.hyps(2), of now w] reach_tick.hyps(3) show ?case by auto
next
  case (reach_quiesce e)
  then show ?case by (simp add: engine_inv_def binds_def)
next
  case (reach_writer e jn c cs)
  then have "journal_ok (crc32 L) (Some jn)" by (simp add: engine_inv_def engine_core_def)
  with reach_writer.hyps(3) have "journal_ok (crc32 L) (Some (jn\<lparr>jn_tx := (jn_tx jn)\<lparr>ch_queue := cs\<rparr>\<rparr>))"
    by (simp add: journal_ok_def)
  from engine_inv_journal [OF reach_writer.IH this] show ?case .
next
  case (reach_flush e)
  have "journal_ok (crc32 L) (en_journal e)" using reach_flush.IH by (simp add: engine_inv_def engine_core_def)
  from engine_inv_journal [OF reach_flush.IH flush_ok [OF this]] show ?case .
qed

section \<open>Sample histories\<close>

text \<open>
  Scripts of commands and ticks, played on an engine. The guards are executable and imply those of
  the histories, so that a script that plays to its end reaches its last state.
\<close>

definition slot_gens :: "engine \<Rightarrow> u32 list" where
  "slot_gens e = map (\<lambda>s. case s of Occupied g j \<Rightarrow> g | Vacant g nf \<Rightarrow> g) (arena_slots (en_jobs e))"

definition plain :: "engine \<Rightarrow> command \<Rightarrow> bool" where
  "plain e c \<longleftrightarrow>
     (case c of
        Cmd_Submit j rp \<Rightarrow> state j = Submitted \<and> request j \<noteq> ZERO \<and> length (deps j) < 9 \<and> length (payload j) < 9
          \<and> length (arena_slots (en_jobs e)) < 9
      | Cmd_Preempted i \<Rightarrow> map_option state (arena_get (en_jobs e) i) \<noteq> Some Running
      | Cmd_WorkerJoined name cap in_flight rp \<Rightarrow> length (inv_slots (en_inventory e)) < 9
      | _ \<Rightarrow> True)"

fun play :: "'q libs \<Rightarrow> (command option \<times> virtual_time) list \<Rightarrow> engine \<times> 'q world \<Rightarrow> (engine \<times> 'q world) option" where
  "play L [] ew = Some ew"
| "play L ((Some c, now) # xs) (e, w) =
     (if plain e c then do { ew \<leftarrow> handle L c now (e, w); play L xs ew } else None)"
| "play L ((None, now) # xs) (e, w) =
     (if list_all (\<lambda>g. g \<noteq> - 1) (slot_gens e) then do { (ew, out) \<leftarrow> tick L now (e, w); play L xs ew } else None)"

lemma gens_left_slots:
  assumes "list_all (\<lambda>g. g \<noteq> - 1) (slot_gens e)"
  shows "gens_left (en_jobs e)"
  unfolding gens_left_def
proof (intro allI impI)
  fix i j assume "arena_get (en_jobs e) i = Some j"
  then have "arena_slots (en_jobs e) ! unat (job_index i) = Occupied (job_generation i) j"
    "unat (job_index i) < length (arena_slots (en_jobs e))" by (simp_all add: arena_get_alt)
  then have "job_generation i \<in> set (slot_gens e)" unfolding slot_gens_def by (force simp: in_set_conv_nth)
  with assms show "job_generation i \<noteq> - 1" by (auto simp: list_all_iff)
qed

lemma length_deps_wire: "length (deps_wire ds) = 8 * length ds"
  by (induction ds) (simp_all add: deps_wire_def)

lemma plain_acceptable:
  assumes "plain e c"
  shows "acceptable e c"
proof (cases c)
  case (Cmd_Submit j rp)
  with assms have b: "length (deps j) < 9" "length (payload j) < 9" "state j = Submitted" "request j \<noteq> ZERO"
    "length (arena_slots (en_jobs e)) < 9" by (simp_all add: plain_def)
  then have "job_fits j" by (simp add: job_fits_def)
  with b have "encodable (R_Submitted 0 j)"
    by (simp add: encodable_def record_wire_def put_job_wire put_u8_def put_u64_def job_wire_def length_deps_wire)
  with b Cmd_Submit show ?thesis by (simp add: acceptable_def submittable_def)
qed (use assms in \<open>simp_all add: plain_def acceptable_def in_state_def\<close>)

text \<open>What every acceptable command and every tick keeps, a script keeps.\<close>

lemma play_keeps:
  assumes "play L xs (e, w) = Some (e', w')" and "P e"
    and command: "\<And>e c now w e' w'. P e \<Longrightarrow> acceptable e c \<Longrightarrow> handle L c now (e, w) = Some (e', w') \<Longrightarrow> P e'"
    and ticked: "\<And>e now w e' w' out. P e \<Longrightarrow> gens_left (en_jobs e) \<Longrightarrow> tick L now (e, w) = Some ((e', w'), out) \<Longrightarrow> P e'"
  shows "P e'"
  using assms(1,2)
proof (induction xs arbitrary: e w)
  case (Cons x xs)
  obtain co now where x: "x = (co, now)" by (cases x)
  show ?case
  proof (cases co)
    case (Some c)
    from Cons.prems(1) obtain e1 w1 where
      h: "plain e c" "handle L c now (e, w) = Some (e1, w1)" "play L xs (e1, w1) = Some (e', w')"
      by (auto simp del: handle.simps simp: x Some bind_eq_Some_conv split: if_splits)
    from Cons.IH [OF h(3) command [OF Cons.prems(2) plain_acceptable [OF h(1)] h(2)]] show ?thesis .
  next
    case None
    from Cons.prems(1) obtain e1 w1 out where
      h: "list_all (\<lambda>g. g \<noteq> - 1) (slot_gens e)" "tick L now (e, w) = Some ((e1, w1), out)" "play L xs (e1, w1) = Some (e', w')"
      by (auto simp: x None bind_eq_Some_conv split: if_splits)
    from Cons.IH [OF h(3) ticked [OF Cons.prems(2) gens_left_slots [OF h(1)] h(2)]] show ?thesis .
  qed
qed simp

lemma play_reach: "play L xs (e, w) = Some (e', w') \<Longrightarrow> engine_reach L e \<Longrightarrow> engine_reach L e'"
  by (erule play_keeps) (auto intro: reach_command reach_tick)

definition sample_daemon :: daemon_config where
  "sample_daemon = \<lparr>dc_drain_budget = 8, dc_heartbeat_timeout = 10, dc_worker_cpu_millis = 1000, dc_min_workers = 0,
     dc_max_workers = 4, dc_shares = [], dc_retain = 10,
     dc_cycle = \<lparr>cc_priority = sample_config, cc_fairshare = fair_share_config_default, cc_preempt = preempt_config_default,
        cc_budget = \<lparr>max_decisions = 4, max_scanned = 4\<rparr>, max_candidates = 2\<rparr>\<rparr>"

definition sample_libs :: "dispatch list libs" where
  "sample_libs = \<lparr>crc32 = (\<lambda>_. 0), ring_push = (\<lambda>q d. (q @ [d], Inr ()))\<rparr>"

definition sample_run :: "(command option \<times> virtual_time) list \<Rightarrow> (engine \<times> dispatch list world) option" where
  "sample_run xs = do { e \<leftarrow> engine_build sample_daemon None; play sample_libs xs (e, \<lparr>wd_outbox = [], wd_sent = []\<rparr>) }"

lemma sample_run_reach: "sample_run xs = Some (e, w) \<Longrightarrow> engine_reach sample_libs e"
  unfolding sample_run_def bind_eq_Some_conv
  by (auto elim!: play_reach intro!: reach_build simp: sample_daemon_def fresh_journal_def)

text \<open>A worker joins, a job is submitted, and the tick starts it.\<close>

definition started :: "(command option \<times> virtual_time) list" where
  "started = [(Some (Cmd_WorkerJoined ''w'' sample_request [] 0), 1), (Some (Cmd_Submit sample_parent 1), 2), (None, 3)]"

lemma started_state:
  obtains e w where "sample_run started = Some (e, w)" and "engine_reach sample_libs e"
    and "map run_job (en_running e) = [0]" and "map allocated (inv_slots (en_inventory e)) = [sample_request]"
    and "list_all (\<lambda>g. g \<noteq> - 1) (slot_gens e)" and "map_option state (arena_get (en_jobs e) 0) = Some Running"
proof -
  have "map_option (\<lambda>(e, w). (map run_job (en_running e), map allocated (inv_slots (en_inventory e)),
      list_all (\<lambda>g. g \<noteq> - 1) (slot_gens e), map_option state (arena_get (en_jobs e) 0))) (sample_run started)
     = Some ([0], [sample_request], True, Some Running)" by code_simp
  with that sample_run_reach show thesis by (cases "sample_run started") auto
qed

section \<open>Properties\<close>





end
