(* ===== verification/Engine_Log.thy ===== *)
theory Engine_Log
  imports Replay Engine_Run
begin

text \<open>
  The log tells the whole story. Every command and every tick of an engine with a journal appends
  records to the journal, and replaying these records follows what the step did to the jobs.
\<close>

section \<open>The records in a journal\<close>

definition flat :: "batch list \<Rightarrow> wal_record list" where
  "flat bs = concat (map (\<lambda>(rs1, sn, rs2). rs1 @ rs2) bs)"

lemma flat_simps [simp]: "flat [] = []" "flat ((rs1, sn, rs2) # bs) = rs1 @ rs2 @ flat bs" "flat (as @ bs) = flat as @ flat bs"
  by (simp_all add: flat_def)

text \<open>All records that wait in the channel or in the pending batch, in the order they were made.\<close>

definition journal_log :: "(u8 list \<Rightarrow> u32) \<Rightarrow> journal option \<Rightarrow> wal_record list \<Rightarrow> bool" where
  "journal_log hash J rs \<longleftrightarrow>
     (\<exists>jn bs rs1 sn rs2. J = Some jn \<and> list_all2 (commit_holds hash) (ch_queue (jn_tx jn)) bs
        \<and> commit_holds hash (jn_pending jn) (rs1, sn, rs2) \<and> rs = flat bs @ rs1 @ rs2)"

lemma journal_logI:
  "J = Some jn \<Longrightarrow> list_all2 (commit_holds hash) (ch_queue (jn_tx jn)) bs \<Longrightarrow> commit_holds hash (jn_pending jn) (rs1, sn, rs2) \<Longrightarrow>
     rs = flat bs @ rs1 @ rs2 \<Longrightarrow> journal_log hash J rs"
  unfolding journal_log_def by blast

lemma journal_logE:
  assumes "journal_log hash J rs"
  obtains jn bs rs1 sn rs2 where "J = Some jn" "list_all2 (commit_holds hash) (ch_queue (jn_tx jn)) bs"
    "commit_holds hash (jn_pending jn) (rs1, sn, rs2)" "rs = flat bs @ rs1 @ rs2"
  using assms unfolding journal_log_def by blast

lemma journal_record_tx: "journal_record hash jn r = Some jn' \<Longrightarrow> jn_tx jn' = jn_tx jn"
  by (auto simp: journal_record_def Let_def bind_eq_Some_conv grew_def set_frames_def)

lemma engine_record_only:
  assumes "engine_record L e r = Some e'"
  shows "e' = e\<lparr>en_journal := en_journal e'\<rparr>"
  using assms by (cases e; cases "en_journal e") (auto simp: engine_record_def bind_eq_Some_conv)

lemma engine_record_elsewhere:
  assumes "engine_record L e r = Some e'" and "en_journal f = en_journal e"
  shows "engine_record L f r = Some (f\<lparr>en_journal := en_journal e'\<rparr>)"
  using assms by (cases f; cases "en_journal e") (auto simp: engine_record_def bind_eq_Some_conv)

lemma journal_log_record:
  assumes log: "journal_log (crc32 L) (en_journal e) rs" and rec: "engine_record L e r = Some e'"
  shows "journal_log (crc32 L) (en_journal e') (rs @ [r])"
proof -
  from log obtain jn bs rs1 sn rs2 where
    j: "en_journal e = Some jn" "list_all2 (commit_holds (crc32 L)) (ch_queue (jn_tx jn)) bs"
      "commit_holds (crc32 L) (jn_pending jn) (rs1, sn, rs2)" "rs = flat bs @ rs1 @ rs2" by (rule journal_logE)
  from rec j(1) obtain jn' where jn': "journal_record (crc32 L) jn r = Some jn'" "en_journal e' = Some jn'"
    by (auto simp: engine_record_def bind_eq_Some_conv)
  from journal_logI [OF jn'(2) _ journal_record_holds [OF j(3) jn'(1)]] j(2,4) journal_record_tx [OF jn'(1)]
  show ?thesis by simp
qed

lemma journal_log_defer [simp]:
  "journal_log hash (Some (defer_ack jn a)) rs = journal_log hash (Some jn) rs"
  "journal_log hash (Some (hold jn d)) rs = journal_log hash (Some jn) rs"
  by (simp_all add: journal_log_def) (simp_all add: defer_ack_def hold_def)

lemma journal_log_commit:
  assumes "journal_log hash (Some jn) rs"
  shows "journal_log hash (Some (fst (journal_commit jn))) rs"
proof -
  from assms obtain bs rs1 sn rs2 where
    j: "list_all2 (commit_holds hash) (ch_queue (jn_tx jn)) bs" "commit_holds hash (jn_pending jn) (rs1, sn, rs2)"
      "rs = flat bs @ rs1 @ rs2" by (auto elim: journal_logE)
  consider "fst (journal_commit jn) = jn"
    | "fst (journal_commit jn) = jn\<lparr>jn_pending := commit_default, jn_tx := (jn_tx jn)\<lparr>ch_queue := ch_queue (jn_tx jn) @ [jn_pending jn]\<rparr>\<rparr>"
  proof (cases "commit_is_empty (jn_pending jn) \<or> \<not> ch_open (jn_tx jn) \<or> ch_bound (jn_tx jn) \<le> length (ch_queue (jn_tx jn))")
    case True
    then have "fst (journal_commit jn) = jn"
      by (cases "ch_open (jn_tx jn)") (auto simp: journal_commit_def try_send_def Let_def)
    then show thesis by (rule that(1))
  next
    case False
    then show thesis by (intro that(2)) (simp add: journal_commit_def try_send_def)
  qed
  then show ?thesis
  proof cases
    case 2
    show ?thesis
      unfolding 2 by (rule journal_logI [OF refl, of _ _ "bs @ [(rs1, sn, rs2)]" "[]" None "[]"])
        (simp_all add: j list_all2_appendI commit_holds_default)
  qed (use assms in simp)
qed

lemma journal_log_attach:
  assumes "journal_log hash (Some jn) rs" and "wants_snapshot jn" and d: "decode_snapshot hash bytes = Inr s"
  shows "journal_log hash (Some (attach_snapshot jn bytes)) rs"
proof -
  from assms(1) obtain bs rs1 sn rs2 where
    j: "list_all2 (commit_holds hash) (ch_queue (jn_tx jn)) bs" "commit_holds hash (jn_pending jn) (rs1, sn, rs2)"
      "rs = flat bs @ rs1 @ rs2" by (auto elim: journal_logE)
  with assms(2) have "rs1 = []" "sn = None" by (auto simp: wants_snapshot_def commit_holds_def)
  with j(2) have "commit_holds hash (jn_pending (attach_snapshot jn bytes)) (rs2, Some s, [])"
    using attach_snapshot_holds [OF _ d] by simp
  from journal_logI [OF refl _ this] j \<open>rs1 = []\<close> show ?thesis by (simp add: attach_snapshot_def)
qed

section \<open>Steps\<close>

definition logs :: "'q libs \<Rightarrow> engine \<Rightarrow> engine \<Rightarrow> bool" where
  "logs L e e' \<longleftrightarrow> (\<exists>rs. (\<forall>rs0. journal_log (crc32 L) (en_journal e) rs0 \<longrightarrow> journal_log (crc32 L) (en_journal e') (rs0 @ rs))
     \<and> follows (en_jobs e) rs (en_jobs e'))"

lemma logs_quiet:
  "en_jobs e' = en_jobs e \<Longrightarrow> (\<And>rs. journal_log (crc32 L) (en_journal e) rs \<Longrightarrow> journal_log (crc32 L) (en_journal e') rs) \<Longrightarrow> logs L e e'"
  unfolding logs_def by (rule exI [of _ "[]"]) simp

lemma logs_same: "en_jobs e' = en_jobs e \<Longrightarrow> en_journal e' = en_journal e \<Longrightarrow> logs L e e'"
  by (rule logs_quiet) simp_all

lemma logs_trans [trans]: "logs L a b \<Longrightarrow> logs L b c \<Longrightarrow> logs L a c"
proof -
  assume "logs L a b" "logs L b c"
  then obtain rs qs where
    "\<forall>rs0. journal_log (crc32 L) (en_journal a) rs0 \<longrightarrow> journal_log (crc32 L) (en_journal b) (rs0 @ rs)" "follows (en_jobs a) rs (en_jobs b)"
    "\<forall>rs0. journal_log (crc32 L) (en_journal b) rs0 \<longrightarrow> journal_log (crc32 L) (en_journal c) (rs0 @ qs)" "follows (en_jobs b) qs (en_jobs c)"
    unfolding logs_def by blast
  then show ?thesis
    unfolding logs_def by (intro exI [of _ "rs @ qs"] conjI follows_trans) (simp_all flip: append_assoc)
qed

lemma logs_record:
  assumes "follows (en_jobs e) [r] (en_jobs e1)" and "en_journal e1 = en_journal e" and "engine_record L e1 r = Some e'"
  shows "logs L e e'"
  unfolding logs_def
  by (intro exI [of _ "[r]"]) (use assms journal_log_record [of L e1 _ r e'] engine_record_jobs [OF assms(3)] in simp)

lemma logs_reply: "logs L e (fst (reply_durably e w r a))"
  by (rule logs_quiet) (auto simp: reply_durably_def split: option.splits)

lemma logs_push: "logs L e (fst (push_dispatch M e w d))"
  by (rule logs_same) (auto simp: push_dispatch_def split: prod.splits sum.splits)

lemma logs_dispatch: "logs L e (fst (dispatch_durably M e w d))"
  by (rule logs_quiet) (auto simp: dispatch_durably_def push_dispatch_def split: option.splits prod.splits sum.splits)

lemma note_all_journal [simp]: "en_journal (note_all e is at) = en_journal e"
  by (induction "is" arbitrary: e) (simp_all add: note_all_def note_terminal_def)

lemma logs_note: "logs L e (note_terminal e i at)" "logs L e (note_all e is at)"
  by (rule logs_same; simp add: note_terminal_def)+

section \<open>Reports\<close>

lemma same_but_listsD:
  assumes "same_but_lists e e1"
  shows "en_jobs e1 = en_jobs e" "en_journal e1 = en_journal e" "en_scheduler e1 = en_scheduler e"
  using assms by (auto simp: same_but_lists_def)

lemma reported:
  assumes "engine_inv L e" and "release_or_unhold e i \<noteq> Some (e, False)"
  obtains e1 j where "release_or_unhold e i = Some (e1, True)" "sched_inv (en_scheduler e1) (en_jobs e1)"
    "en_jobs e1 = en_jobs e" "en_journal e1 = en_journal e"
    "arena_get (en_jobs e1) i = Some j" "state j = Running \<or> state j = Preempted"
proof -
  from release_or_unhold_spec [OF assms(1), of i] assms(2) obtain e1 where
    e1: "release_or_unhold e i = Some (e1, True)" "detached L e1 i" "same_but_lists e e1" by auto
  with detachedD [OF e1(2)] held_reqD [of "en_jobs e1" i] same_but_listsD [OF e1(3)] that show thesis by blast
qed

lemma on_completed_report_logs:
  assumes inv: "engine_inv L e" and c: "on_completed_report L e i now = Some e'"
  shows "logs L e e'"
proof (cases "release_or_unhold e i = Some (e, False)")
  case True
  with c show ?thesis by (simp add: on_completed_report_def logs_same)
next
  case False
  then obtain e1 j where e1: "release_or_unhold e i = Some (e1, True)" "sched_inv (en_scheduler e1) (en_jobs e1)"
    "en_jobs e1 = en_jobs e" "en_journal e1 = en_journal e" "arena_get (en_jobs e1) i = Some j" "state j = Running \<or> state j = Preempted"
    by (rule reported [OF inv])
  from sched_on_completed_spec [OF e1(2,5,6), of now "en_cycle e1"] obtain s' jobs' out where
    s: "sched_on_completed (en_scheduler e1) i (en_jobs e1) now (en_cycle e1) = Some (s', jobs', Inr out)"
      "restated Ready (promoted_by (en_jobs e1) i) (arena_put (en_jobs e1) i (j\<lparr>state := Completed\<rparr>)) jobs'"
    unfolding promoted_by_def by auto
  from c e1(1) s(1) obtain e2 where
    e2: "engine_record L (e1\<lparr>en_scheduler := s', en_jobs := jobs'\<rparr>) (R_Completed i now) = Some e2" "e' = note_terminal e2 i now"
    by (auto simp: on_completed_report_def with_sched_def bind_eq_Some_conv)
  have "follows (en_jobs e1) [R_Completed i now] jobs'"
    by (rule follows_completed [OF e1(5,6) s(2) sched_on_completed_shape [OF s(1)]])
  then have "logs L e e2" by (intro logs_record [OF _ _ e2(1)]) (simp_all add: e1)
  also have "logs L e2 e'" unfolding e2(2) by (rule logs_note)
  finally show ?thesis .
qed

lemma on_failed_report_logs:
  assumes inv: "engine_inv L e" and c: "on_failed_report L e i now = Some e'"
  shows "logs L e e'"
proof (cases "release_or_unhold e i = Some (e, False)")
  case True
  with c show ?thesis by (simp add: on_failed_report_def logs_same)
next
  case False
  then obtain e1 j where e1: "release_or_unhold e i = Some (e1, True)" "sched_inv (en_scheduler e1) (en_jobs e1)"
    "en_jobs e1 = en_jobs e" "en_journal e1 = en_journal e" "arena_get (en_jobs e1) i = Some j" "state j = Running \<or> state j = Preempted"
    by (rule reported [OF inv])
  from on_failed_spec [OF e1(2,5,6), of now "en_cycle e1"] obtain s' jobs' out where
    s: "on_failed (en_scheduler e1) i (en_jobs e1) now (en_cycle e1) = Some (s', jobs', Inr out)"
      "restated Cancelled (cancelled_by (en_jobs e1) i) (arena_put (en_jobs e1) i (j\<lparr>state := Failed\<rparr>)) jobs'"
    unfolding cancelled_by_def by auto
  from c e1(1) s(1) obtain e2 where
    e2: "engine_record L (e1\<lparr>en_scheduler := s', en_jobs := jobs'\<rparr>) (R_Failed i now) = Some e2" "e' = note_all (note_terminal e2 i now) out now"
    by (auto simp: on_failed_report_def with_sched_def bind_eq_Some_conv)
  have "follows (en_jobs e1) [R_Failed i now] jobs'"
    by (rule follows_failed [OF e1(5,6) s(2) on_failed_shape [OF s(1)]])
  then have "logs L e e2" by (intro logs_record [OF _ _ e2(1)]) (simp_all add: e1)
  also have "logs L e2 (note_terminal e2 i now)" by (rule logs_note)
  also have "logs L (note_terminal e2 i now) e'" unfolding e2(2) by (rule logs_note)
  finally show ?thesis .
qed

lemma on_preempted_report_logs:
  assumes inv: "engine_inv L e" and c: "on_preempted_report L e i now = Some e'"
  shows "logs L e e'"
proof (cases "release_or_unhold e i = Some (e, False)")
  case True
  with c show ?thesis by (simp add: on_preempted_report_def logs_same)
next
  case False
  then obtain e1 j where e1: "release_or_unhold e i = Some (e1, True)" "sched_inv (en_scheduler e1) (en_jobs e1)"
    "en_jobs e1 = en_jobs e" "en_journal e1 = en_journal e" "arena_get (en_jobs e1) i = Some j" "state j = Running \<or> state j = Preempted"
    by (rule reported [OF inv])
  from on_preempted_spec [OF e1(2), of i now "en_cycle e1"] e1(5) obtain s' jobs' r where
    s: "on_preempted (en_scheduler e1) i (en_jobs e1) now (en_cycle e1) = Some (s', jobs', r)"
      "if state j = Preempted
         then r = Inr () \<and> jobs' = arena_put (en_jobs e1) i (j\<lparr>preemptions := saturating_add (preemptions j) 1, state := Ready\<rparr>)
         else r = Inl (Transition (TransitionError (state j) Ready)) \<and> jobs' = en_jobs e1" by auto
  show ?thesis
  proof (cases "state j = Preempted")
    case True
    with s(2) have r: "r = Inr ()" "jobs' = arena_put (en_jobs e1) i (j\<lparr>preemptions := saturating_add (preemptions j) 1, state := Ready\<rparr>)"
      by simp_all
    from c e1(1) s(1) r(1) have
      e2: "engine_record L (e1\<lparr>en_scheduler := s', en_jobs := jobs'\<rparr>) (R_Requeued i now) = Some e'"
      by (simp add: on_preempted_report_def with_sched_def)
    have "follows (en_jobs e1) [R_Requeued i now] jobs'"
      unfolding r(2) by (rule follows_requeued [OF e1(5,6)]) (simp add: bare_def)
    then show ?thesis by (intro logs_record [OF _ _ e2(1)]) (simp_all add: e1)
  next
    case False
    with s c e1(1) have "en_jobs e' = en_jobs e1 \<and> en_journal e' = en_journal e1"
      by (auto simp: on_preempted_report_def with_sched_def)
    then show ?thesis by (intro logs_same) (simp_all add: e1)
  qed
qed

section \<open>Clients\<close>

lemma inventory_or_keep_fields [simp]:
  "en_jobs (inventory_or_keep e r) = en_jobs e" "en_journal (inventory_or_keep e r) = en_journal e"
  "en_scheduler (inventory_or_keep e r) = en_scheduler e" "en_running (inventory_or_keep e r) = en_running e"
  by (simp_all add: inventory_or_keep_def split: sum.splits)

lemma engine_release_same: "engine_release e i = Some (e1, slot) \<Longrightarrow> en_jobs e1 = en_jobs e \<and> en_journal e1 = en_journal e"
  by (auto simp: engine_release_def Let_def bind_eq_Some_conv split: option.splits)

lemma unhold_same: "unhold e i = Some (e1, b) \<Longrightarrow> en_jobs e1 = en_jobs e \<and> en_journal e1 = en_journal e"
  by (auto simp: unhold_def bind_eq_Some_conv split: option.splits)

lemma on_cancel_logs:
  assumes inv: "engine_inv L e" and c: "on_cancel L e w i rp now = Some (e', w')"
  shows "logs L e e'"
proof -
  from cancel_detach [OF inv, of i] obtain e1 e2 slot b where
    d: "engine_release e i = Some (e1, slot)" "unhold e1 i = Some (e2, b)" "unlisted L e2 i" by blast
  note s = unlisted_sched [OF d(3)]
  have same: "en_jobs e2 = en_jobs e" "en_journal e2 = en_journal e"
    using engine_release_same [OF d(1)] unhold_same [OF d(2)] by simp_all
  show ?thesis
  proof (cases "\<exists>j. arena_get (en_jobs e2) i = Some j \<and> \<not> is_terminal (state j)")
    case True
    then obtain j where j: "arena_get (en_jobs e2) i = Some j" "\<not> is_terminal (state j)" by blast
    from cancel_spec [OF s j, of now "en_cycle e2"] obtain s' jobs' out where
      q: "cancel (en_scheduler e2) i (en_jobs e2) now (en_cycle e2) = Some (s', jobs', Inr out)"
        "restated Cancelled (cancelled_by (en_jobs e2) i) (arena_put (en_jobs e2) i (j\<lparr>state := Cancelled\<rparr>)) jobs'"
      unfolding cancelled_by_def by auto
    from c d q(1) obtain e3 where
      e3: "engine_record L (e2\<lparr>en_scheduler := s', en_jobs := jobs'\<rparr>) (R_Cancelled i now) = Some e3"
      by (auto simp: on_cancel_def with_sched_def bind_eq_Some_conv)
    define ew where "ew = (case slot of Some sl \<Rightarrow> push_dispatch L (note_all (note_terminal e3 i now) out now) w (Kill sl i)
        | None \<Rightarrow> (note_all (note_terminal e3 i now) out now, w))"
    from c d q(1) e3 have e': "e' = fst (reply_durably (fst ew) (snd ew) rp (Ans_Cancel (Inr out)))"
      by (auto simp: on_cancel_def with_sched_def ew_def Let_def split: option.splits prod.splits)
    have "follows (en_jobs e2) [R_Cancelled i now] jobs'"
      by (rule follows_cancelled [OF j q(2) cancel_shape [OF q(1)]])
    then have "logs L e e3" by (intro logs_record [OF _ _ e3]) (simp_all add: same)
    also have "logs L e3 (note_terminal e3 i now)" by (rule logs_note)
    also have "logs L (note_terminal e3 i now) (note_all (note_terminal e3 i now) out now)" by (rule logs_note)
    also have "logs L (note_all (note_terminal e3 i now) out now) (fst ew)"
      by (cases slot) (simp_all add: ew_def logs_push logs_same)
    also have "logs L (fst ew) e'" unfolding e' by (rule logs_reply)
    finally show ?thesis .
  next
    case False
    then obtain err where q: "cancel (en_scheduler e2) i (en_jobs e2) now (en_cycle e2) = Some (en_scheduler e2, en_jobs e2, Inl err)"
      using lifecycle_errors(3) [OF s, of i] lifecycle_errors(6) [OF s, of i] by (cases "arena_get (en_jobs e2) i") auto
    let ?e = "e2\<lparr>en_scheduler := en_scheduler e2, en_jobs := en_jobs e2\<rparr>"
    from c d q have "e' = fst (reply_durably ?e w rp (Ans_Cancel (Inl err)))" by (simp add: on_cancel_def with_sched_def)
    moreover have "logs L e ?e" by (rule logs_same) (simp_all add: same)
    ultimately show ?thesis using logs_trans [OF _ logs_reply] by metis
  qed
qed

lemma on_submit_logs:
  assumes inv: "engine_inv L e" and ok: "submittable e j" and c: "on_submit L e w j rp now = Some (e', w')"
  shows "logs L e e'"
proof -
  have s: "sched_inv (en_scheduler e) (en_jobs e)" using inv by (simp add: engine_inv_def engine_core_def)
  note wf = jobs_okD(1) [OF sched_invD(1) [OF s]]
  from c obtain i where i: "next_id (en_jobs e) = Some i" by (auto simp: on_submit_def bind_eq_Some_conv)
  show ?thesis
  proof (cases "check_submit (en_scheduler e) i j (en_jobs e)")
    case (Inl err)
    with i c show ?thesis by (simp add: on_submit_def logs_same)
  next
    case (Inr rd)
    with c i obtain jobs1 k where ins: "arena_insert (en_jobs e) j = Some (jobs1, k)"
      by (auto simp: on_submit_def bind_eq_Some_conv)
    with arena_insert_next_id [OF ins] i have ins: "arena_insert (en_jobs e) j = Some (jobs1, i)" by simp
    have g: "arena_get jobs1 i = Some j" by (simp add: arena_insert_get [OF wf ins])
    have len: "length (arena_slots jobs1) < 2 ^ 32 - 1"
      using ok jobs_okD(2) [OF sched_invD(1) [OF s]] by (auto simp: insert_length [OF ins] submittable_def)
    have st: "state j = Submitted" "length (deps j) < 2 ^ 32"
      using ok by (auto simp: submittable_def job_fits_def encodable_def)
    let ?jobs = "arena_put jobs1 i (j\<lparr>state := readiness_state rd\<rparr>)"
    from submit_spec [OF s ins st(1) Inr st(2) len, of now "en_cycle e"] obtain s' where
      q: "submit (en_scheduler e) i jobs1 now (en_cycle e) = Some (s', ?jobs, Inr (readiness_state rd))" by blast
    from c i Inr ins obtain e2 where e2: "engine_record L (e\<lparr>en_jobs := jobs1\<rparr>) (R_Submitted i j) = Some e2"
      by (cases "en_journal e") (auto simp: on_submit_def engine_record_def record_submitted_record g bind_eq_Some_conv)
    then obtain J where J: "e2 = e\<lparr>en_jobs := jobs1, en_journal := J\<rparr>" using engine_record_only by blast
    let ?e = "e2\<lparr>en_scheduler := s', en_jobs := ?jobs\<rparr>"
    let ?e3 = "if is_terminal (readiness_state rd) then note_terminal ?e i now else ?e"
    have rec2: "engine_record L (e\<lparr>en_scheduler := s', en_jobs := ?jobs\<rparr>) (R_Submitted i j) = Some ?e"
      using engine_record_elsewhere [OF e2, of "e\<lparr>en_scheduler := s', en_jobs := ?jobs\<rparr>"] J by simp
    from c i Inr ins e2 q have "e' = fst (reply_durably ?e3 w rp (Ans_Submit (Inr (i, readiness_state rd))))"
      by (cases "en_journal e") (auto simp: on_submit_def engine_record_def record_submitted_record g with_sched_def bind_eq_Some_conv)
    moreover have "logs L e ?e"
      by (rule logs_record [OF _ _ rec2]) (use follows_submitted [OF wf ins st(1) Inr st(2) len] in simp_all)
    moreover have "logs L ?e ?e3" by (simp add: logs_note logs_same)
    ultimately show ?thesis using logs_trans [OF logs_trans logs_reply] by metis
  qed
qed

section \<open>Requeueing\<close>

text \<open>A job that is not blocked is requeued or left alone; no other job changes.\<close>

lemma requeue_logged_logs:
  assumes s: "sched_inv (en_scheduler e) (en_jobs e)" and nb: "\<not> in_state (en_jobs e) i Blocked"
    and c: "requeue_logged L e i now = Some e'"
  shows "logs L e e' \<and> sched_inv (en_scheduler e') (en_jobs e')
     \<and> (\<forall>x. \<not> in_state (en_jobs e) x Blocked \<longrightarrow> \<not> in_state (en_jobs e') x Blocked)"
proof -
  have "\<And>j. arena_get (en_jobs e) i = Some j \<Longrightarrow> state j \<noteq> Blocked" using nb by (auto simp: in_state_def)
  from requeue_spec [OF s this, of i now "en_cycle e"] obtain s' jobs' r where
    q: "requeue (en_scheduler e) i (en_jobs e) now (en_cycle e) = Some (s', jobs', r)" "sched_inv s' jobs'"
      "case arena_get (en_jobs e) i of None \<Rightarrow> r = Inl (UnknownJob i) \<and> jobs' = en_jobs e
        | Some j \<Rightarrow> if state j = Running \<or> state j = Preempted then r = Inr () \<and> jobs' = arena_put (en_jobs e) i (j\<lparr>state := Ready\<rparr>)
                    else r = Inl (Transition (TransitionError (state j) Ready)) \<and> jobs' = en_jobs e" by blast
  let ?e = "e\<lparr>en_scheduler := s', en_jobs := jobs'\<rparr>"
  show ?thesis
  proof (cases r)
    case (Inl err)
    with q(3) have "jobs' = en_jobs e" by (auto split: option.splits if_splits)
    moreover from Inl c q(1) have "e' = ?e" by (simp add: requeue_logged_def with_sched_def)
    ultimately show ?thesis using q(2) by (auto intro!: logs_same)
  next
    case (Inr u)
    with q(3) obtain j where j: "arena_get (en_jobs e) i = Some j" "state j = Running \<or> state j = Preempted"
      "jobs' = arena_put (en_jobs e) i (j\<lparr>state := Ready\<rparr>)" by (auto split: option.splits if_splits)
    from Inr c q(1) have e': "engine_record L ?e (R_Requeued i now) = Some e'" by (simp add: requeue_logged_def with_sched_def)
    have "follows (en_jobs e) [R_Requeued i now] jobs'" unfolding j(3) by (rule follows_requeued [OF j(1,2) refl])
    then have "logs L e e'" by (intro logs_record [OF _ _ e']) simp_all
    moreover have "en_scheduler e' = s'" "en_jobs e' = jobs'"
      using engine_record_only [OF e'] by (metis engine.ext_inject engine.surjective engine.update_convs(3,5,15))+
    ultimately show ?thesis using q(2) j by (auto simp: in_state_put [OF j(1)])
  qed
qed

lemma requeues_logs:
  assumes "sched_inv (en_scheduler e) (en_jobs e)" and "\<forall>i\<in>set ids. \<not> in_state (en_jobs e) i Blocked"
    and "for_each (\<lambda>i e. requeue_logged L e i now) ids e = Some e'"
  shows "logs L e e'"
  using assms
proof (induction ids arbitrary: e)
  case Nil
  then show ?case by (simp add: logs_same)
next
  case (Cons i ids)
  from Cons.prems(3) obtain e1 where e1: "requeue_logged L e i now = Some e1" "for_each (\<lambda>i e. requeue_logged L e i now) ids e1 = Some e'"
    by (auto simp: bind_eq_Some_conv)
  from requeue_logged_logs [OF Cons.prems(1) _ e1(1)] Cons.prems(2) have
    "logs L e e1" "sched_inv (en_scheduler e1) (en_jobs e1)" "\<forall>i\<in>set ids. \<not> in_state (en_jobs e1) i Blocked" by auto
  with Cons.IH [OF _ _ e1(2)] show ?case by (blast intro: logs_trans)
qed

section \<open>Workers joining and leaving\<close>

lemma bound_not_blocked:
  assumes "engine_inv L e" and "i \<in> run_job ` set (en_running e) \<union> set (en_reconciling e)"
  shows "\<not> in_state (en_jobs e) i Blocked"
proof -
  from assms have "held_req (en_jobs e) i \<noteq> None" by (auto simp: engine_inv_def binds_def)
  with held_reqD [of "en_jobs e" i] show ?thesis by (auto simp: in_state_def)
qed

lemma adopt_running_logs:
  assumes s: "sched_inv (en_scheduler e) (en_jobs e)" and c: "adopt_running L i slot now (e, w) = Some (e', w')"
  shows "logs L e e'"
proof (cases "\<exists>j. arena_get (en_jobs e) i = Some j \<and> state j = Running \<and> (\<exists>err. try_allocate (en_inventory e) slot (request j) = Inl err)")
  case False
  with c show ?thesis
    by (auto simp: adopt_running_def intro!: logs_same split: option.splits sum.splits if_splits)
next
  case True
  then obtain j err where j: "arena_get (en_jobs e) i = Some j" "state j = Running" "try_allocate (en_inventory e) slot (request j) = Inl err" by blast
  with c obtain e1 where e1: "requeue_logged L e i now = Some e1" "e' = fst (push_dispatch L e1 w (Kill slot i))"
    by (auto simp: adopt_running_def bind_eq_Some_conv)
  from requeue_logged_logs [OF s _ e1(1)] j have "logs L e e1" by (simp add: in_state_def)
  from logs_trans [OF this logs_push] show ?thesis unfolding e1(2) .
qed

lemma claim_logs:
  assumes inv: "engine_inv L e" and c: "claim L slot now i (e, w) = Some (e', w')"
  shows "logs L e e'"
proof -
  have s: "sched_inv (en_scheduler e) (en_jobs e)" using inv by (simp add: engine_inv_def engine_core_def)
  show ?thesis
  proof (cases "i \<in> set (en_reconciling e)")
    case True
    from unhold_held [OF inv True] obtain held where h: "unhold e i = Some (e\<lparr>en_reconciling := held\<rparr>, True)" by blast
    with c have "adopt_running L i slot now (e\<lparr>en_reconciling := held\<rparr>, w) = Some (e', w')" by (simp add: claim_def)
    from adopt_running_logs [OF _ this] s have "logs L (e\<lparr>en_reconciling := held\<rparr>) e'" by simp
    then show ?thesis by (rule logs_trans [rotated]) (rule logs_same; simp)
  next
    case False
    note u = unhold_absent [OF False]
    show ?thesis
    proof (cases "position (\<lambda>r. run_job r = i) (en_running e)")
      case None
      with c u have "e' = fst (push_dispatch L e w (Kill slot i))" by (simp add: claim_def)
      with logs_push show ?thesis by metis
    next
      case (Some pos)
      with c u obtain r where r: "vec_index (en_running e) pos = Some r" by (auto simp: claim_def bind_eq_Some_conv)
      let ?e = "inventory_or_keep e (release (en_inventory e) (run_slot r) (run_resources r))"
      have same: "en_jobs ?e = en_jobs e" "en_journal ?e = en_journal e" "en_scheduler ?e = en_scheduler e" by simp_all
      show ?thesis
      proof (cases "try_allocate (en_inventory ?e) slot (run_resources r)")
        case (Inr iv)
        with c u Some r show ?thesis
          by (auto simp: claim_def bind_eq_Some_conv Let_def intro!: logs_same)
      next
        case (Inl err)
        with c u Some r obtain running x e1 where
          e1: "requeue_logged L (?e\<lparr>en_running := running\<rparr>) i now = Some e1" "e' = fst (push_dispatch L e1 w (Kill slot i))"
          by (auto simp: claim_def bind_eq_Some_conv Let_def)
        have "i \<in> run_job ` set (en_running e)" using Some position_None [of "\<lambda>r. run_job r = i" "en_running e"] by (metis imageI option.distinct(1))
        then have "\<not> in_state (en_jobs e) i Blocked" using bound_not_blocked [OF inv] by blast
        with requeue_logged_logs [OF _ _ e1(1)] s have "logs L (?e\<lparr>en_running := running\<rparr>) e1" by simp
        moreover have "logs L e (?e\<lparr>en_running := running\<rparr>)" by (rule logs_same) simp_all
        moreover have "logs L e1 e'" unfolding e1(2) by (rule logs_push)
        ultimately show ?thesis by (blast intro: logs_trans)
      qed
    qed
  qed
qed

lemma claims_logs:
  assumes "engine_inv L e" and "slot_named e slot" and "for_each (claim L slot now) ids (e, w) = Some (e', w')"
  shows "logs L e e'"
  using assms
proof (induction ids arbitrary: e w)
  case Nil
  then show ?case by (simp add: logs_same)
next
  case (Cons i ids)
  from claim_inv [OF Cons.prems(1,2), of now i w] obtain e1 w1 where
    one: "claim L slot now i (e, w) = Some (e1, w1)" "engine_inv L e1" "en_names e1 = en_names e" by blast
  with Cons.prems(2,3) have "slot_named e1 slot" "for_each (claim L slot now) ids (e1, w1) = Some (e', w')"
    by (simp_all add: slot_named_def)
  from logs_trans [OF claim_logs [OF Cons.prems(1) one(1)] Cons.IH [OF one(2) this]] show ?case .
qed

lemma on_worker_joined_logs:
  assumes inv: "engine_inv L e" and room: "length (inv_slots (en_inventory e)) + 1 < 2 ^ 32"
    and c: "on_worker_joined L e w name cap in_flight rp now = Some (e', w')"
  shows "logs L e e'"
proof -
  from join_slot [OF inv room, of cap name] obtain iv slot ns where
    j: "(case find_vacant (en_inventory e) 0 (en_names e) of
             Some slot \<Rightarrow> Some (inventory_or_keep e (set_capacity (en_inventory e) slot cap), slot)
           | None \<Rightarrow> do { (iv, slot) \<leftarrow> push_slot (en_inventory e) cap; Some (e\<lparr>en_inventory := iv\<rparr>, slot) })
         = Some (e\<lparr>en_inventory := iv\<rparr>, slot)"
      "vec_set (if length (en_names e) \<le> unat slot then vec_resize (en_names e) (unat slot + 1) None else en_names e)
         (unat slot) (Some name) = Some ns"
      "engine_inv L (e\<lparr>en_inventory := iv, en_names := ns\<rparr>)" "slot_named (e\<lparr>en_inventory := iv, en_names := ns\<rparr>) slot"
    by blast
  let ?e = "e\<lparr>en_inventory := iv, en_names := ns\<rparr>"
  from c j(1,2) obtain w1 where "for_each (claim L slot now) in_flight (?e, w) = Some (e', w1)"
    by (auto simp: on_worker_joined_def Let_def bind_eq_Some_conv cong: if_cong)
  from claims_logs [OF j(3,4) this] have "logs L ?e e'" .
  then show ?thesis by (rule logs_trans [rotated]) (rule logs_same; simp)
qed

lemma evict_slot_logs:
  assumes inv: "engine_inv L e" and c: "evict_slot L e slot now = Some e'"
  shows "logs L e e'"
proof -
  let ?ids = "map run_job (filter (\<lambda>r. run_slot r = slot) (en_running e))"
  let ?e = "e\<lparr>en_running := filter (\<lambda>r. run_slot r \<noteq> slot) (en_running e)\<rparr>"
  have s: "sched_inv (en_scheduler e) (en_jobs e)" using inv by (simp add: engine_inv_def engine_core_def)
  from c obtain e1 where
    e1: "(if en_quiescing e then Some ?e else for_each (\<lambda>i e. requeue_logged L e i now) ?ids ?e) = Some e1"
      "en_jobs e' = en_jobs e1" "en_journal e' = en_journal e1"
    by (auto simp: evict_slot_def Let_def bind_eq_Some_conv)
  have nb: "\<forall>i\<in>set ?ids. \<not> in_state (en_jobs ?e) i Blocked" using bound_not_blocked [OF inv] by auto
  have "logs L ?e e1"
  proof (cases "en_quiescing e")
    case True
    with e1(1) show ?thesis by (simp add: logs_same)
  next
    case False
    then have "for_each (\<lambda>i e. requeue_logged L e i now) ?ids ?e = Some e1" using e1(1) by simp
    from requeues_logs [OF _ nb this] s show ?thesis by simp
  qed
  moreover have "logs L e ?e" by (rule logs_same) simp_all
  moreover have "logs L e1 e'" by (rule logs_same) (simp_all add: e1)
  ultimately show ?thesis by (blast intro: logs_trans)
qed

section \<open>Commands\<close>

lemma handle_logs:
  assumes inv: "engine_inv L e" and ok: "acceptable e c" and h: "handle L c now (e, w) = Some (e', w')"
  shows "logs L e e'"
proof (cases c)
  case (Cmd_Submit j rp)
  with on_submit_logs [OF inv] ok h show ?thesis by (simp add: acceptable_def)
next
  case (Cmd_Cancel i rp)
  with on_cancel_logs [OF inv] h show ?thesis by simp
next
  case (Cmd_Completed i)
  with on_completed_report_logs [OF inv] h show ?thesis by (auto simp: bind_eq_Some_conv)
next
  case (Cmd_Failed i)
  with on_failed_report_logs [OF inv] h show ?thesis by (auto simp: bind_eq_Some_conv)
next
  case (Cmd_Preempted i)
  with on_preempted_report_logs [OF inv] h show ?thesis by (auto simp: bind_eq_Some_conv)
next
  case (Cmd_WorkerJoined name cap in_flight rp)
  with on_worker_joined_logs [OF inv] ok h show ?thesis by (simp add: acceptable_def)
next
  case (Cmd_WorkerLeft slot)
  with evict_slot_logs [OF inv] h show ?thesis by (auto simp: bind_eq_Some_conv)
next
  case (Cmd_WorkerDraining slot)
  with h show ?thesis by (auto intro!: logs_same)
next
  case (Cmd_Query q)
  with h show ?thesis by (auto simp: bind_eq_Some_conv intro!: logs_same)
qed

end
