(* ===== verification/Engine_Log_Tick.thy ===== *)
theory Engine_Log_Tick
  imports Engine_Log
begin

text \<open>
  The second half of the log's story: a tick journals what it does to the jobs, and every history
  from a fresh engine on can be replayed from the records journalled on the way.
\<close>

section \<open>Ticks\<close>

lemma alike_trans: "alike a b \<Longrightarrow> alike b c \<Longrightarrow> alike a c"
  by (simp add: alike_def)

lemma alike_sym: "alike a b \<Longrightarrow> alike b a"
  by (simp add: alike_def)

lemma follows_alike:
  assumes "alike a b"
  shows "follows a [] b"
proof -
  have "mirrors b r" if "mirrors a r" for r
    using that alike_trans [OF alike_sym [OF assms], of "en_jobs r"] by (simp add: mirrors_def)
  then show ?thesis by (simp add: follows_def)
qed

lemma follows_dispatches:
  assumes "distinct ids" and "\<forall>i\<in>set ids. in_state jobs i Ready"
    and "restated Running (set ids) jobs jobs'" and "arena_shape jobs' = arena_shape jobs"
  shows "follows jobs (map (\<lambda>i. R_Dispatched i now) ids) jobs'"
  using assms
proof (induction ids arbitrary: jobs)
  case Nil
  then show ?case by (simp add: follows_alike alike_def restated_def)
next
  case (Cons i ids)
  from Cons.prems(2) obtain j where j: "arena_get jobs i = Some j" "state j = Ready" by (auto simp: in_state_def)
  let ?jobs = "arena_put jobs i (j\<lparr>state := Running\<rparr>)"
  have "restated Running (set ids) ?jobs jobs'"
    using Cons.prems(1,3) j(1) by (auto simp: restated_def arena_put_get [OF j(1)])
  then have "follows ?jobs (map (\<lambda>i. R_Dispatched i now) ids) jobs'"
    using Cons.prems by (intro Cons.IH) (auto simp: in_state_put [OF j(1)] shape_put)
  from follows_trans [OF follows_dispatched [OF j] this] show ?case by simp
qed

lemma dispatched_journal:
  assumes "for_each (on_dispatched L now) ds (e, w) = Some (e', w')" and "\<forall>d\<in>set ds. arena_get (en_jobs e) (dec_job d) \<noteq> None"
    and "journal_log (crc32 L) (en_journal e) rs"
  shows "journal_log (crc32 L) (en_journal e') (rs @ map (\<lambda>d. R_Dispatched (dec_job d) now) ds)"
  using assms
proof (induction ds arbitrary: e w rs)
  case (Cons d ds)
  from Cons.prems(2) obtain j where j: "arena_get (en_jobs e) (dec_job d) = Some j" by auto
  from Cons.prems(1) obtain e1 w1 where
    e1: "on_dispatched L now d (e, w) = Some (e1, w1)" "for_each (on_dispatched L now) ds (e1, w1) = Some (e', w')"
    by (auto simp: bind_eq_Some_conv)
  let ?e = "e\<lparr>en_running := en_running e @ [\<lparr>run_job = dec_job d, run_slot = dec_slot d, run_resources = request j,
      run_ends_at = time_saturating_add now (walltime_limit j)\<rparr>]\<rparr>"
  from e1(1) j obtain e2 where e2: "engine_record L ?e (R_Dispatched (dec_job d) now) = Some e2"
    "dispatch_durably L e2 w (Assign (dec_slot d) (dec_job d) (payload j) (walltime_limit j)) = (e1, w1)"
    by (auto simp: on_dispatched_def Let_def bind_eq_Some_conv)
  have "journal_log (crc32 L) (en_journal e2) (rs @ [R_Dispatched (dec_job d) now])"
    using journal_log_record [OF _ e2(1)] Cons.prems(3) by simp
  then have "journal_log (crc32 L) (en_journal e1) (rs @ [R_Dispatched (dec_job d) now])"
    using e2(2) by (auto simp: dispatch_durably_def push_dispatch_def split: option.splits prod.splits sum.splits)
  moreover have "en_jobs e1 = en_jobs e" using on_dispatched_jobs [OF e1(1)] by simp
  ultimately show ?case using Cons.IH [OF e1(2), of "rs @ [R_Dispatched (dec_job d) now]"] Cons.prems(2) by simp
qed simp

lemma cycle_logs:
  assumes inv: "engine_inv L e"
    and c: "run_cycle (en_scheduler e) (en_jobs e) (en_inventory e) (en_running e) now (en_cycle e) [] = Some (s', jobs', iv', ds, out)"
    and d: "for_each (on_dispatched L now) ds (e\<lparr>en_scheduler := s', en_jobs := jobs', en_inventory := iv'\<rparr>, w) = Some (e', w')"
  shows "logs L e e'"
proof -
  note I = inv [unfolded engine_inv_def engine_core_def]
  have s: "sched_inv (en_scheduler e) (en_jobs e)" and len: "length (inv_slots (en_inventory e)) < 2 ^ 32"
    and b: "books (en_inventory e) (en_running e)" and da: "data_ok (en_jobs e)" using I by blast+
  have "drained_or_within (en_inventory e)" using b by (simp add: books_def)
  then have snd: "alloc_sound (en_inventory e) (request j)" if "arena_get (en_jobs e) i = Some j" "state j = Ready" for i j
    using that da by (auto simp: drained_or_within_sound data_ok_def)
  have "\<exists>s' jobs' iv' new out. run_cycle (en_scheduler e) (en_jobs e) (en_inventory e) (en_running e) now (en_cycle e) []
        = Some (s', jobs', iv', [] @ new, out)
     \<and> sched_inv s' jobs' \<and> allocate_all (en_jobs e) (en_inventory e) new = Some iv' \<and> distinct (map dec_job new)
     \<and> (\<forall>d\<in>set new. \<exists>j. arena_get (en_jobs e) (dec_job d) = Some j \<and> state j = Ready)
     \<and> restated Running (dec_job ` set new) (en_jobs e) jobs'"
    by (rule run_cycle_spec [OF s len]) (rule snd)
  with c have p: "distinct (map dec_job ds)" "\<forall>d\<in>set ds. \<exists>j. arena_get (en_jobs e) (dec_job d) = Some j \<and> state j = Ready"
    "restated Running (dec_job ` set ds) (en_jobs e) jobs'" by auto
  have "follows (en_jobs e) (map (\<lambda>i. R_Dispatched i now) (map dec_job ds)) jobs'"
    by (rule follows_dispatches [OF p(1)]) (use p(2,3) run_cycle_shape [OF c] in \<open>auto simp: in_state_def\<close>)
  moreover have "en_jobs e' = jobs'" using dispatched_jobs [OF d] by simp
  moreover have "\<forall>d\<in>set ds. arena_get jobs' (dec_job d) \<noteq> None" using p(2,3) by (auto simp: restated_def)
  ultimately show ?thesis
    unfolding logs_def using dispatched_journal [OF d]
    by (intro exI [of _ "map (\<lambda>d. R_Dispatched (dec_job d) now) ds"]) (simp add: comp_def)
qed

lemma evict_one_logs:
  assumes s: "sched_inv (en_scheduler e) (en_jobs e)" and c: "evict_one L now ev (e, w) = Some (e', w')"
  shows "logs L e e'"
proof -
  from sched_preempt_spec [OF s, of "ev_job ev"] obtain jobs' r where
    q: "sched_preempt (en_scheduler e) (ev_job ev) (en_jobs e) = Some (en_scheduler e, jobs', r)"
      "case arena_get (en_jobs e) (ev_job ev) of None \<Rightarrow> r = Inl (UnknownJob (ev_job ev)) \<and> jobs' = en_jobs e
        | Some j \<Rightarrow> if state j = Running then r = Inr () \<and> jobs' = arena_put (en_jobs e) (ev_job ev) (j\<lparr>state := Preempted\<rparr>)
                    else r = Inl (Transition (TransitionError (state j) Preempted)) \<and> jobs' = en_jobs e" by blast
  show ?thesis
  proof (cases r)
    case (Inl err)
    with q(2) have "jobs' = en_jobs e" by (auto split: option.splits if_splits)
    with Inl c q(1) show ?thesis by (auto simp: evict_one_def with_sched_def intro!: logs_same)
  next
    case (Inr u)
    with q(2) obtain j where j: "arena_get (en_jobs e) (ev_job ev) = Some j" "state j = Running"
      "jobs' = arena_put (en_jobs e) (ev_job ev) (j\<lparr>state := Preempted\<rparr>)" by (auto split: option.splits if_splits)
    let ?e = "e\<lparr>en_scheduler := en_scheduler e, en_jobs := jobs'\<rparr>"
    from Inr c q(1) obtain e2 where
      e2: "engine_record L ?e (R_Preempted (ev_job ev) now) = Some e2"
        "dispatch_durably L e2 w (Preempt (ev_slot ev) (ev_job ev) (grace (cc_preempt (en_cycle e2)))) = (e', w')"
      by (auto simp: evict_one_def with_sched_def bind_eq_Some_conv)
    have "logs L e e2"
      by (rule logs_record [OF _ _ e2(1)]) (use follows_preempted [OF j(1,2)] j(3) in simp_all)
    from logs_trans [OF this logs_dispatch, of L w "Preempt (ev_slot ev) (ev_job ev) (grace (cc_preempt (en_cycle e2)))"]
    show ?thesis by (simp add: e2(2))
  qed
qed

lemma evict_loop_logs:
  assumes "engine_inv L e" and "\<forall>ev\<in>set evs. ev_job ev \<in> run_job ` set (en_running e)"
    and "for_each (evict_one L now) evs (e, w) = Some (e', w')"
  shows "logs L e e'"
  using assms
proof (induction evs arbitrary: e w)
  case Nil
  then show ?case by (simp add: logs_same)
next
  case (Cons ev evs)
  from evict_one_inv [OF Cons.prems(1), of ev now w] Cons.prems(2) obtain e1 w1 where
    one: "evict_one L now ev (e, w) = Some (e1, w1)" "engine_inv L e1" "en_running e1 = en_running e" by auto
  have "logs L e e1"
    by (rule evict_one_logs [OF _ one(1)]) (use Cons.prems(1) in \<open>simp add: engine_inv_def engine_core_def\<close>)
  moreover have "logs L e1 e'" using Cons.IH [OF one(2), of w1] Cons.prems(2,3) one by simp
  ultimately show ?case by (rule logs_trans)
qed

lemma plan_evictions_logs:
  assumes inv: "engine_inv L e" and c: "plan_evictions L head now (e, w) = Some (e', w')"
  shows "logs L e e'"
proof (cases "arena_get (en_jobs e) head")
  case None
  with c show ?thesis by (simp add: plan_evictions_def logs_same)
next
  case (Some j)
  from planned_victims [OF inv, of j now] obtain evs r where
    p: "plan_preemption j (en_running e) (en_jobs e) (en_inventory e) now (cc_preempt (en_cycle e)) [] = Some (evs, r)"
      "\<forall>ev\<in>set evs. ev_job ev \<in> run_job ` set (en_running e)" by blast
  from p(1) Some c have "for_each (evict_one L now) evs (e, w) = Some (e', w')" by (simp add: plan_evictions_def)
  from evict_loop_logs [OF inv p(2) this] show ?thesis .
qed

lemma forget_loop_logs:
  assumes "engine_inv L (e\<lparr>en_terminal := ts\<rparr>)" and "gens_left (en_jobs e)" and "forget_loop L now ts e = Some e'"
  shows "logs L e e'"
  using assms
proof (induction ts arbitrary: e)
  case Nil
  then show ?case by (auto intro!: logs_same)
next
  case (Cons t ts)
  obtain at i where t: "t = (at, i)" by (cases t)
  show ?case
  proof (cases "saturating_sub_time now at < en_retain e")
    case True
    with Cons.prems(3) t show ?thesis by (auto intro!: logs_same)
  next
    case False
    show ?thesis
    proof (cases "arena_get (en_jobs e) i")
      case None
      have "engine_inv L (e\<lparr>en_terminal := ts\<rparr>)"
        using Cons.prems(1) None t by (auto simp: engine_inv_def engine_core_def term_ok_def)
      from Cons.IH [OF this Cons.prems(2)] Cons.prems(3) False None t show ?thesis by (simp add: arena_remove_None)
    next
      case (Some j)
      from arena_remove_Some [OF Some] obtain jobs' where r: "arena_remove (en_jobs e) i = (jobs', Some j)" by blast
      from engine_record_ok [of L "e\<lparr>en_jobs := jobs'\<rparr>" "R_Forgotten i"] Cons.prems(1) obtain J where
        J: "engine_record L (e\<lparr>en_jobs := jobs'\<rparr>) (R_Forgotten i) = Some (e\<lparr>en_jobs := jobs', en_journal := J\<rparr>)" "journal_ok (crc32 L) J"
        by (auto simp: engine_inv_def engine_core_def)
      let ?e = "e\<lparr>en_jobs := jobs', en_journal := J\<rparr>"
      have "forget_loop L now ((at, i) # ts) e = forget_loop L now ts ?e"
        using False J(1) by (subst forget_loop.simps) (simp add: r)
      with Cons.prems(3) t have l: "forget_loop L now ts ?e = Some e'" by simp
      have "i \<in> ended (en_jobs e)" using Cons.prems(1) t Some by (auto simp: engine_inv_def engine_core_def term_ok_def)
      then have j: "is_terminal (state j)" using Some by (auto simp: ended_def)
      have g: "job_generation i \<noteq> - 1" using Cons.prems(2) Some by (auto simp: gens_left_def)
      have "logs L e ?e"
        by (rule logs_record [OF _ _ J(1)]) (use follows_forgotten [OF Some j g] r in simp_all)
      moreover have "engine_inv L (?e\<lparr>en_terminal := ts\<rparr>)" "gens_left (en_jobs ?e)"
        using engine_inv_forget [OF Cons.prems(1) [unfolded t] Cons.prems(2) Some J(2)] r by simp_all
      from Cons.IH [OF this l] have "logs L ?e e'" .
      ultimately show ?thesis by (rule logs_trans)
    qed
  qed
qed

lemma requeue_unclaimed_logs:
  assumes "sched_inv (en_scheduler e) (en_jobs e)" and "requeue_unclaimed L now i e = Some e'"
  shows "logs L e e' \<and> sched_inv (en_scheduler e') (en_jobs e')"
proof (cases "map_option state (arena_get (en_jobs e) i) = Some Running")
  case True
  then have n: "\<not> in_state (en_jobs e) i Blocked" by (auto simp: in_state_def)
  from assms(2) True have "requeue_logged L e i now = Some e'" by (simp only: requeue_unclaimed_def refl if_True)
  from requeue_logged_logs [OF assms(1) n this] show ?thesis by (elim conjE) (intro conjI)
next
  case False
  with assms(2) have "e' = e" by (simp only: requeue_unclaimed_def if_False option.inject)
  with assms(1) show ?thesis by (simp add: logs_same)
qed

lemma unclaimed_logs:
  assumes "sched_inv (en_scheduler e) (en_jobs e)" and "for_each (requeue_unclaimed L now) ids e = Some e'"
  shows "logs L e e'"
  using assms
proof (induction ids arbitrary: e)
  case Nil
  then show ?case by (simp add: logs_same)
next
  case (Cons i ids)
  from Cons.prems(2) obtain e1 where e1: "requeue_unclaimed L now i e = Some e1" "for_each (requeue_unclaimed L now) ids e1 = Some e'"
    by (auto simp: bind_eq_Some_conv)
  from requeue_unclaimed_logs [OF Cons.prems(1) e1(1)] Cons.IH [OF _ e1(2)] show ?case by (blast intro: logs_trans)
qed

lemma expire_reconcile_logs:
  assumes inv: "engine_inv L e" and c: "expire_reconcile L e now = Some e'"
  shows "logs L e e'"
proof -
  have s: "sched_inv (en_scheduler e) (en_jobs e)" using inv by (simp add: engine_inv_def engine_core_def)
  let ?until = "case en_reconcile_until e of Some t \<Rightarrow> t | None \<Rightarrow> time_saturating_add now (en_reconcile_window e)"
  show ?thesis
  proof (cases "en_reconciling e = [] \<or> now < ?until")
    case True
    with c show ?thesis by (auto simp: expire_reconcile_def Let_def intro!: logs_same split: if_splits)
  next
    case False
    let ?e = "e\<lparr>en_reconciling := []\<rparr>"
    from False c obtain e1 where e1: "for_each (requeue_unclaimed L now) (en_reconciling e) ?e = Some e1"
      "e' = e1\<lparr>en_reconcile_until := None\<rparr>" by (auto simp: expire_reconcile_def Let_def bind_eq_Some_conv)
    have "logs L e ?e" by (rule logs_same) simp_all
    moreover have "logs L ?e e1" by (rule unclaimed_logs [OF _ e1(1)]) (simp add: s)
    moreover have "logs L e1 e'" by (rule logs_same) (simp_all add: e1)
    ultimately show ?thesis by (blast intro: logs_trans)
  qed
qed

lemma commit_tick_logs:
  assumes inv: "engine_inv L e" and c: "commit_tick L e now = Some e'"
  shows "logs L e e'"
proof (cases "en_journal e")
  case None
  with c show ?thesis by (simp add: commit_tick_def logs_same)
next
  case (Some jn)
  from engine_snapshot_decodes [OF inv, of now] obtain bytes sn where
    b: "engine_snapshot L e now = Some bytes" "decode_snapshot (crc32 L) bytes = Inr sn" by blast
  define jn1 where "jn1 = (if wants_snapshot jn then attach_snapshot jn bytes else jn)"
  have e': "e' = e\<lparr>en_journal := Some (fst (journal_commit jn1))\<rparr>" using c Some b(1) by (auto simp: commit_tick_def jn1_def)
  have "journal_log (crc32 L) (Some jn1) rs" if "journal_log (crc32 L) (Some jn) rs" for rs
    using that journal_log_attach [OF that _ b(2)] by (simp add: jn1_def)
  then show ?thesis using journal_log_commit Some by (intro logs_quiet) (simp_all add: e')
qed

lemma tick_logs:
  assumes inv: "engine_inv L e" and g: "gens_left (en_jobs e)" and t: "tick L now (e, w) = Some ((e', w'), out)"
  shows "logs L e e'"
proof -
  obtain ds w0 where f: "flush_rev L (rev (en_overflow e)) w = (ds, w0)" by (cases "flush_rev L (rev (en_overflow e)) w")
  let ?e = "e\<lparr>en_overflow := rev ds\<rparr>"
  have i0: "engine_inv L ?e" using inv by simp
  from cycle_inv [OF i0, of now w0] obtain s1 jobs1 iv1 ds1 o1 e1 w1 where
    c: "run_cycle (en_scheduler ?e) (en_jobs ?e) (en_inventory ?e) (en_running ?e) now (en_cycle ?e) [] = Some (s1, jobs1, iv1, ds1, o1)"
      "for_each (on_dispatched L now) ds1 (?e\<lparr>en_scheduler := s1, en_jobs := jobs1, en_inventory := iv1\<rparr>, w0) = Some (e1, w1)"
      "engine_inv L e1" by fastforce
  have l1: "logs L e e1"
    by (rule logs_trans [OF _ cycle_logs [OF i0 c(1,2)]]) (rule logs_same; simp)
  have g1: "gens_left (en_jobs e1)"
    using g gens_left_shape [OF run_cycle_shape [OF c(1)]] dispatched_jobs [OF c(2)] by simp
  obtain e2 w2 where p: "(case co_head o1 of None \<Rightarrow> Some (e1, w1) | Some head \<Rightarrow> plan_evictions L head now (e1, w1)) = Some (e2, w2)"
      "engine_inv L e2" "gens_left (en_jobs e2)" "logs L e1 e2"
  proof (cases "co_head o1")
    case None
    with that [of e1 w1] c(3) g1 show thesis by (simp add: logs_same)
  next
    case (Some head)
    from plan_evictions_inv [OF c(3), of head now w1] obtain e2 w2 where
      e2: "plan_evictions L head now (e1, w1) = Some (e2, w2)" "engine_inv L e2" by blast
    have "gens_left (en_jobs e2)" using gens_left_shape [OF plan_evictions_shape [OF e2(1)]] g1 by simp
    with that e2 plan_evictions_logs [OF c(3) e2(1)] Some show thesis by simp
  qed
  let ?e2 = "e2\<lparr>en_cycles := en_cycles e2 + 1\<rparr>"
  have "engine_inv L ?e2" using p(2) by simp
  from refresh_demand_inv [OF this] obtain e3 where r: "refresh_demand ?e2 = Some e3" "engine_inv L e3" by blast
  define e4 where "e4 = (if saturating_sub_time now (en_account_metrics_at e3) \<ge> from_secs 1
                    then e3\<lparr>en_account_metrics_at := now\<rparr> else e3)"
  have l4: "logs L e2 e4"
    using r(1) by (intro logs_same) (auto simp: e4_def refresh_demand_def Let_def bind_eq_Some_conv)
  have i4: "engine_inv L (e4\<lparr>en_terminal := en_terminal e4\<rparr>)" "gens_left (en_jobs e4)"
    using r(2) p(3) refresh_demand_jobs [OF r(1)] by (simp_all add: e4_def)
  from forget_loop_inv [OF i4, of now] obtain e5 where e5: "forget_loop L now (en_terminal e4) e4 = Some e5" "engine_inv L e5" by blast
  from expire_reconcile_inv [OF e5(2), of now] obtain e6 where e6: "expire_reconcile L e5 now = Some e6" "engine_inv L e6" by blast
  from commit_tick_inv [OF e6(2), of now] obtain e7 where e7: "commit_tick L e6 now = Some e7" by blast
  have "tick L now (e, w) = Some ((e7, w2), o1)"
    using c(1,2) p(1) r(1) e5(1) e6(1) e7 f by (simp add: tick_def flush_overflow_def forget_expired_def Let_def e4_def)
  with t have "e' = e7" by simp
  with logs_trans [OF logs_trans [OF logs_trans [OF l1 p(4)] l4] forget_loop_logs [OF i4 e5(1)]]
    logs_trans [OF expire_reconcile_logs [OF e5(2) e6(1)] commit_tick_logs [OF e6(2) e7]]
  show ?thesis by (metis logs_trans)
qed

end
