(* ===== verification/Recovery.thy ===== *)
theory Recovery
  imports Engine_Log_Tick
begin

text \<open>
  Restarting from the log. A daemon that has journalled its whole history, and has not rotated the
  log since its first start, comes back with the jobs it had: the records replay without an error,
  and the engine they build satisfies the invariant of the running engine.
\<close>

section \<open>The log of a history\<close>

lemma records_unique:
  "put_all (encode hash) [] rs = Some bs \<Longrightarrow> put_all (encode hash) [] qs = Some bs \<Longrightarrow> rs = qs"
  using encode_all_log [of hash "[]" rs bs] encode_all_log [of hash "[]" qs bs]
    parse_frames_all [of rs hash "[]" "[]"] parse_frames_all [of qs hash "[]" "[]"] by auto

lemma commit_holds_unique: "commit_holds hash c b \<Longrightarrow> commit_holds hash c b' \<Longrightarrow> b = b'"
  using records_unique by (cases b; cases b') (fastforce simp: commit_holds_def split: option.splits)

lemma batches_unique: "list_all2 (commit_holds hash) cs bs \<Longrightarrow> list_all2 (commit_holds hash) cs bs' \<Longrightarrow> bs = bs'"
proof (induction cs arbitrary: bs bs')
  case (Cons c cs)
  then show ?case by (auto simp: list_all2_Cons1 dest: commit_holds_unique)
qed simp

lemma journal_log_unique:
  assumes "journal_log hash J rs" and "journal_log hash J qs"
  shows "rs = qs"
proof -
  from assms(1) obtain jn bs rs1 sn rs2 where a: "J = Some jn" "list_all2 (commit_holds hash) (ch_queue (jn_tx jn)) bs"
    "commit_holds hash (jn_pending jn) (rs1, sn, rs2)" "rs = flat bs @ rs1 @ rs2" by (rule journal_logE)
  from assms(2) obtain bs' qs1 sn' qs2 where b: "list_all2 (commit_holds hash) (ch_queue (jn_tx jn)) bs'"
    "commit_holds hash (jn_pending jn) (qs1, sn', qs2)" "qs = flat bs' @ qs1 @ qs2" using a(1) by (auto elim: journal_logE)
  from batches_unique [OF a(2) b(1)] commit_holds_unique [OF a(3) b(2)] a(4) b(3) show ?thesis by simp
qed

text \<open>
  Histories of an engine with a journal, and the records the writer has taken so far. They start
  with a fresh journal; the writer takes the batch at the head of the channel.
\<close>

inductive logged :: "'q libs \<Rightarrow> wal_record list \<Rightarrow> engine \<Rightarrow> bool" for L :: "'q libs" where
  logged_build: "max_candidates (dc_cycle config) < 2 ^ 32 \<Longrightarrow> fresh_journal (Some jn) \<Longrightarrow>
    engine_build config (Some jn) = Some e \<Longrightarrow> logged L [] e"
| logged_command: "logged L d e \<Longrightarrow> acceptable e c \<Longrightarrow> handle L c now (e, w) = Some (e', w') \<Longrightarrow> logged L d e'"
| logged_tick: "logged L d e \<Longrightarrow> gens_left (en_jobs e) \<Longrightarrow> tick L now (e, w) = Some ((e', w'), out) \<Longrightarrow> logged L d e'"
| logged_quiesce: "logged L d e \<Longrightarrow> logged L d (e\<lparr>en_quiescing := True\<rparr>)"
| logged_writer: "logged L d e \<Longrightarrow> en_journal e = Some jn \<Longrightarrow> ch_queue (jn_tx jn) = c # cs \<Longrightarrow>
    commit_holds (crc32 L) c (rs1, sn, rs2) \<Longrightarrow>
    logged L (d @ rs1 @ rs2) (e\<lparr>en_journal := Some (jn\<lparr>jn_tx := (jn_tx jn)\<lparr>ch_queue := cs\<rparr>\<rparr>)\<rparr>)"

lemma shares_only:
  assumes "for_each set_account_shares ps e = Some e'"
  shows "e' = e\<lparr>en_scheduler := en_scheduler e'\<rparr>"
  using assms
proof (induction ps arbitrary: e)
  case (Cons p ps)
  from Cons.prems obtain e1 where e1: "set_account_shares p e = Some e1" "for_each set_account_shares ps e1 = Some e'"
    by (auto simp: bind_eq_Some_conv)
  from e1(1) have "e1 = e\<lparr>en_scheduler := en_scheduler e1\<rparr>"
    by (auto simp: set_account_shares_def bind_eq_Some_conv split: sum.splits) (metis sum.exhaust old.unit.exhaust)
  from Cons.IH [OF e1(2)] show ?case by (subst (asm) \<open>e1 = _\<close>) simp
qed simp

lemma built_fields:
  assumes "engine_build config J = Some e"
  shows "en_jobs e = arena_new" "en_journal e = J" "en_running e = []" "en_terminal e = []" "en_reconciling e = []"
    "en_inventory e = from_capacities []" "en_names e = []" "en_quiescing e = False"
    "en_overflow e = []" "en_reconcile_until e = None"
  by (subst shares_only [OF assms [unfolded engine_build_def Let_def]]; simp)+

lemma logged_stepI:
  assumes "engine_inv L e'" and "engine_inv L e \<and> (\<exists>rs. journal_log (crc32 L) (en_journal e) rs \<and> follows arena_new (d @ rs) (en_jobs e))"
    and "logs L e e'"
  shows "engine_inv L e' \<and> (\<exists>rs. journal_log (crc32 L) (en_journal e') rs \<and> follows arena_new (d @ rs) (en_jobs e'))"
proof -
  from assms(2) obtain rs where rs: "journal_log (crc32 L) (en_journal e) rs" "follows arena_new (d @ rs) (en_jobs e)" by blast
  from assms(3) obtain qs where qs: "\<forall>rs0. journal_log (crc32 L) (en_journal e) rs0 \<longrightarrow> journal_log (crc32 L) (en_journal e') (rs0 @ qs)"
    "follows (en_jobs e) qs (en_jobs e')" unfolding logs_def by blast
  from follows_trans [OF rs(2) qs(2)] qs(1) rs(1) assms(1) show ?thesis by (intro conjI exI [of _ "rs @ qs"]) simp_all
qed

lemma logged_story:
  assumes "logged L d e"
  shows "engine_inv L e \<and> (\<exists>rs. journal_log (crc32 L) (en_journal e) rs \<and> follows arena_new (d @ rs) (en_jobs e))"
  using assms
proof (induction rule: logged.induct)
  case (logged_build config jn e)
  note f = built_fields [OF logged_build(3)]
  from engine_build_inv [OF logged_build(1,2), of L] logged_build(3) have "engine_inv L e" by auto
  moreover have "journal_log (crc32 L) (en_journal e) []"
    using logged_build(2) commit_holds_default by (intro journal_logI [of _ jn _ "[]" "[]" None "[]"]) (simp_all add: f fresh_journal_def)
  ultimately show ?case using f by (intro conjI exI [of _ "[]"]) simp_all
next
  case (logged_command d e c now w e' w')
  then have inv: "engine_inv L e" by simp
  from handle_inv [OF inv logged_command(2), of now w] logged_command(3) have "engine_inv L e'" by auto
  from logged_stepI [OF this logged_command.IH handle_logs [OF inv logged_command(2,3)]] show ?case .
next
  case (logged_tick d e now w e' w' out)
  then have inv: "engine_inv L e" by simp
  from tick_inv [OF inv logged_tick(2), of now w] logged_tick(3) have "engine_inv L e'" by auto
  from logged_stepI [OF this logged_tick.IH tick_logs [OF inv logged_tick(2,3)]] show ?case .
next
  case (logged_quiesce d e)
  then show ?case by (simp add: engine_inv_def binds_def)
next
  case (logged_writer d e jn c cs rs1 sn rs2)
  from logged_writer.IH obtain rs where rs: "journal_log (crc32 L) (Some jn) rs" "follows arena_new (d @ rs) (en_jobs e)"
    using logged_writer(2) by auto
  from rs(1) obtain bs qs1 sq qs2 where b: "list_all2 (commit_holds (crc32 L)) (c # cs) bs"
    "commit_holds (crc32 L) (jn_pending jn) (qs1, sq, qs2)" "rs = flat bs @ qs1 @ qs2"
    using logged_writer(3) by (auto elim: journal_logE)
  then obtain bs' where bs: "bs = (rs1, sn, rs2) # bs'" "list_all2 (commit_holds (crc32 L)) cs bs'"
    using commit_holds_unique [OF logged_writer(4)] by (auto simp: list_all2_Cons1)
  have "journal_log (crc32 L) (Some (jn\<lparr>jn_tx := (jn_tx jn)\<lparr>ch_queue := cs\<rparr>\<rparr>)) (flat bs' @ qs1 @ qs2)"
    by (rule journal_logI [OF refl, of _ _ bs' qs1 sq qs2]) (simp_all add: b bs)
  moreover have "follows arena_new ((d @ rs1 @ rs2) @ flat bs' @ qs1 @ qs2) (en_jobs e)" using rs(2) by (simp add: b(3) bs(1))
  moreover have "journal_ok (crc32 L) (Some jn)" using logged_writer.IH logged_writer(2) by (simp add: engine_inv_def engine_core_def)
  then have "journal_ok (crc32 L) (Some (jn\<lparr>jn_tx := (jn_tx jn)\<lparr>ch_queue := cs\<rparr>\<rparr>))"
    using logged_writer(3) by (simp add: journal_ok_def)
  with engine_inv_journal logged_writer.IH have "engine_inv L (e\<lparr>en_journal := Some (jn\<lparr>jn_tx := (jn_tx jn)\<lparr>ch_queue := cs\<rparr>\<rparr>)\<rparr>)" by blast
  ultimately show ?case by (intro conjI exI [of _ "flat bs' @ qs1 @ qs2"]) simp_all
qed

section \<open>Replay on a fresh engine\<close>

text \<open>What the first start of a daemon leaves on disk: no snapshot, or one of an engine without jobs.\<close>

definition boot_snapshot :: "snapshot option \<Rightarrow> bool" where
  "boot_snapshot s \<longleftrightarrow> s = None \<or> (\<exists>config J e at. max_candidates (dc_cycle config) < 2 ^ 32 \<and> fresh_journal J
     \<and> engine_build config J = Some e \<and> s = snapshot_of e at)"

lemma empty_sched_inv:
  assumes s: "sched_inv s arena_new" and t: "sched_inv t (arena_new :: job arena)"
    and r: "fs_restore (sc_fairshare s) (fs_ledgers (sc_fairshare t)) = Inr fs"
  shows "sched_inv (s\<lparr>sc_fairshare := fs\<rparr>) arena_new"
proof -
  have "fs_ledgers fs = fs_ledgers (sc_fairshare t)" using r by (auto simp: fs_restore_def split: if_splits)
  with s t fs_restore_wf [OF r] show ?thesis by (simp add: sched_inv_def jobs_ok_def cpu_exact_def)
qed

lemma boot_restored:
  assumes n: "max_candidates (dc_cycle config) < 2 ^ 32" and e: "engine_build config (Some jn) = Some e"
    and f: "fresh_journal (Some jn)" and b: "boot_snapshot s"
  shows "\<exists>e1 t. (case s of Some sn \<Rightarrow> restore_snapshot e sn | None \<Rightarrow> Some (Inr (e, 0))) = Some (Inr (e1, t))
     \<and> e1 = e\<lparr>en_scheduler := en_scheduler e1\<rparr> \<and> sched_inv (en_scheduler e1) arena_new"
proof -
  from engine_build_inv [OF n f] e have s: "sched_inv (en_scheduler e) arena_new"
    using built_fields [OF e] by (auto simp: engine_inv_def engine_core_def)
  show ?thesis
  proof (cases s)
    case None
    with s show ?thesis by (intro exI [of _ e] exI [of _ 0]) simp
  next
    case (Some sn)
    with b obtain config0 J e0 at where
      e0: "max_candidates (dc_cycle config0) < 2 ^ 32" "fresh_journal J" "engine_build config0 J = Some e0" "snapshot_of e0 at = Some sn"
      by (auto simp: boot_snapshot_def)
    from engine_build_inv [OF e0(1,2)] e0(3) have s0: "sched_inv (en_scheduler e0) arena_new"
      using built_fields [OF e0(3)] by (auto simp: engine_inv_def engine_core_def)
    let ?ls = "fs_ledgers (sc_fairshare (en_scheduler e0))"
    have sn: "sn = \<lparr>sn_taken_at = at, sn_slots = [], sn_free_head = None, sn_running = [], sn_ledgers = ?ls\<rparr>"
      using e0(4) built_fields(1) [OF e0(3)] by (auto simp: snapshot_of_def arena_iter_def arena_new_def ids_in_def)
    have "fs_wf (sc_fairshare (en_scheduler e0))" using s0 by (simp add: sched_inv_def jobs_ok_def)
    then obtain fs where fs: "fs_restore (sc_fairshare (en_scheduler e)) ?ls = Inr fs"
      by (simp add: fs_restore_def fs_wf_def MAX_ACCOUNTS_def)
    have jobs: "e\<lparr>en_jobs := arena_new\<rparr> = e" using built_fields(1) [OF e] by (metis engine.surjective engine.update_convs(3))
    have iter: "arena_iter (arena_new :: job arena) = Some []" by (simp add: arena_iter_def arena_new_def)
    have "arena_from_parts [] None = Inr (arena_new :: job arena)" by (simp add: arena_from_parts_def arena_new_def walk_free_list.simps)
    then have "restore_snapshot e sn = Some (Inr (e\<lparr>en_scheduler := (en_scheduler e)\<lparr>sc_fairshare := fs\<rparr>\<rparr>, at))"
      by (simp add: restore_snapshot_def sn Let_def iter jobs try_step_def restore_ledgers_def fs)
    with Some empty_sched_inv [OF s s0 fs] show ?thesis
      by (intro exI [of _ "e\<lparr>en_scheduler := (en_scheduler e)\<lparr>sc_fairshare := fs\<rparr>\<rparr>"] exI [of _ at]) simp
  qed
qed

text \<open>Replay touches the scheduler, the arena and the list of ended jobs, nothing else.\<close>

definition replayed :: "engine \<Rightarrow> engine \<Rightarrow> bool" where
  "replayed r r' \<longleftrightarrow> r' = r\<lparr>en_scheduler := en_scheduler r', en_jobs := en_jobs r', en_terminal := en_terminal r'\<rparr>"

lemma replayed_refl: "replayed r r"
  by (simp add: replayed_def)

lemma replayed_trans: "replayed a b \<Longrightarrow> replayed b c \<Longrightarrow> replayed a c"
  unfolding replayed_def by (cases a; cases b; cases c) simp

lemma replayed_updates [simp]:
  "replayed r (r'\<lparr>en_scheduler := s\<rparr>) = replayed r r'" "replayed r (r'\<lparr>en_jobs := jobs\<rparr>) = replayed r r'"
  "replayed r (r'\<lparr>en_terminal := ts\<rparr>) = replayed r r'"
  "replayed r (note_terminal r' i at) = replayed r r'" "replayed r (note_all r' is at) = replayed r r'"
  by (cases r; cases r'; simp add: replayed_def note_terminal_def note_all_eq)+

lemma try_sched_replayed: "try_sched r c = Some (Inr (r', x)) \<Longrightarrow> replayed r r'"
  by (cases c) (auto simp: try_sched_def with_sched_def replayed_refl split: prod.split_asm sum.split_asm)

lemma try_step_Inr: "try_step m f = Some (Inr y) \<longleftrightarrow> (\<exists>x. m = Some (Inr x) \<and> f x = Some (Inr y))"
  by (auto simp: try_step_def split: option.splits sum.splits)

lemma apply_record_replayed: "apply_record rec (r, t) = Some (Inr (r', t')) \<Longrightarrow> replayed r r'"
proof (cases rec)
  case (R_Submitted i j)
  assume "apply_record rec (r, t) = Some (Inr (r', t'))"
  then obtain jobs q x where "try_sched (r\<lparr>en_jobs := jobs\<rparr>) (submit (en_scheduler r) i jobs (submit_time j) (en_cycle r)) = Some (Inr (q, x))"
    "r' = (if is_terminal x then note_terminal q i (submit_time j) else q)"
    unfolding R_Submitted by (auto simp: bind_eq_Some_conv try_step_Inr Let_def split: if_splits)
  with try_sched_replayed [of "r\<lparr>en_jobs := jobs\<rparr>"] have "replayed (r\<lparr>en_jobs := jobs\<rparr>) r'" by auto
  with replayed_trans [of r "r\<lparr>en_jobs := jobs\<rparr>"] show ?thesis by (simp add: replayed_refl)
qed (auto simp: try_step_Inr replayed_refl dest!: try_sched_replayed)

lemma apply_records_replayed: "apply_records rs (r, t) = Some (Inr (r', t')) \<Longrightarrow> replayed r r'"
proof (induction rs arbitrary: r t)
  case (Cons x rs)
  then show ?case by (auto simp: try_step_Inr intro: replayed_trans dest: apply_record_replayed)
qed (simp add: replayed_refl)

section \<open>The end of recovery\<close>

lemma requeue_evicting_spec:
  assumes "sched_inv (en_scheduler r) (en_jobs r)" and "term_ok (en_jobs r) (en_terminal r)" and "distinct ids"
    and "\<forall>i\<in>set ids. in_state (en_jobs r) i Preempted"
  shows "\<exists>s jobs. requeue_evicting ids at r = Some (Inr (r\<lparr>en_scheduler := s, en_jobs := jobs\<rparr>)) \<and> sched_inv s jobs
     \<and> term_ok jobs (en_terminal r) \<and> arena_shape jobs = arena_shape (en_jobs r) \<and> restated Ready (set ids) (en_jobs r) jobs"
  using assms
proof (induction ids arbitrary: r)
  case Nil
  then show ?case
    by (intro exI [of _ "en_scheduler r"] exI [of _ "en_jobs r"]) (simp add: restated_def)
next
  case (Cons i ids)
  from Cons.prems(4) obtain j where j: "arena_get (en_jobs r) i = Some j" "state j = Preempted" by (auto simp: in_state_def)
  let ?jobs = "arena_put (en_jobs r) i (j\<lparr>state := Ready\<rparr>)"
  from requeue_spec [OF Cons.prems(1), of i at "en_cycle r"] j obtain s where
    q: "requeue (en_scheduler r) i (en_jobs r) at (en_cycle r) = Some (s, ?jobs, Inr ())" "sched_inv s ?jobs" by auto
  let ?r = "r\<lparr>en_scheduler := s, en_jobs := ?jobs\<rparr>"
  have t: "term_ok ?jobs (en_terminal r)" by (rule term_ok_put [OF Cons.prems(2) j(1)]) (simp_all add: j(2))
  have st: "\<forall>x\<in>set ids. in_state ?jobs x Preempted"
    using Cons.prems(3,4) by (auto simp: in_state_put [OF j(1)])
  from Cons.IH [of ?r] q(2) t st Cons.prems(3) obtain s' jobs where
    c: "requeue_evicting ids at ?r = Some (Inr (?r\<lparr>en_scheduler := s', en_jobs := jobs\<rparr>))" "sched_inv s' jobs"
      "term_ok jobs (en_terminal r)" "arena_shape jobs = arena_shape ?jobs" "restated Ready (set ids) ?jobs jobs" by auto
  have "restated Ready (set (i # ids)) (en_jobs r) jobs"
    using restated_insert [OF c(5) j(1)] Cons.prems(3) by simp
  with q(1) c show ?case
    by (intro exI [of _ s'] exI [of _ jobs]) (simp add: try_sched_Inr try_step_def shape_put)
qed

text \<open>The job recovery makes of a job: what was evicted is ready again, and the count of preemptions starts over.\<close>

definition recovered_job :: "job \<Rightarrow> job" where
  "recovered_job j = (if state j = Preempted then bare (j\<lparr>state := Ready\<rparr>) else bare j)"

lemma recovered_jobs:
  assumes al: "alike jobs a" and r: "restated Ready S a b" and S: "S = {i. in_state a i Preempted}"
  shows "map_option bare (arena_get b i) = map_option recovered_job (arena_get jobs i)"
proof (cases "arena_get jobs i")
  case None
  with al have "arena_get a i = None" by (simp add: alike_def) (metis option.map_disc_iff)
  with None r show ?thesis by (simp add: restated_def)
next
  case (Some j)
  from alike_get [OF al Some] obtain k where k: "arena_get a i = Some k" "bare k = bare j" .
  have "i \<in> S \<longleftrightarrow> state j = Preempted" using k(1) bareD(1) [OF k(2)] S by (simp add: in_state_def)
  with Some k bareD(3) [OF k(2), of Ready] r show ?thesis by (simp add: restated_def recovered_job_def)
qed

lemma data_ok_recovered:
  assumes d: "data_ok jobs" and r: "\<And>i. map_option bare (arena_get b i) = map_option recovered_job (arena_get jobs i)"
  shows "data_ok b"
  unfolding data_ok_def
proof (intro allI impI)
  fix i k assume k: "arena_get b i = Some k"
  with r [of i] obtain j where j: "arena_get jobs i = Some j" "bare k = recovered_job j" by (cases "arena_get jobs i") auto
  from j(2) have "request k = request j" "payload k = payload j" "deps k = deps j"
    by (auto simp: recovered_job_def bare_def split: if_splits dest: arg_cong [of _ _ request] arg_cong [of _ _ payload] arg_cong [of _ _ deps])
  with d j(1) show "request k \<noteq> ZERO \<and> job_fits k" by (auto simp: data_ok_def job_fits_def)
qed

lemma ids_in_spec:
  assumes "arena_wf jobs" and "arena_iter jobs = Some ijs"
  shows "distinct (ids_in st ijs)" and "set (ids_in st ijs) = {i. in_state jobs i st}"
proof -
  from arena_iter_spec [OF assms(1)] assms(2) have x: "distinct (map fst ijs)" "\<forall>i v. (i, v) \<in> set ijs \<longleftrightarrow> arena_get jobs i = Some v"
    by auto
  from x(1) show "distinct (ids_in st ijs)" by (simp add: ids_in_def distinct_map_filter)
  show "set (ids_in st ijs) = {i. in_state jobs i st}" using x(2) by (force simp: ids_in_def in_state_def)
qed

text \<open>An engine without workers whose held jobs are exactly the running ones satisfies the invariant.\<close>

lemma engine_inv_idle:
  assumes inv: "engine_inv L e" and e: "en_running e = []" and s: "sched_inv sch jobs" and t: "term_ok jobs ts" and d: "data_ok jobs"
    and run: "distinct held" "set held = {i. in_state jobs i Running}" and np: "\<forall>i. \<not> in_state jobs i Preempted"
  shows "engine_inv L (e\<lparr>en_scheduler := sch, en_jobs := jobs, en_terminal := ts, en_reconciling := held\<rparr>)"
proof -
  have "dom (held_req jobs) = set held"
    unfolding run(2) using np by (auto simp: held_req_def in_state_def split: option.splits if_splits)
  then have "binds (held_req jobs) [] held (en_quiescing e)" using run(1) by (auto simp: binds_def)
  with inv e s t d run(2) show ?thesis by (simp add: engine_inv_def engine_core_def)
qed

lemma fresh_attach_ok:
  assumes f: "fresh_journal (Some jn)" and d: "decode_snapshot hash bytes = Inr sn"
  shows "journal_ok hash (Some (attach_snapshot jn bytes))"
proof -
  have "commit_holds hash (jn_pending jn) ([], None, [])" using f commit_holds_default by (simp add: fresh_journal_def)
  from attach_snapshot_holds [OF this d] have "commit_ok hash (jn_pending (attach_snapshot jn bytes))" unfolding commit_ok_def by blast
  with f show ?thesis by (simp add: journal_ok_def attach_snapshot_def fresh_journal_def)
qed

lemma requeued_engine:
  assumes e: "engine_inv L e" "en_running e = []" and k: "replayed e r" and mir: "mirrors jobs r" and d: "data_ok jobs"
  shows "\<exists>ijs q. arena_iter (en_jobs r) = Some ijs
     \<and> requeue_evicting (ids_in Preempted ijs) at (r\<lparr>en_reconciling := ids_in Running ijs\<rparr>) = Some (Inr q)
     \<and> engine_inv L q \<and> en_journal q = en_journal e \<and> en_running q = [] \<and> arena_shape (en_jobs q) = arena_shape jobs
     \<and> (\<forall>i. map_option bare (arena_get (en_jobs q) i) = map_option recovered_job (arena_get jobs i))
     \<and> distinct (en_reconciling q) \<and> set (en_reconciling q) = {i. in_state jobs i Running}"
proof -
  note m = mirrorsD [OF mir]
  have wf: "arena_wf (en_jobs r)" by (rule jobs_okD(1) [OF sched_invD(1) [OF m(1)]])
  from arena_iter_spec [OF wf] obtain ijs where ijs: "arena_iter (en_jobs r) = Some ijs" by blast
  note ids = ids_in_spec [OF wf ijs]
  let ?r = "r\<lparr>en_reconciling := ids_in Running ijs\<rparr>"
  from requeue_evicting_spec [of ?r "ids_in Preempted ijs" at] m(1,3) ids obtain sch jobs2 where
    q: "requeue_evicting (ids_in Preempted ijs) at ?r = Some (Inr (?r\<lparr>en_scheduler := sch, en_jobs := jobs2\<rparr>))" "sched_inv sch jobs2"
      "term_ok jobs2 (en_terminal r)" "arena_shape jobs2 = arena_shape (en_jobs r)"
      "restated Ready (set (ids_in Preempted ijs)) (en_jobs r) jobs2" by auto
  let ?q = "?r\<lparr>en_scheduler := sch, en_jobs := jobs2\<rparr>"
  have rj: "map_option bare (arena_get jobs2 i) = map_option recovered_job (arena_get jobs i)" for i
    by (rule recovered_jobs [OF m(2) q(5) ids(2)])
  have run: "{i. in_state jobs2 i Running} = {i. in_state (en_jobs r) i Running}" and np: "\<forall>i. \<not> in_state jobs2 i Preempted"
    using q(5) ids(2) by (auto simp: restated_def in_state_def split: if_splits)
  have q2: "?q = e\<lparr>en_scheduler := sch, en_jobs := jobs2, en_terminal := en_terminal r, en_reconciling := ids_in Running ijs\<rparr>"
    using k by (cases e; cases r) (simp add: replayed_def)
  with engine_inv_idle [OF e q(2,3) data_ok_recovered [OF d rj] ids(1) [of Running]] ids(2) run np
  have "engine_inv L ?q" by simp
  moreover have "en_journal ?q = en_journal e" "en_running ?q = []" unfolding q2 using e(2) by simp_all
  moreover have "arena_shape jobs2 = arena_shape jobs" using q(4) m(2) by (simp add: alike_def)
  moreover have "set (ids_in Running ijs) = {i. in_state jobs i Running}"
    using ids(2) alike_state [OF m(2)] by (simp add: in_state_def)
  ultimately show ?thesis using ijs q(1) rj ids(1) by (intro exI [of _ ijs] exI [of _ ?q]) simp
qed

lemma recover_spec:
  assumes n: "max_candidates (dc_cycle config) < 2 ^ 32" and f: "fresh_journal (Some jn)" and b: "boot_snapshot (rc_snapshot rc)"
    and fol: "follows arena_new (rc_records rc) jobs" and d: "data_ok jobs"
  shows "\<exists>r t. engine_recover L config rc jn = Some (Inr (r, t)) \<and> engine_inv L r \<and> arena_shape (en_jobs r) = arena_shape jobs
     \<and> (\<forall>i. map_option bare (arena_get (en_jobs r) i) = map_option recovered_job (arena_get jobs i))
     \<and> en_running r = [] \<and> distinct (en_reconciling r) \<and> set (en_reconciling r) = {i. in_state jobs i Running}"
proof -
  from engine_build_inv [OF n f, of L] obtain e where e: "engine_build config (Some jn) = Some e" "engine_inv L e" by blast
  note ef = built_fields [OF e(1)]
  from boot_restored [OF n e(1) f b] obtain e1 t1 where
    e1: "(case rc_snapshot rc of Some sn \<Rightarrow> restore_snapshot e sn | None \<Rightarrow> Some (Inr (e, 0))) = Some (Inr (e1, t1))"
      "e1 = e\<lparr>en_scheduler := en_scheduler e1\<rparr>" "sched_inv (en_scheduler e1) arena_new" by blast
  have f1: "en_jobs e1 = arena_new" "en_terminal e1 = []" by (subst e1(2), simp add: ef)+
  have "mirrors arena_new e1" using e1(3) f1 by (simp add: mirrors_def term_ok_def ended_def)
  with fol obtain r1 t2 where r1: "apply_records (rc_records rc) (e1, t1) = Some (Inr (r1, t2))" "mirrors jobs r1"
    unfolding follows_def by blast
  have "replayed e e1" by (subst e1(2)) (simp add: replayed_refl)
  then have k: "replayed e r1" using apply_records_replayed [OF r1(1)] by (rule replayed_trans)
  from requeued_engine [OF e(2) ef(3) k r1(2) d, of t2] obtain ijs q where
    q: "arena_iter (en_jobs r1) = Some ijs"
      "requeue_evicting (ids_in Preempted ijs) t2 (r1\<lparr>en_reconciling := ids_in Running ijs\<rparr>) = Some (Inr q)"
      "engine_inv L q" "en_journal q = Some jn" "en_running q = []" "arena_shape (en_jobs q) = arena_shape jobs"
      "\<forall>i. map_option bare (arena_get (en_jobs q) i) = map_option recovered_job (arena_get jobs i)"
      "distinct (en_reconciling q)" "set (en_reconciling q) = {i. in_state jobs i Running}" unfolding ef(2) by blast
  from engine_snapshot_decodes [OF q(3), of t2] obtain bytes sn where
    sn: "engine_snapshot L q t2 = Some bytes" "decode_snapshot (crc32 L) bytes = Inr sn" by blast
  let ?q = "q\<lparr>en_journal := Some (attach_snapshot jn bytes)\<rparr>"
  from engine_inv_journal [OF q(3) fresh_attach_ok [OF f sn(2)]] have "engine_inv L ?q" .
  moreover have "engine_recover L config rc jn = Some (Inr (?q, time_saturating_add t2 1))"
    using e(1) e1(1) r1(1) q(1,2,4) sn(1) by (simp add: engine_recover_def try_step_def)
  ultimately show ?thesis using q(5-9) by (intro exI [of _ ?q] exI [of _ "time_saturating_add t2 1"]) simp
qed

section \<open>A sample history with a journal\<close>

definition sample_journal :: journal where
  "sample_journal = journal_new \<lparr>ch_queue = [], ch_bound = COMMIT_QUEUE_DEPTH, ch_open = True\<rparr> 100"

definition sample_logged :: "(command option \<times> virtual_time) list \<Rightarrow> (engine \<times> dispatch list world) option" where
  "sample_logged xs =
     do { e \<leftarrow> engine_build sample_daemon (Some sample_journal); play sample_libs xs (e, \<lparr>wd_outbox = [], wd_sent = []\<rparr>) }"

lemma sample_logged_history: "sample_logged xs = Some (e, w) \<Longrightarrow> logged sample_libs [] e"
proof -
  assume "sample_logged xs = Some (e, w)"
  then obtain e0 where e0: "engine_build sample_daemon (Some sample_journal) = Some e0"
    "play sample_libs xs (e0, \<lparr>wd_outbox = [], wd_sent = []\<rparr>) = Some (e, w)"
    unfolding sample_logged_def bind_eq_Some_conv by blast
  have "logged sample_libs [] e0"
    by (rule logged_build [OF _ _ e0(1)]) (simp_all add: sample_daemon_def sample_journal_def journal_new_def fresh_journal_def)
  from play_keeps [where P = "logged sample_libs []", OF e0(2) this logged_command logged_tick] show ?thesis .
qed

section \<open>Properties\<close>

text \<open>
  C3. A restart gives the jobs back. Take any history of a daemon with a journal, and a data directory
  that holds all records of it behind the snapshot of the first start, or behind none. Then recovery
  succeeds, under any configuration: every handle is live exactly when it was, with the same job in
  the same state, except that a job that was being evicted is ready again and the number of
  preemptions is counted from zero. No job is bound to a slot, exactly the jobs that were running are
  held for their workers, and the engine satisfies the invariant under which it does not panic.
\<close>

theorem recovery_restores_jobs:
  assumes "logged L d e" and "journal_log (crc32 L) (en_journal e) rs"
    and "max_candidates (dc_cycle config) < 2 ^ 32" and "fresh_journal (Some jn)"
    and "boot_snapshot (rc_snapshot rc)" and "rc_records rc = d @ rs"
  shows "\<exists>r t. engine_recover L config rc jn = Some (Inr (r, t)) \<and> engine_inv L r
     \<and> arena_shape (en_jobs r) = arena_shape (en_jobs e)
     \<and> (\<forall>i. map_option bare (arena_get (en_jobs r) i) = map_option recovered_job (arena_get (en_jobs e) i))
     \<and> en_running r = [] \<and> distinct (en_reconciling r)
     \<and> set (en_reconciling r) = {i. in_state (en_jobs e) i Running}"
proof -
  from logged_story [OF assms(1)] obtain qs where
    s: "engine_inv L e" "journal_log (crc32 L) (en_journal e) qs" "follows arena_new (d @ qs) (en_jobs e)" by blast
  have "follows arena_new (rc_records rc) (en_jobs e)"
    using s(3) unfolding assms(6) journal_log_unique [OF assms(2) s(2)] .
  moreover have "data_ok (en_jobs e)" using s(1) by (simp add: engine_inv_def engine_core_def)
  ultimately show ?thesis by (rule recover_spec [OF assms(3,4,5)])
qed

theorem recovery_restores_jobs_witness:
  "\<exists>e w rs r t. sample_logged started = Some (e, w) \<and> journal_log (crc32 sample_libs) (en_journal e) rs
     \<and> engine_recover sample_libs sample_daemon \<lparr>rc_generation = 0, rc_snapshot = None, rc_records = rs, rc_torn_at = None\<rparr>
         sample_journal = Some (Inr (r, t))
     \<and> map_option state (arena_get (en_jobs r) 0) = Some Running \<and> 0 \<in> set (en_reconciling r)"
proof -
  have "map_option (\<lambda>(e, w). map_option state (arena_get (en_jobs e) 0)) (sample_logged started) = Some (Some Running)" by code_simp
  then obtain e w where e: "sample_logged started = Some (e, w)" "map_option state (arena_get (en_jobs e) 0) = Some Running" by auto
  note l = sample_logged_history [OF e(1)]
  from logged_story [OF l] obtain rs where rs: "journal_log (crc32 sample_libs) (en_journal e) rs" by blast
  let ?rc = "\<lparr>rc_generation = 0, rc_snapshot = None, rc_records = rs, rc_torn_at = None\<rparr>"
  have "max_candidates (dc_cycle sample_daemon) < 2 ^ 32" "fresh_journal (Some sample_journal)" "boot_snapshot (rc_snapshot ?rc)"
    by (simp_all add: sample_daemon_def sample_journal_def journal_new_def fresh_journal_def boot_snapshot_def)
  from recovery_restores_jobs [OF l rs this] obtain r t where
    r: "engine_recover sample_libs sample_daemon ?rc sample_journal = Some (Inr (r, t))"
      "map_option bare (arena_get (en_jobs r) 0) = map_option recovered_job (arena_get (en_jobs e) 0)"
      "set (en_reconciling r) = {i. in_state (en_jobs e) i Running}" by auto
  from r(2) e(2) have "map_option state (arena_get (en_jobs r) 0) = Some Running"
    by (auto simp: recovered_job_def dest!: bareD(1))
  with e rs r show ?thesis by (auto simp: in_state_def)
qed

end
