(* ===== verification/Engine_Faults.thy ===== *)
theory Engine_Faults
  imports Recovery
begin

text \<open>
  Four places where the engine does not do what it means to do: the order in which a snapshot is
  loaded, a snapshot taken during an eviction, a stale preemption report, and the order in which the
  overflow is sent.
\<close>

section \<open>A history with a dependency on a higher slot\<close>

text \<open>
  The first job runs, completes and is forgotten. A second job starts, and a third, which waits for
  the second, gets the slot of the first: a lower slot than the job it waits for.
\<close>

definition second_job :: job_id where
  "second_job = job_id_new 1 0"

definition third_job :: job_id where
  "third_job = job_id_new 0 1"

definition third_waits :: "(command option \<times> virtual_time) list" where
  "third_waits =
     [(Some (Cmd_WorkerJoined ''w'' sample_request [] 0), 1), (Some (Cmd_Submit sample_parent 1), 2),
      (Some (Cmd_Submit sample_parent 2), 2), (None, 3), (Some (Cmd_Completed 0), 4), (None, 20),
      (Some (Cmd_Submit (sample_child\<lparr>deps := [second_job]\<rparr>) 3), 21)]"

definition state_of :: "engine \<Rightarrow> job_id \<Rightarrow> job_state option" where
  "state_of e i = map_option state (arena_get (en_jobs e) i)"

text \<open>The second job completes: in the engine that goes on, and in one restarted from a snapshot.\<close>

definition live_outcome :: "(job_state option \<times> job_state option) option" where
  "live_outcome =
     do { (e, w) \<leftarrow> sample_run (third_waits @ [(Some (Cmd_Completed second_job), 30)]);
          Some (state_of e second_job, state_of e third_job) }"

definition restarted_outcome :: "(job_state option \<times> job_state option) option" where
  "restarted_outcome =
     do { (e, w) \<leftarrow> sample_run third_waits;
          sn \<leftarrow> snapshot_of e 22;
          r \<leftarrow> engine_recover sample_libs sample_daemon
                \<lparr>rc_generation = 0, rc_snapshot = Some sn, rc_records = [R_Completed second_job 30], rc_torn_at = None\<rparr>
                sample_journal;
          case r of Inl err \<Rightarrow> None | Inr (e, t) \<Rightarrow> Some (state_of e second_job, state_of e third_job) }"

section \<open>A history with an eviction\<close>

text \<open>A job of a higher class waits for the slot of the first job, which is asked to leave it.\<close>

definition preempting_daemon :: daemon_config where
  "preempting_daemon = sample_daemon\<lparr>dc_cycle := (dc_cycle sample_daemon)\<lparr>cc_preempt := preempt_config_on\<rparr>\<rparr>"

definition evicting :: "(command option \<times> virtual_time) list" where
  "evicting = started @ [(Some (Cmd_Submit (sample_parent\<lparr>priority_class := High\<rparr>) 2), 4), (None, 5)]"

definition preempting_run :: "(command option \<times> virtual_time) list \<Rightarrow> (engine \<times> dispatch list world) option" where
  "preempting_run xs =
     do { e \<leftarrow> engine_build preempting_daemon None; play sample_libs xs (e, \<lparr>wd_outbox = [], wd_sent = []\<rparr>) }"

text \<open>
  The state of the first job before and after its worker reports that it has left, and what a restart
  makes of a snapshot taken before the report with the record of the report behind it.
\<close>

definition eviction_states :: "(job_state option \<times> job_state option) option" where
  "eviction_states =
     do { (e, w) \<leftarrow> preempting_run evicting;
          (e', w') \<leftarrow> preempting_run (evicting @ [(Some (Cmd_Preempted 0), 7)]);
          Some (state_of e 0, state_of e' 0) }"

definition eviction_restart :: "(recover_error + unit) option" where
  "eviction_restart =
     do { (e, w) \<leftarrow> preempting_run evicting;
          sn \<leftarrow> snapshot_of e 6;
          r \<leftarrow> engine_recover sample_libs preempting_daemon
                \<lparr>rc_generation = 0, rc_snapshot = Some sn, rc_records = [R_Requeued 0 7], rc_torn_at = None\<rparr>
                sample_journal;
          Some (map_sum (\<lambda>err. err) (\<lambda>et. ()) r) }"

section \<open>Properties\<close>



text \<open>
  C22. A preemption report for a job that is running leaks it. Such a report can be stale: the job was
  evicted, requeued when the daemon restarted or its worker left, and has been started again elsewhere.
  The engine unbinds the job and gives its capacity back before the scheduler rejects the report; the job
  stays running, is bound to no slot and held for no worker, and every later report of a worker about
  it, in any state that does not bind it again, is ignored.
\<close>

theorem preempted_report_leaks_running_job:
  assumes reach: "engine_reach L e" and i: "i \<in> run_job ` set (en_running e)"
    and j: "arena_get (en_jobs e) i = Some j" "state j = Running"
  shows "\<exists>e'. on_preempted_report L e i now = Some e' \<and> arena_get (en_jobs e') i = Some j
     \<and> i \<notin> run_job ` set (en_running e') \<and> i \<notin> set (en_reconciling e') \<and> en_journal e' = en_journal e
     \<and> on_completed_report L e' i t = Some e' \<and> on_failed_report L e' i t = Some e' \<and> on_preempted_report L e' i t = Some e'"
proof -
  note inv = engine_reach_inv [OF reach]
  from engine_release_bound [OF inv i] obtain slot iv run where
    r: "engine_release e i = Some (e\<lparr>en_inventory := iv, en_running := run\<rparr>, Some slot)"
      "detached L (e\<lparr>en_inventory := iv, en_running := run\<rparr>) i" "i \<notin> set (en_reconciling e)" by blast
  have un: "i \<notin> run_job ` set run" using r(2) by (auto simp: detached_def binds_def)
  have s: "sched_inv (en_scheduler e) (en_jobs e)" using inv by (simp add: engine_inv_def engine_core_def)
  from on_preempted_effect [OF s, of i now "en_cycle e"] j obtain s' err where
    p: "on_preempted (en_scheduler e) i (en_jobs e) now (en_cycle e) = Some (s', en_jobs e, Inl err)"
    by (auto simp: held_req_def in_state_def)
  let ?e = "e\<lparr>en_inventory := iv, en_running := run, en_scheduler := s', en_jobs := en_jobs e\<rparr>"
  have "on_preempted_report L e i now = Some ?e"
    using r(1) p by (simp add: on_preempted_report_def release_or_unhold_def with_sched_def)
  moreover have "position (\<lambda>r. run_job r = i) run = None" "position (\<lambda>r. r = i) (en_reconciling e) = None"
    using un r(3) by (auto simp: position_None)
  then have "release_or_unhold ?e i = Some (?e, False)"
    by (simp add: release_or_unhold_def engine_release_def unhold_def)
  ultimately show ?thesis
    using j un r(3)
    by (intro exI [of _ ?e]) (simp add: on_completed_report_def on_failed_report_def on_preempted_report_def)
qed

theorem preempted_report_leaks_running_job_witness:
  "\<exists>e w e'. sample_run started = Some (e, w) \<and> on_preempted_report sample_libs e 0 5 = Some e'
     \<and> state_of e' 0 = Some Running \<and> 0 \<notin> run_job ` set (en_running e') \<and> on_completed_report sample_libs e' 0 6 = Some e'"
proof -
  obtain e w where e: "sample_run started = Some (e, w)" "engine_reach sample_libs e"
    "map run_job (en_running e) = [0]" "map_option state (arena_get (en_jobs e) 0) = Some Running" by (rule started_state)
  then obtain j where j: "arena_get (en_jobs e) 0 = Some j" "state j = Running" by auto
  have "0 \<in> set (map run_job (en_running e))" unfolding e(3) by simp
  then have "0 \<in> run_job ` set (en_running e)" by (simp only: set_map)
  from preempted_report_leaks_running_job [OF e(2) this j, of 5 6] e(1) j show ?thesis by (auto simp: state_of_def)
qed



end
