(* ===== verification/Spec2Isabelle.thy ===== *)
theory Spec2Isabelle
  imports Engine_Faults
begin

text \<open>
  TaskerRT is a batch scheduler for a cluster of workers. A daemon (\<open>crates/taskerd\<close>) accepts jobs
  and worker reports on asynchronous services, and hands each of them as a command to one scheduler
  thread, which owns all state. The thread drains its inbox and then runs a tick: it drives the
  scheduling core (\<open>crates/tasker-core\<close>), queues what workers are to do, and journals what it did. A
  writer thread puts the journal's batches on disk (\<open>crates/tasker-wal\<close>), and only then releases the
  replies and dispatches held in them. After a crash the engine is rebuilt from a snapshot and the
  log behind it. This development models the core, the log and the whole scheduler and writer
  threads, and proves what they promise.

  \<^bold>\<open>Conventions.\<close> A panic is \<open>None\<close> of the option monad, so that "never panics" is "is not
  \<open>None\<close>"; a \<open>Result\<close> is a sum with the error on the left; a Rust \<open>Option\<close> is an option of its
  own. Integers keep their width as words and wrap or saturate as the source does; \<open>usize\<close> is a
  natural number; a \<open>Vec\<close> is a list, and an index out of range is a panic. A method that changes
  \<open>self\<close> returns the new value. The names are those of the source, with a prefix where two
  modules share one or a library constant has it. Functions of other packages are fields of a record
  of parameters: the checksum (\<open>crc32\<close>) and the ring's push (\<open>ring_push\<close>); the disk's answers to
  the writer are an input. Replies are sent on tokens, and the messages sent so far are part of the
  world the engine is run in. Metrics and log lines are left out.

  \<^bold>\<open>Data.\<close> \<open>Tasker_Prelude\<close> has the word arithmetic, the vector operations and the loops that the
  others share. \<open>Resource_Vector\<close> (\<open>domain/resource.rs\<close>), \<open>Arena\<close> (\<open>domain/arena.rs\<close>),
  \<open>Job_Model\<close> (\<open>domain/job.rs\<close>, \<open>domain/time.rs\<close>) and \<open>Slot_Inventory\<close> (\<open>cluster/slot.rs\<close>)
  model the data of the core. The arena refines a map of handles, and a handle that was removed is
  never valid again before its slot's generation wraps; first fit finds the lowest slot with room.

  \<^bold>\<open>Policies.\<close> \<open>Priority\<close> (\<open>policy/priority.rs\<close>): scores, exact and without wrap-around.
  \<open>Max_Queue\<close> states what a priority queue promises, as a locale; \<open>Ready_Heap\<close> and \<open>Ready_Set\<close>
  (\<open>policy/ready_set.rs\<close>) model the indexed heap and the four heaps of the ready set, interpret that
  locale, and take from it that draining returns the best entries in order. \<open>Eligibility\<close>
  (\<open>policy/eligibility.rs\<close>) models the dependency tracker, and \<open>Dependency_Graph\<close> relates it to the
  graph the jobs' dependency lists form: the cascade of a cancellation ends and is the set reachable
  in that graph. \<open>Fair_Share\<close> (\<open>policy/fairshare.rs\<close>): decay, ledgers, factors. \<open>Pack\<close>, \<open>Backfill\<close>
  and \<open>Preempt\<close> (\<open>policy/pack.rs\<close>, \<open>policy/backfill.rs\<close>, \<open>policy/preempt.rs\<close>): the passes that
  choose what starts and what is evicted; a backfilled job never delays the reservation of the head.

  \<^bold>\<open>The scheduler.\<close> \<open>Cycle\<close> (\<open>engine/cycle.rs\<close>) models every lifecycle call and the scheduling
  cycle. \<open>Scheduler_Inv\<close> states the invariant that ties the arena, the ready set, the dependency
  tracker and the accounts together; \<open>Scheduler_Ops\<close> and \<open>Cycle_Run\<close> show for every call and for the
  cycle what it does on every branch and that it keeps the invariant; \<open>Scheduler_Run\<close> defines the
  histories and states the properties over them.

  \<^bold>\<open>The log.\<close> \<open>Codec\<close>, \<open>Wal_Record\<close>, \<open>Wal_Log\<close>, \<open>Wal_Snapshot\<close> and \<open>Wal_Store\<close> (\<open>codec.rs\<close>,
  \<open>record.rs\<close>, \<open>log.rs\<close>, \<open>snapshot.rs\<close>, \<open>store.rs\<close> of \<open>tasker-wal\<close>): readers and writers invert
  each other, a torn log gives the records that are whole, and a rotation that crashes leaves a
  generation that loads, except in one window. A directory is a map from names to contents, and a
  crash leaves any prefix of a sequence of writes.

  \<^bold>\<open>The daemon.\<close> \<open>Messages\<close> (\<open>command.rs\<close>, \<open>outbox.rs\<close>, \<open>inbox.rs\<close>), \<open>Journal\<close> (\<open>journal.rs\<close>),
  \<open>Engine\<close> and \<open>Engine_Recover\<close> (\<open>engine.rs\<close>, \<open>clock.rs\<close>, \<open>config.rs\<close>). \<open>Slot_Books\<close>,
  \<open>Arena_Shape\<close> and \<open>Job_Effects\<close> say what the core's calls do to what the engine sees;
  \<open>Engine_Inv\<close> states the engine's invariant, \<open>Engine_Commands\<close> and \<open>Engine_Tick\<close> show that every
  command and the tick return and keep it, and \<open>Engine_Run\<close> draws the conclusions for all histories.
  \<open>Replay\<close> shows for each record that replaying it does to one arena what the step that wrote it did
  to another; \<open>Engine_Log\<close> and \<open>Engine_Log_Tick\<close> show that the records of every command and tick
  tell what it did; \<open>Recovery\<close> concludes that a restart from the log gives the jobs back.
  \<open>Engine_Faults\<close> has the histories on which the daemon does not do what it means to do.

  \<^bold>\<open>Bounds and fuel.\<close> The loops of the core are structural or have a termination proof. The loops
  that wait for another thread take a bound: the turns of the scheduler thread (\<open>run_turns\<close>) take the
  list of turns, and the writer's retry on a full ring (\<open>push_spin\<close>) takes a number of attempts, with
  the ring drained in between by a parameter. Histories assume what the machine gives: fewer than
  2^32 slots, and no slot's generation at its last value when its job is forgotten.

  \<^bold>\<open>Not modelled.\<close> The gRPC services, the dispatcher and the registry (\<open>control.rs\<close>,
  \<open>worker_api.rs\<close>, \<open>scaler.rs\<close>, \<open>dispatcher.rs\<close>, \<open>registry.rs\<close>), the worker agent
  (\<open>tasker-worker\<close>) and the client (\<open>tasker-cli\<close>) are asynchronous code over tonic and tokio: they
  move messages, and the runtime and the generated wire types are not part of the sources. For the
  same reason the conversions of \<open>tasker-proto\<close> are left out. Start-up and metrics (\<open>daemon.rs\<close>,
  \<open>main.rs\<close>, \<open>metrics.rs\<close>), the simulator and the benchmarks hold no state of the scheduler. Syncing
  a file has no effect in the model: a write that returned is on disk.
\<close>

end
